(* ===== verification/Prelude.thy ===== *)
theory Prelude
  imports Main "HOL-Library.Multiset"
begin

text \<open>
  Shared vocabulary of the development: the exceptions the Python code raises, the one-dimensional
  tensor operations of torch and numpy that the source uses (a 1-D tensor is a list; an index or a
  slot is a \<open>nat\<close>), Python slices, and the generic facts about them.

  The central notion is \<open>ntrue m i\<close>, the number of set positions of the mask \<open>m\<close> before
  position \<open>i\<close>.  A cumulative sum of a mask, the positions \<open>nonzero m\<close> and the result of a masked
  scatter are all determined by it, which is how the vectorised code is related to sequential
  specifications.
\<close>

section \<open>Errors\<close>

datatype err = AssertionError | IndexError | KeyError | RuntimeError | ValueError | OverflowError
  | NotImplementedError | TypeError | AttributeError | ZeroDivisionError

type_synonym slot = nat

text \<open>
  The result of code that may raise and that contains loops: \<open>None\<close> when it does not return,
  \<open>raise e\<close> when it raises, \<open>ret x\<close> when it returns.  \<open>rbind\<close> is sequencing; it is monotone, so
  that loops over it can be defined by \<open>partial_function (option)\<close>.
\<close>

type_synonym 'a res = "(err + 'a) option"

definition ret :: "'a \<Rightarrow> 'a res" where
  "ret x = Some (Inr x)"

definition raise :: "err \<Rightarrow> 'a res" where
  "raise e = Some (Inl e)"

definition rbind :: "'a res \<Rightarrow> ('a \<Rightarrow> 'b res) \<Rightarrow> 'b res" where
  "rbind m f = Option.bind m (case_sum raise f)"

definition lift_err :: "err + 'a \<Rightarrow> 'a res" where
  "lift_err r = Some r"

lemma rbind_simps [simp]:
  "rbind (ret x) f = f x"
  "rbind (raise e) f = raise e"
  "rbind None f = None"
  by (simp_all add: rbind_def ret_def raise_def)

lemma lift_err_simps [simp]: "lift_err (Inr x) = ret x" "lift_err (Inl e) = raise e"
  by (simp_all add: lift_err_def ret_def raise_def)

lemma ret_inject [simp]: "ret x = ret y \<longleftrightarrow> x = y" "ret x \<noteq> raise e" "raise e \<noteq> ret x" "ret x \<noteq> None"
  "None \<noteq> ret x" "raise e \<noteq> None" "raise e = raise e' \<longleftrightarrow> e = e'"
  by (simp_all add: ret_def raise_def)

lemma rbind_ret_iff: "rbind m f = ret y \<longleftrightarrow> (\<exists>x. m = ret x \<and> f x = ret y)"
  by (cases m; cases "the m") (auto simp: rbind_def ret_def raise_def)

lemma rbind_mono [partial_function_mono]:
  assumes "mono_option B" and "\<And>y. mono_option (\<lambda>f. C y f)"
  shows "mono_option (\<lambda>f. rbind (B f) (\<lambda>y. C y f))"
  unfolding rbind_def
proof (rule bind_mono [OF assms(1)])
  fix y
  show "mono_option (\<lambda>f. case_sum raise (\<lambda>y. C y f) y)"
    using assms(2) by (cases y) (auto simp: monotone_def option.leq_refl)
qed

section \<open>Collections of rewrite rules\<close>

named_theorems tensor_simps \<open>element-wise characterisation of tensor operations\<close>

section \<open>Tensor operations\<close>

text \<open>\<open>torch.cumsum(x, dim=0)\<close>\<close>

fun cumsum_from :: "nat \<Rightarrow> nat list \<Rightarrow> nat list" where
  "cumsum_from acc [] = []"
| "cumsum_from acc (x # xs) = (acc + x) # cumsum_from (acc + x) xs"

definition cumsum :: "nat list \<Rightarrow> nat list" where
  "cumsum xs = cumsum_from 0 xs"

text \<open>\<open>mask.to(torch.int64)\<close>\<close>

definition mask_int :: "bool list \<Rightarrow> nat list" where
  "mask_int m = map (\<lambda>b. if b then 1 else 0) m"

text \<open>\<open>torch.repeat_interleave(x, lens)\<close>\<close>

definition repeat_interleave :: "'a list \<Rightarrow> nat list \<Rightarrow> 'a list" where
  "repeat_interleave xs ns = concat (map (\<lambda>(x, n). replicate n x) (zip xs ns))"

text \<open>\<open>torch.nonzero(mask, as_tuple=True)[0]\<close>\<close>

definition nonzero :: "bool list \<Rightarrow> nat list" where
  "nonzero m = filter (\<lambda>i. m ! i) [0..<length m]"

text \<open>\<open>x[mask]\<close> for a boolean mask of the same length\<close>

definition mask_select :: "'a list \<Rightarrow> bool list \<Rightarrow> 'a list" where
  "mask_select xs m = map fst (filter snd (zip xs m))"

text \<open>\<open>x[idx]\<close> for an index tensor\<close>

definition gather :: "'a list \<Rightarrow> nat list \<Rightarrow> 'a list" where
  "gather xs idx = map (\<lambda>i. xs ! i) idx"

text \<open>\<open>x[idx] = vals\<close>\<close>

fun scatter :: "'a list \<Rightarrow> nat list \<Rightarrow> 'a list \<Rightarrow> 'a list" where
  "scatter xs (i # is) (v # vs) = scatter (xs[i := v]) is vs"
| "scatter xs _ _ = xs"

text \<open>\<open>torch.bincount(x, minlength)\<close>\<close>

definition bincount :: "nat list \<Rightarrow> nat \<Rightarrow> nat list" where
  "bincount xs minlength =
     map (\<lambda>k. count_list xs k) [0..<max minlength (if xs = [] then 0 else Suc (Max (set xs)))]"

text \<open>\<open>torch.unique(x)\<close>: the distinct values in increasing order\<close>

definition unique :: "nat list \<Rightarrow> nat list" where
  "unique xs = sort (remdups xs)"

text \<open>\<open>x[a:b]\<close> for non-negative bounds\<close>

definition slice :: "'a list \<Rightarrow> nat \<Rightarrow> nat \<Rightarrow> 'a list" where
  "slice xs a b = take (b - a) (drop a xs)"

text \<open>\<open>x[a:a + len(vals)] = vals\<close>\<close>

definition set_slice :: "'a list \<Rightarrow> nat \<Rightarrow> 'a list \<Rightarrow> 'a list" where
  "set_slice xs a vals =
     map (\<lambda>i. if a \<le> i \<and> i < a + length vals then vals ! (i - a) else xs ! i) [0..<length xs]"

lemma length_set_slice [simp]: "length (set_slice xs a vals) = length xs"
  by (simp add: set_slice_def)

lemma set_slice_nth [simp]:
  "i < length xs \<Longrightarrow> set_slice xs a vals ! i = (if a \<le> i \<and> i < a + length vals then vals ! (i - a) else xs ! i)"
  by (simp add: set_slice_def)

section \<open>Counting the set positions of a mask\<close>

definition ntrue :: "bool list \<Rightarrow> nat \<Rightarrow> nat" where
  "ntrue m i = length (filter id (take i m))"

lemma ntrue_0 [simp]: "ntrue m 0 = 0"
  by (simp add: ntrue_def)

lemma ntrue_Suc [simp]: "i < length m \<Longrightarrow> ntrue m (Suc i) = ntrue m i + (if m ! i then 1 else 0)"
  by (simp add: ntrue_def take_Suc_conv_app_nth)

lemma ntrue_Nil [simp]: "ntrue [] i = 0"
  by (simp add: ntrue_def)

lemma ntrue_Cons: "ntrue (b # m) (Suc i) = (if b then 1 else 0) + ntrue m i"
  by (simp add: ntrue_def)

lemma ntrue_le: "ntrue m i \<le> i"
  unfolding ntrue_def by (rule order_trans [OF length_filter_le]) simp

lemma ntrue_mono: "i \<le> j \<Longrightarrow> ntrue m i \<le> ntrue m j"
proof -
  assume "i \<le> j"
  then have "take j m = take i m @ take (j - i) (drop i m)"
    by (metis le_add_diff_inverse take_add)
  then show ?thesis by (simp add: ntrue_def)
qed

lemma ntrue_total: "ntrue m (length m) = length (filter id m)"
  by (simp add: ntrue_def)

lemma ntrue_less: "i < length m \<Longrightarrow> m ! i \<Longrightarrow> ntrue m i < ntrue m (length m)"
  using ntrue_mono [of "Suc i" "length m" m] by simp

lemma ntrue_inj:
  assumes "i < length m" "j < length m" "m ! i" "m ! j" "ntrue m i = ntrue m j"
  shows "i = j"
proof (rule ccontr)
  assume "i \<noteq> j"
  then consider "Suc i \<le> j" | "Suc j \<le> i" by linarith
  then show False
    by cases (use assms ntrue_mono [of "Suc i" j m] ntrue_mono [of "Suc j" i m] in auto)
qed

lemma ntrue_map_Not: "i \<le> length m \<Longrightarrow> ntrue (map Not m) i = i - ntrue m i"
proof (induction i)
  case (Suc i)
  then show ?case using ntrue_le [of m i] by (auto simp: Suc_diff_le)
qed simp

lemma ntrue_append:
  "ntrue (xs @ ys) i = (if i \<le> length xs then ntrue xs i else ntrue xs (length xs) + ntrue ys (i - length xs))"
  by (simp add: ntrue_def)

lemma ntrue_append_full:
  "ntrue (xs @ ys) (length (xs @ ys)) = ntrue xs (length xs) + ntrue ys (length ys)"
  by (simp add: ntrue_def)

section \<open>Cumulative sums\<close>

lemma length_cumsum_from [simp]: "length (cumsum_from a xs) = length xs"
  by (induction xs arbitrary: a) auto

lemma cumsum_from_nth: "i < length xs \<Longrightarrow> cumsum_from a xs ! i = a + sum_list (take (Suc i) xs)"
proof (induction xs arbitrary: a i)
  case (Cons x xs)
  then show ?case by (cases i) auto
qed simp

lemma length_cumsum [simp]: "length (cumsum xs) = length xs"
  by (simp add: cumsum_def)

lemma cumsum_nth [tensor_simps]: "i < length xs \<Longrightarrow> cumsum xs ! i = sum_list (take (Suc i) xs)"
  by (simp add: cumsum_def cumsum_from_nth)

lemma length_mask_int [simp]: "length (mask_int m) = length m"
  by (simp add: mask_int_def)

lemma sum_mask_int: "sum_list (take i (mask_int m)) = ntrue m i"
proof -
  have "sum_list (mask_int xs) = length (filter id xs)" for xs
    by (induction xs) (auto simp: mask_int_def)
  from this [of "take i m"] show ?thesis
    by (simp add: ntrue_def mask_int_def take_map)
qed

lemma cumsum_mask [tensor_simps]: "i < length m \<Longrightarrow> cumsum (mask_int m) ! i = ntrue m (Suc i)"
  by (simp add: cumsum_nth sum_mask_int del: ntrue_Suc)

section \<open>Positions, gather and scatter\<close>

lemma length_gather [simp]: "length (gather xs idx) = length idx"
  by (simp add: gather_def)

lemma gather_nth [tensor_simps]: "k < length idx \<Longrightarrow> gather xs idx ! k = xs ! (idx ! k)"
  by (simp add: gather_def)

lemma set_nonzero [simp]: "set (nonzero m) = {i. i < length m \<and> m ! i}"
  by (auto simp: nonzero_def)

lemma distinct_nonzero [simp]: "distinct (nonzero m)"
  by (simp add: nonzero_def)

lemma sorted_nonzero: "sorted (nonzero m)"
  by (simp add: nonzero_def sorted_filter [of id, simplified])

lemma nonzero_snoc: "nonzero (m @ [b]) = nonzero m @ (if b then [length m] else [])"
proof -
  have "filter (\<lambda>i. (m @ [b]) ! i) [0..<length m] = filter (\<lambda>i. m ! i) [0..<length m]"
    by (rule filter_cong) (auto simp: nth_append)
  then show ?thesis by (simp add: nonzero_def nth_append)
qed

lemma length_nonzero: "length (nonzero m) = ntrue m (length m)"
  by (induction m rule: rev_induct) (auto simp: nonzero_snoc ntrue_append nonzero_def [of "[]"] ntrue_Cons)

lemma nonzero_ntrue: "i < length m \<Longrightarrow> m ! i \<Longrightarrow> nonzero m ! ntrue m i = i"
proof (induction m rule: rev_induct)
  case (snoc b m)
  show ?case
  proof (cases "i < length m")
    case True
    with snoc.prems have mi: "m ! i" by (simp add: nth_append)
    with True have "ntrue m i < length (nonzero m)"
      by (simp add: length_nonzero ntrue_less)
    with True mi snoc.IH show ?thesis
      by (simp add: nonzero_snoc nth_append ntrue_append)
  next
    case False
    with snoc.prems have "i = length m" and "b" by (auto simp: nth_append)
    then show ?thesis
      by (simp add: nonzero_snoc ntrue_append nth_append flip: length_nonzero)
  qed
qed simp

lemma length_scatter [simp]: "length (scatter xs idx vs) = length xs"
  by (induction xs idx vs rule: scatter.induct) auto

lemma scatter_Nil [simp]: "scatter xs [] vs = xs" "scatter xs idx [] = xs"
  by (cases vs; simp) (cases idx; simp)

lemma scatter_notin: "i \<notin> set idx \<Longrightarrow> scatter xs idx vs ! i = xs ! i"
  by (induction xs idx vs rule: scatter.induct) auto

lemma scatter_in:
  "distinct idx \<Longrightarrow> k < length idx \<Longrightarrow> length vs = length idx \<Longrightarrow> idx ! k < length xs
   \<Longrightarrow> scatter xs idx vs ! (idx ! k) = vs ! k"
proof (induction xs idx vs arbitrary: k rule: scatter.induct)
  case (1 xs i "is" v vs)
  then show ?case
    by (cases k) (auto simp: scatter_notin)
qed auto

lemma scatter_mask:
  assumes "i < length m" "length xs = length m" "length vs = length (nonzero m)"
  shows "scatter xs (nonzero m) vs ! i = (if m ! i then vs ! ntrue m i else xs ! i)"
proof (cases "m ! i")
  case True
  with assms have "ntrue m i < length (nonzero m)" and "nonzero m ! ntrue m i = i"
    by (simp_all add: length_nonzero ntrue_less nonzero_ntrue)
  with True assms show ?thesis
    using scatter_in [of "nonzero m" "ntrue m i" vs xs] by simp
next
  case False
  then show ?thesis by (simp add: scatter_notin)
qed

section \<open>Sequential distribution of two streams along a mask\<close>

text \<open>
  \<open>deal m ps qs\<close> walks the mask from left to right and takes the next element of \<open>ps\<close> at a set
  position and the next element of \<open>qs\<close> at a clear one.  It is the specification of the pair of
  masked scatters \<open>out[nonzero(m)] = ps; out[nonzero(~m)] = qs\<close>.
\<close>

fun deal :: "bool list \<Rightarrow> 'a list \<Rightarrow> 'a list \<Rightarrow> 'a list" where
  "deal (True # m) (p # ps) qs = p # deal m ps qs"
| "deal (False # m) ps (q # qs) = q # deal m ps qs"
| "deal _ _ _ = []"

fun deal_ok :: "bool list \<Rightarrow> 'a list \<Rightarrow> 'a list \<Rightarrow> bool" where
  "deal_ok [] [] [] = True"
| "deal_ok (True # m) (p # ps) qs = deal_ok m ps qs"
| "deal_ok (False # m) ps (q # qs) = deal_ok m ps qs"
| "deal_ok _ _ _ = False"

lemma deal_okI: "ntrue m (length m) = length ps \<Longrightarrow> length m = length ps + length qs \<Longrightarrow> deal_ok m ps qs"
proof (induction m arbitrary: ps qs)
  case (Cons b m)
  show ?case
  proof (cases b)
    case True
    with Cons.prems obtain p ps' where "ps = p # ps'" by (cases ps) (auto simp: ntrue_Cons)
    with True Cons show ?thesis by (simp add: ntrue_Cons)
  next
    case False
    with Cons.prems ntrue_le [of m "length m"] obtain q qs' where "qs = q # qs'"
      by (cases qs) (auto simp: ntrue_Cons)
    with False Cons show ?thesis by (simp add: ntrue_Cons)
  qed
qed simp

lemma deal_ok_lengths:
  "deal_ok m ps qs \<Longrightarrow> ntrue m (length m) = length ps \<and> length m = length ps + length qs"
  by (induction m ps qs rule: deal_ok.induct) (auto simp: ntrue_Cons)

lemma length_deal: "deal_ok m ps qs \<Longrightarrow> length (deal m ps qs) = length m"
  by (induction m ps qs rule: deal_ok.induct) auto

lemma deal_nth:
  "deal_ok m ps qs \<Longrightarrow> i < length m \<Longrightarrow>
   deal m ps qs ! i = (if m ! i then ps ! ntrue m i else qs ! (i - ntrue m i))"
proof (induction m ps qs arbitrary: i rule: deal_ok.induct)
  case (2 m p ps qs)
  then show ?case by (cases i) (auto simp: ntrue_Cons)
next
  case (3 m ps q qs)
  then show ?case
    using ntrue_le [of m "i - 1"] by (cases i) (auto simp: ntrue_Cons Suc_diff_le)
qed auto

lemma scatter_deal:
  assumes ok: "deal_ok m ps qs" and xs: "length xs = length m"
  shows "scatter (scatter xs (nonzero m) ps) (nonzero (map Not m)) qs = deal m ps qs"
proof (rule nth_equalityI)
  show "length (scatter (scatter xs (nonzero m) ps) (nonzero (map Not m)) qs) = length (deal m ps qs)"
    using assms by (simp add: length_deal)
next
  fix i
  assume "i < length (scatter (scatter xs (nonzero m) ps) (nonzero (map Not m)) qs)"
  then have i: "i < length m" using xs by simp
  have lp: "length ps = length (nonzero m)"
    using deal_ok_lengths [OF ok] by (metis length_nonzero)
  have lq: "length qs = length (nonzero (map Not m))"
    using deal_ok_lengths [OF ok] ntrue_map_Not [of "length m" m]
    by (metis add_diff_cancel_left' length_map length_nonzero order_refl)
  show "scatter (scatter xs (nonzero m) ps) (nonzero (map Not m)) qs ! i = deal m ps qs ! i"
    using i xs by (simp add: scatter_mask [of i "map Not m", OF _ _ lq] scatter_mask [of i m, OF _ _ lp]
        deal_nth [OF ok] ntrue_map_Not)
qed

lemma deal_mem:
  "deal_ok m ps qs \<Longrightarrow> i < length m \<Longrightarrow> deal m ps qs ! i \<in> (if m ! i then set ps else set qs)"
proof (induction m ps qs arbitrary: i rule: deal_ok.induct)
  case (2 m p ps qs)
  from "2.IH" [of "i - 1"] "2.prems" show ?case by (cases i) (auto split: if_splits)
next
  case (3 m ps q qs)
  from "3.IH" [of "i - 1"] "3.prems" show ?case by (cases i) (auto split: if_splits)
qed auto

lemma filter_deal:
  "deal_ok m ps qs \<Longrightarrow> \<forall>p \<in> set ps. P p \<Longrightarrow> \<forall>q \<in> set qs. \<not> P q \<Longrightarrow> filter P (deal m ps qs) = ps"
  by (induction m ps qs rule: deal_ok.induct) auto

lemma mset_deal: "deal_ok m ps qs \<Longrightarrow> mset (deal m ps qs) = mset ps + mset qs"
  by (induction m ps qs rule: deal_ok.induct) auto

lemma set_deal: "deal_ok m ps qs \<Longrightarrow> set (deal m ps qs) = set ps \<union> set qs"
  using mset_deal [of m ps qs] by (metis set_mset_mset set_mset_union)

lemma distinct_deal:
  assumes "deal_ok m ps qs"
  shows "distinct (deal m ps qs) \<longleftrightarrow> distinct ps \<and> distinct qs \<and> set ps \<inter> set qs = {}"
proof -
  have "mset (deal m ps qs) = mset (ps @ qs)" using mset_deal [OF assms] by simp
  then have "distinct (deal m ps qs) \<longleftrightarrow> distinct (ps @ qs)"
    by (rule mset_eq_imp_distinct_iff)
  then show ?thesis by simp
qed

section \<open>Segments of a concatenation\<close>

text \<open>A flat tensor that concatenates one segment per request, cut back into its segments.\<close>

fun split_lens :: "nat list \<Rightarrow> 'a list \<Rightarrow> 'a list list" where
  "split_lens [] xs = []"
| "split_lens (l # ls) xs = take l xs # split_lens ls (drop l xs)"

definition seg_start :: "nat list \<Rightarrow> nat \<Rightarrow> nat" where
  "seg_start lens s = sum_list (take s lens)"

lemma seg_start_0 [simp]: "seg_start lens 0 = 0"
  by (simp add: seg_start_def)

lemma seg_start_Suc: "s < length lens \<Longrightarrow> seg_start lens (Suc s) = seg_start lens s + lens ! s"
  by (simp add: seg_start_def take_Suc_conv_app_nth)

lemma seg_start_Cons [simp]: "seg_start (l # lens) (Suc s) = l + seg_start lens s"
  by (simp add: seg_start_def)

lemma seg_start_le: "seg_start lens s \<le> sum_list lens"
  unfolding seg_start_def by (metis append_take_drop_id le_add1 sum_list_append)

lemma length_split_lens [simp]: "length (split_lens lens xs) = length lens"
  by (induction lens xs rule: split_lens.induct) auto

lemma concat_split_lens: "sum_list lens = length xs \<Longrightarrow> concat (split_lens lens xs) = xs"
  by (induction lens xs rule: split_lens.induct) auto

lemma split_lens_nth: "s < length lens \<Longrightarrow> split_lens lens xs ! s = take (lens ! s) (drop (seg_start lens s) xs)"
proof (induction lens xs arbitrary: s rule: split_lens.induct)
  case (2 l ls xs)
  then show ?case by (cases s) (auto simp: add.commute)
qed simp

lemma split_lens_nth_length:
  "sum_list lens = length xs \<Longrightarrow> s < length lens \<Longrightarrow> length (split_lens lens xs ! s) = lens ! s"
  using seg_start_le [of lens "Suc s"] by (simp add: split_lens_nth seg_start_Suc)

lemma split_lens_map: "split_lens lens (map f xs) = map (map f) (split_lens lens xs)"
  by (induction lens xs rule: split_lens.induct) (auto simp: take_map drop_map)

lemma split_lens_concat: "map length xss = lens \<Longrightarrow> split_lens lens (concat xss) = xss"
  by (induction xss arbitrary: lens) auto

lemma map_length_split_lens: "sum_list lens = length xs \<Longrightarrow> map length (split_lens lens xs) = lens"
  by (rule nth_equalityI) (auto simp: split_lens_nth_length)

text \<open>The segment of a position.\<close>

definition seg_of :: "nat list \<Rightarrow> nat list" where
  "seg_of lens = repeat_interleave [0..<length lens] lens"

lemma repeat_interleave_map_Suc:
  "repeat_interleave (map f xs) ns = map f (repeat_interleave xs ns)"
proof -
  have "map (\<lambda>(x, n). replicate n x) (zip (map f xs) ns) = map (map f \<circ> (\<lambda>(x, n). replicate n x)) (zip xs ns)"
    by (auto simp: zip_map1)
  then show ?thesis by (simp add: repeat_interleave_def map_concat)
qed

lemma seg_of_Nil [simp]: "seg_of [] = []"
  by (simp add: seg_of_def repeat_interleave_def)

lemma seg_of_Cons [simp]: "seg_of (l # lens) = replicate l 0 @ map Suc (seg_of lens)"
proof -
  have "[0..<length (l # lens)] = 0 # map Suc [0..<length lens]"
    by (simp add: map_Suc_upt upt_conv_Cons del: upt_Suc)
  then show ?thesis
    by (simp only: seg_of_def repeat_interleave_map_Suc [symmetric]) (simp add: repeat_interleave_def)
qed

lemma length_seg_of [simp]: "length (seg_of lens) = sum_list lens"
  by (induction lens) auto

lemma seg_of_locate:
  assumes "i < sum_list lens"
  shows "seg_of lens ! i < length lens"
    and "seg_start lens (seg_of lens ! i) \<le> i"
    and "i < seg_start lens (seg_of lens ! i) + lens ! (seg_of lens ! i)"
proof -
  have "seg_of lens ! i < length lens \<and> seg_start lens (seg_of lens ! i) \<le> i
    \<and> i < seg_start lens (seg_of lens ! i) + lens ! (seg_of lens ! i)"
    using assms
  proof (induction lens arbitrary: i)
    case (Cons l lens)
    show ?case
    proof (cases "i < l")
      case True
      then show ?thesis by (simp add: nth_append)
    next
      case False
      with Cons.prems have "i - l < sum_list lens" by simp
      with Cons.IH [of "i - l"] False show ?thesis
        by (simp add: nth_append) auto
    qed
  qed simp
  then show "seg_of lens ! i < length lens" "seg_start lens (seg_of lens ! i) \<le> i"
    "i < seg_start lens (seg_of lens ! i) + lens ! (seg_of lens ! i)" by auto
qed

lemma concat_seg_nth:
  assumes "length xss = length lens" and "\<And>s. s < length lens \<Longrightarrow> length (xss ! s) = lens ! s"
    and "i < sum_list lens"
  shows "concat xss ! i = xss ! (seg_of lens ! i) ! (i - seg_start lens (seg_of lens ! i))"
  using assms
proof (induction lens arbitrary: xss i)
  case (Cons l lens)
  then obtain xs xss' where xss: "xss = xs # xss'" by (cases xss) auto
  with Cons.prems(2) [of 0] have l: "length xs = l" by simp
  have rest: "s < length lens \<Longrightarrow> length (xss' ! s) = lens ! s" for s
    using Cons.prems(2) [of "Suc s"] xss by simp
  show ?case
  proof (cases "i < l")
    case True
    with l xss show ?thesis by (simp add: nth_append)
  next
    case False
    then have "i - l < sum_list lens" using Cons.prems(3) by simp
    with Cons.IH [of xss' "i - l"] rest Cons.prems(1) xss l False show ?thesis
      by (simp add: nth_append)
  qed
qed simp

lemma mask_select_append:
  "length xs = length m \<Longrightarrow> mask_select (xs @ ys) (m @ m') = mask_select xs m @ mask_select ys m'"
  by (simp add: mask_select_def)

lemma mask_select_map: "mask_select (map f xs) m = map f (mask_select xs m)"
  by (simp add: mask_select_def zip_map1 filter_map comp_def case_prod_beta)

lemma mask_select_replicate: "length m = l \<Longrightarrow> mask_select (replicate l x) m = replicate (ntrue m l) x"
  by (induction m arbitrary: l) (auto simp: mask_select_def ntrue_Cons)

lemma count_list_map_Suc: "count_list (map Suc xs) s = (case s of 0 \<Rightarrow> 0 | Suc k \<Rightarrow> count_list xs k)"
  by (induction xs) (auto split: nat.splits)

lemma count_list_replicate: "count_list (replicate n x) y = (if x = y then n else 0)"
  by (induction n) auto

lemma count_seg_of:
  assumes "length m = sum_list lens" "s < length lens"
  shows "count_list (mask_select (seg_of lens) m) s
    = ntrue m (seg_start lens (Suc s)) - ntrue m (seg_start lens s)"
  using assms
proof (induction lens arbitrary: m s)
  case (Cons l lens)
  define m1 m2 where "m1 = take l m" and "m2 = drop l m"
  have m: "m = m1 @ m2" and l1: "length m1 = l" and l2: "length m2 = sum_list lens"
    using Cons.prems(1) by (auto simp: m1_def m2_def)
  have sel: "mask_select (seg_of (l # lens)) m = replicate (ntrue m1 l) 0 @ map Suc (mask_select (seg_of lens) m2)"
    using l1 by (simp add: m mask_select_append mask_select_replicate mask_select_map)
  have nt: "ntrue m (l + i) = ntrue m1 l + ntrue m2 i" for i
    using l1 by (auto simp: m ntrue_append)
  show ?case
  proof (cases s)
    case 0
    have "ntrue m l = ntrue m1 l" using nt [of 0] by simp
    with 0 sel show ?thesis
      by (simp add: count_list_append count_list_replicate count_list_map_Suc)
  next
    case (Suc k)
    with Cons.prems have "k < length lens" by simp
    with Cons.IH [OF l2] Suc sel nt show ?thesis
      by (simp add: count_list_append count_list_replicate count_list_map_Suc)
  qed
qed simp

end
