(* ===== verification/Tagger.thy ===== *)
theory Tagger
  imports Prelude "HOL-Library.AList"
begin

text \<open>
  \<open>srt/managers/triaxial_tagger.py\<close>: the tag codes, the tag-to-bitwidth policy and the tagger that
  assigns (temporal, modal, semantic) tags to the tokens of a prompt from the positions of the chat
  template's special tokens.

  The tokenizer and the policy file are arguments.  Arrays are lists; an array assignment
  \<open>x[a:b] = v\<close> is \<open>fill x a b v\<close>.
\<close>

section \<open>Tags\<close>

definition TEMPORAL :: "string list" where
  "TEMPORAL = [''older'', ''m2'', ''m1'', ''current'']"

definition MODAL :: "string list" where
  "MODAL = [''text'', ''image'']"

definition SEMANTIC :: "string list" where
  "SEMANTIC = [''inst'', ''user'', ''assistant'', ''reasoning'', ''tool_call'', ''obs'', ''delim'']"

abbreviation (input) "T_OLDER \<equiv> 0 :: nat"
abbreviation (input) "T_M2 \<equiv> 1 :: nat"
abbreviation (input) "T_M1 \<equiv> 2 :: nat"
abbreviation (input) "T_CUR \<equiv> 3 :: nat"
abbreviation (input) "M_TEXT \<equiv> 0 :: nat"
abbreviation (input) "M_IMAGE \<equiv> 1 :: nat"
abbreviation (input) "S_INST \<equiv> 0 :: nat"
abbreviation (input) "S_USER \<equiv> 1 :: nat"
abbreviation (input) "S_ASSISTANT \<equiv> 2 :: nat"
abbreviation (input) "S_REASONING \<equiv> 3 :: nat"
abbreviation (input) "S_TOOL_CALL \<equiv> 4 :: nat"
abbreviation (input) "S_OBS \<equiv> 5 :: nat"
abbreviation (input) "S_DELIM \<equiv> 6 :: nat"

definition MM_PAD_SHIFT_VALUE :: int where
  "MM_PAD_SHIFT_VALUE = 1000000"

definition tag_id :: "nat \<Rightarrow> nat \<Rightarrow> nat \<Rightarrow> nat" where
  "tag_id t m s = (t * 2 + m) * 7 + s"

definition tag_name :: "nat \<Rightarrow> err + string" where
  "tag_name code =
     (let s = code mod 7; m = code div 7 mod 2; t = code div 14 in
      if t < length TEMPORAL
      then Inr (TEMPORAL ! t @ ''|'' @ MODAL ! m @ ''|'' @ SEMANTIC ! s)
      else Inl IndexError)"

section \<open>Special tokens\<close>

record special_tokens =
  im_start :: int
  im_end :: int
  vision_start :: int
  vision_end :: int
  image_pad :: int
  video_pad :: int
  think_start :: int
  think_end :: int
  tool_call_start :: int
  tool_call_end :: int
  tool_resp_start :: int
  tool_resp_end :: int
  newline :: int
  role_system :: int
  role_user :: int
  role_assistant :: int
  role_tool :: int

definition tok_tid :: "(string \<Rightarrow> int option) \<Rightarrow> string \<Rightarrow> int" where
  "tok_tid convert_tokens_to_ids s = (case convert_tokens_to_ids s of None \<Rightarrow> -1 | Some i \<Rightarrow> i)"

definition tok_word :: "(string \<Rightarrow> int list) \<Rightarrow> string \<Rightarrow> int" where
  "tok_word encode s = (let ids = encode s in if length ids = 1 then ids ! 0 else -1)"

definition from_tokenizer :: "(string \<Rightarrow> int option) \<Rightarrow> (string \<Rightarrow> int list) \<Rightarrow> special_tokens" where
  "from_tokenizer conv enc =
     \<lparr>im_start = tok_tid conv ''<|im_start|>'',
      im_end = tok_tid conv ''<|im_end|>'',
      vision_start = tok_tid conv ''<|vision_start|>'',
      vision_end = tok_tid conv ''<|vision_end|>'',
      image_pad = tok_tid conv ''<|image_pad|>'',
      video_pad = tok_tid conv ''<|video_pad|>'',
      think_start = tok_tid conv ''<think>'',
      think_end = tok_tid conv ''</think>'',
      tool_call_start = tok_tid conv ''<tool_call>'',
      tool_call_end = tok_tid conv ''</tool_call>'',
      tool_resp_start = tok_tid conv ''<tool_response>'',
      tool_resp_end = tok_tid conv ''</tool_response>'',
      newline = tok_word enc [CHR 0x0A],
      role_system = tok_word enc ''system'',
      role_user = tok_word enc ''user'',
      role_assistant = tok_word enc ''assistant'',
      role_tool = tok_word enc ''tool''\<rparr>"

section \<open>Policy\<close>

text \<open>A rule of the JSON file; a missing key is \<open>None\<close>.\<close>

record rule =
  r_temporal :: "string list option"
  r_modal :: "string list option"
  r_semantic :: "string list option"
  r_bits :: "int option"

text \<open>\<open>[AXIS.index(x) for x in xs]\<close>\<close>

fun list_index :: "'a list \<Rightarrow> 'a \<Rightarrow> err + nat" where
  "list_index [] x = Inl ValueError"
| "list_index (y # ys) x = (if y = x then Inr 0 else map_sum id Suc (list_index ys x))"

fun indices_of :: "'a list \<Rightarrow> 'a list \<Rightarrow> err + nat list" where
  "indices_of axis [] = Inr []"
| "indices_of axis (x # xs) =
     (case list_index axis x of Inl e \<Rightarrow> Inl e
      | Inr i \<Rightarrow> map_sum id (\<lambda>is. i # is) (indices_of axis xs))"

definition get_default :: "'a option \<Rightarrow> 'a \<Rightarrow> 'a" where
  "get_default x d = (case x of None \<Rightarrow> d | Some v \<Rightarrow> v)"

definition write_block :: "nat list \<Rightarrow> nat list \<Rightarrow> nat list \<Rightarrow> nat \<Rightarrow> nat list \<Rightarrow> nat list" where
  "write_block ts ms ss b lut =
     fold (\<lambda>t. fold (\<lambda>m. fold (\<lambda>s lut. lut[tag_id t m s := b]) ss) ms) ts lut"

definition apply_rule :: "rule \<Rightarrow> nat list \<Rightarrow> err + nat list" where
  "apply_rule r lut =
     (case indices_of TEMPORAL (get_default (r_temporal r) TEMPORAL) of Inl e \<Rightarrow> Inl e | Inr ts \<Rightarrow>
      case indices_of MODAL (get_default (r_modal r) MODAL) of Inl e \<Rightarrow> Inl e | Inr ms \<Rightarrow>
      case indices_of SEMANTIC (get_default (r_semantic r) SEMANTIC) of Inl e \<Rightarrow> Inl e | Inr ss \<Rightarrow>
      case r_bits r of None \<Rightarrow> Inl KeyError | Some b \<Rightarrow>
      if b \<in> {2, 4} then Inr (write_block ts ms ss (nat b) lut) else Inl AssertionError)"

fun apply_rules :: "rule list \<Rightarrow> nat list \<Rightarrow> err + nat list" where
  "apply_rules [] lut = Inr lut"
| "apply_rules (r # rs) lut = (case apply_rule r lut of Inl e \<Rightarrow> Inl e | Inr lut' \<Rightarrow> apply_rules rs lut')"

text \<open>The constructor; the table has dtype \<open>uint8\<close>.\<close>

definition policy_init :: "int \<Rightarrow> rule list \<Rightarrow> err + nat list" where
  "policy_init default_bits rules =
     (if default_bits < 0 \<or> 255 < default_bits then Inl OverflowError
      else apply_rules (rev rules) (replicate (4 * 2 * 7) (nat default_bits)))"

definition rule_scaffolding :: rule where
  "rule_scaffolding = \<lparr>r_temporal = None, r_modal = None,
     r_semantic = Some [''inst'', ''delim'', ''tool_call''], r_bits = Some 4\<rparr>"

definition policy_default :: "err + nat list" where
  "policy_default = policy_init 2
     [rule_scaffolding,
      \<lparr>r_temporal = Some [''current''], r_modal = Some [''text''], r_semantic = None, r_bits = Some 4\<rparr>]"

definition policy_current_int4 :: "err + nat list" where
  "policy_current_int4 = policy_init 2
     [rule_scaffolding,
      \<lparr>r_temporal = Some [''current''], r_modal = None, r_semantic = None, r_bits = Some 4\<rparr>]"

text \<open>\<open>load_json\<close> opens and parses a policy file: its \<open>default\<close> and \<open>rules\<close> keys.\<close>

definition policy_from_arg ::
  "(string \<Rightarrow> err + int option \<times> rule list option) \<Rightarrow> string option \<Rightarrow> err + nat list" where
  "policy_from_arg load_json arg =
     (case arg of None \<Rightarrow> policy_default
      | Some a \<Rightarrow>
        if a = ''default'' then policy_default
        else if a = ''current_int4'' then policy_current_int4
        else if a = ''all4'' then policy_init 4 []
        else if a = ''all2'' then policy_init 2 []
        else case load_json a of Inl e \<Rightarrow> Inl e
          | Inr (d, rs) \<Rightarrow> policy_init (get_default d 4) (get_default rs []))"

text \<open>The count that \<open>describe\<close> prints.\<close>

definition policy_n2 :: "nat list \<Rightarrow> nat" where
  "policy_n2 lut = length (filter (\<lambda>b. b = 2) lut)"

section \<open>Tagger\<close>

text \<open>\<open>x[a:b] = v\<close>\<close>

definition fill :: "'a list \<Rightarrow> nat \<Rightarrow> nat \<Rightarrow> 'a \<Rightarrow> 'a list" where
  "fill xs a b v = map (\<lambda>(i, x). if a \<le> i \<and> i < b then v else x) (zip [0..<length xs] xs)"

text \<open>\<open>x[a:b][mask[a:b]] = v\<close>\<close>

definition fill_masked :: "'a list \<Rightarrow> bool list \<Rightarrow> nat \<Rightarrow> nat \<Rightarrow> 'a \<Rightarrow> 'a list" where
  "fill_masked xs m a b v = map (\<lambda>(i, x). if a \<le> i \<and> i < b \<and> m ! i then v else x) (zip [0..<length xs] xs)"

definition image_mask :: "special_tokens \<Rightarrow> int list \<Rightarrow> bool list" where
  "image_mask sp ids = map (\<lambda>x. x \<ge> MM_PAD_SHIFT_VALUE \<or> x = image_pad sp \<or> x = video_pad sp) ids"

definition special_pos :: "special_tokens \<Rightarrow> int list \<Rightarrow> nat list" where
  "special_pos sp ids = nonzero (map (\<lambda>x. x \<in> set
     [im_start sp, im_end sp, vision_start sp, vision_end sp, think_start sp, think_end sp,
      tool_call_start sp, tool_call_end sp, tool_resp_start sp, tool_resp_end sp]) ids)"

definition role_of :: "special_tokens \<Rightarrow> int list \<Rightarrow> nat \<Rightarrow> nat" where
  "role_of sp ids st =
     (let role_tok = (if st + 1 < length ids then ids ! (st + 1) else -1) in
      if role_tok = role_system sp then S_INST
      else if role_tok = role_assistant sp then S_ASSISTANT
      else if role_tok = role_tool sp then S_OBS
      else S_USER)"

text \<open>Pass 1: messages as (start, exclusive end, role).\<close>

definition messages :: "special_tokens \<Rightarrow> int list \<Rightarrow> (nat \<times> nat \<times> nat) list" where
  "messages sp ids =
     (let n = length ids;
          pos = special_pos sp ids;
          starts = filter (\<lambda>p. ids ! p = im_start sp) pos
      in map (\<lambda>st.
           let ends = filter (\<lambda>p. p > st \<and> ids ! p = im_end sp) pos;
               en = (if ends \<noteq> [] then ends ! 0 + 1 else n)
           in (st, en, role_of sp ids st)) starts)"

definition mark_open :: "nat \<Rightarrow> nat \<Rightarrow> nat list \<Rightarrow> nat \<Rightarrow> nat \<Rightarrow> nat list \<Rightarrow> nat list" where
  "mark_open st en closes label op semantic =
     (let c = filter (\<lambda>x. x > op) closes;
          c_end = (if c \<noteq> [] then c ! 0 else en - st);
          semantic = fill semantic (st + op) (st + c_end + 1) label;
          semantic = semantic[st + op := S_DELIM]
      in if c \<noteq> [] then semantic[st + c_end := S_DELIM] else semantic)"

definition mark_span :: "int list \<Rightarrow> nat \<Rightarrow> nat \<Rightarrow> int \<Rightarrow> int \<Rightarrow> nat \<Rightarrow> nat list \<Rightarrow> nat list" where
  "mark_span ids st en open_id close_id label semantic =
     (let seg = slice ids st en;
          opens = nonzero (map (\<lambda>x. x = open_id) seg);
          closes = nonzero (map (\<lambda>x. x = close_id) seg)
      in fold (mark_open st en closes label) opens semantic)"

text \<open>Pass 2: the body of the loop over the messages.\<close>

definition mark_message ::
  "special_tokens \<Rightarrow> int list \<Rightarrow> bool list \<Rightarrow> nat \<times> nat \<times> nat \<Rightarrow> nat list \<Rightarrow> nat list" where
  "mark_message sp ids img msg semantic =
     (case msg of (st, en, role) \<Rightarrow>
      let n = length ids;
          semantic = fill semantic st en role;
          semantic = semantic[st := S_DELIM];
          semantic = (if st + 1 < n then semantic[st + 1 := S_DELIM] else semantic);
          semantic = (if st + 2 < n \<and> ids ! (st + 2) = newline sp then semantic[st + 2 := S_DELIM]
                      else semantic);
          semantic = (if en - 1 < n \<and> ids ! (en - 1) = im_end sp then
                        let semantic = semantic[en - 1 := S_DELIM] in
                        if en < n \<and> ids ! en = newline sp then semantic[en := S_DELIM] else semantic
                      else semantic)
      in if role = S_USER then
           let semantic = fill_masked semantic img st en S_OBS in
           mark_span ids st en (tool_resp_start sp) (tool_resp_end sp) S_OBS semantic
         else if role = S_ASSISTANT then
           let semantic = mark_span ids st en (think_start sp) (think_end sp) S_REASONING semantic in
           mark_span ids st en (tool_call_start sp) (tool_call_end sp) S_TOOL_CALL semantic
         else semantic)"

definition semantic_axis :: "special_tokens \<Rightarrow> int list \<Rightarrow> nat list" where
  "semantic_axis sp ids =
     (let semantic = fold (mark_message sp ids (image_mask sp ids)) (messages sp ids)
                       (replicate (length ids) S_USER)
      in map (\<lambda>(x, s). if x = vision_start sp \<or> x = vision_end sp then S_DELIM else s) (zip ids semantic))"

text \<open>Pass 3: turns.\<close>

definition turn_tag :: "nat \<Rightarrow> nat" where
  "turn_tag dist = (if dist = 0 then T_CUR else if dist = 1 then T_M1 else if dist = 2 then T_M2 else T_OLDER)"

definition temporal_axis :: "special_tokens \<Rightarrow> int list \<Rightarrow> nat list" where
  "temporal_axis sp ids =
     (let n = length ids;
          user_starts = map fst (filter (\<lambda>(st, en, role). role = S_USER) (messages sp ids));
          n_turns = length user_starts;
          temporal = replicate n T_OLDER
      in if n_turns = 0 then replicate n T_CUR
         else
           let bounds = user_starts @ [n];
               temporal = fold (\<lambda>k tmp. fill tmp (bounds ! k) (bounds ! (k + 1)) (turn_tag (n_turns - 1 - k)))
                            [0..<n_turns] temporal
           in fill temporal 0 (bounds ! 0) T_OLDER)"

definition modal_axis :: "special_tokens \<Rightarrow> int list \<Rightarrow> nat list" where
  "modal_axis sp ids = map (\<lambda>b. if b then M_IMAGE else M_TEXT) (image_mask sp ids)"

text \<open>The codes are computed in \<open>int16\<close> and stored as \<open>uint8\<close>.\<close>

definition tag :: "special_tokens \<Rightarrow> int list \<Rightarrow> nat list" where
  "tag sp ids =
     map (\<lambda>(t, m, s). ((t * 2 + m) * 7 + s) mod 256)
       (zip (temporal_axis sp ids) (zip (modal_axis sp ids) (semantic_axis sp ids)))"

record tagger =
  tg_sp :: special_tokens
  policy_lut :: "nat list"
  stats_tokens :: "nat list"

definition tagger_init :: "special_tokens \<Rightarrow> nat list \<Rightarrow> tagger" where
  "tagger_init s lut = \<lparr>tg_sp = s, policy_lut = lut, stats_tokens = replicate (4 * 2 * 7) 0\<rparr>"

definition bits :: "tagger \<Rightarrow> int list \<Rightarrow> bool \<Rightarrow> err + nat list \<times> tagger" where
  "bits tg ids collect_stats =
     (let codes = tag (tg_sp tg) ids in
      if collect_stats \<and> (\<exists>c \<in> set codes. c \<ge> length (stats_tokens tg)) then Inl IndexError
      else
        let tg' = (if collect_stats
                   then tg\<lparr>stats_tokens := fold (\<lambda>c st. st[c := st ! c + 1]) codes (stats_tokens tg)\<rparr>
                   else tg)
        in if \<exists>c \<in> set codes. c \<ge> length (policy_lut tg) then Inl IndexError
           else Inr (gather (policy_lut tg) codes, tg'))"

fun summary_loop :: "nat list \<Rightarrow> nat list \<Rightarrow> (string \<times> nat) list \<Rightarrow> err + (string \<times> nat) list" where
  "summary_loop codes [] out = Inr out"
| "summary_loop codes (c # cs) out =
     (case tag_name c of Inl e \<Rightarrow> Inl e
      | Inr nm \<Rightarrow> summary_loop codes cs (AList.update nm (count_list codes c) out))"

definition summary :: "tagger \<Rightarrow> int list \<Rightarrow> err + (string \<times> nat) list" where
  "summary tg ids = (let codes = tag (tg_sp tg) ids in summary_loop codes (unique codes) [])"

end
