(* ===== verification/Tagger_Props.thy ===== *)
theory Tagger_Props
  imports Tagger
begin

text \<open>
  Properties of the tagger and its policy: the look-up table realises ``the first matching rule
  wins''; tag codes never leave the table, so \<open>bits\<close> never fails; the temporal axis counts user
  turns; message starts are always labelled as scaffolding.
\<close>

section \<open>The policy table\<close>

subsection \<open>Specification\<close>

definition rule_matches :: "rule \<Rightarrow> nat \<Rightarrow> nat \<Rightarrow> nat \<Rightarrow> bool" where
  "rule_matches r t m s \<longleftrightarrow>
     TEMPORAL ! t \<in> set (get_default (r_temporal r) TEMPORAL) \<and>
     MODAL ! m \<in> set (get_default (r_modal r) MODAL) \<and>
     SEMANTIC ! s \<in> set (get_default (r_semantic r) SEMANTIC)"

fun first_match :: "nat \<Rightarrow> rule list \<Rightarrow> nat \<Rightarrow> nat \<Rightarrow> nat \<Rightarrow> nat" where
  "first_match d [] t m s = d"
| "first_match d (r # rs) t m s =
     (if rule_matches r t m s then nat (the (r_bits r)) else first_match d rs t m s)"

definition rule_valid :: "rule \<Rightarrow> bool" where
  "rule_valid r \<longleftrightarrow>
     set (get_default (r_temporal r) TEMPORAL) \<subseteq> set TEMPORAL \<and>
     set (get_default (r_modal r) MODAL) \<subseteq> set MODAL \<and>
     set (get_default (r_semantic r) SEMANTIC) \<subseteq> set SEMANTIC \<and>
     (r_bits r = Some 2 \<or> r_bits r = Some 4)"

subsection \<open>Axes\<close>

lemma axes_distinct [simp]: "distinct TEMPORAL" "distinct MODAL" "distinct SEMANTIC"
  by (simp_all add: TEMPORAL_def MODAL_def SEMANTIC_def)

lemma axes_length [simp]: "length TEMPORAL = 4" "length MODAL = 2" "length SEMANTIC = 7"
  by (simp_all add: TEMPORAL_def MODAL_def SEMANTIC_def)

lemma list_index_Inr:
  "distinct xs \<Longrightarrow> list_index xs x = Inr i \<longleftrightarrow> i < length xs \<and> xs ! i = x"
proof (induction xs arbitrary: i)
  case (Cons y ys)
  have "map_sum id Suc r = Inr i \<longleftrightarrow> (\<exists>j. i = Suc j \<and> r = Inr j)" for r :: "err + nat"
    by (cases r) auto
  then show ?case using Cons by (cases i) (auto dest: nth_mem)
qed simp

lemma list_index_Inl: "list_index xs x = Inl e \<longleftrightarrow> x \<notin> set xs \<and> e = ValueError"
proof (induction xs)
  case (Cons y ys)
  then show ?case by (cases "list_index ys x") auto
qed auto

lemma indices_of_ok:
  assumes "distinct axis" "set xs \<subseteq> set axis"
  shows "\<exists>is. indices_of axis xs = Inr is \<and> set is = {i. i < length axis \<and> axis ! i \<in> set xs}"
  using assms(2)
proof (induction xs)
  case (Cons x xs)
  then obtain "is" where IH: "indices_of axis xs = Inr is" "set is = {i. i < length axis \<and> axis ! i \<in> set xs}"
    by auto
  obtain i where i: "list_index axis x = Inr i"
    using Cons.prems by (cases "list_index axis x") (simp_all add: list_index_Inl)
  have "i = j \<longleftrightarrow> j < length axis \<and> axis ! j = x" for j
    using list_index_Inr [OF assms(1), of x j] unfolding i by (simp only: sum.inject)
  then have "insert i (set is) = {j. j < length axis \<and> axis ! j \<in> set (x # xs)}"
    unfolding IH(2) by force
  then show ?case using IH i by simp
qed simp

lemma indices_of_fail: "\<not> set xs \<subseteq> set axis \<Longrightarrow> indices_of axis xs = Inl ValueError"
proof (induction xs)
  case (Cons x xs)
  show ?case
  proof (cases "list_index axis x")
    case (Inl e)
    then have "e = ValueError" by (simp add: list_index_Inl)
    with Inl show ?thesis by simp
  next
    case (Inr i)
    then have "x \<in> set axis" using list_index_Inl [of axis x] by (metis sum.distinct(1))
    with Cons Inr show ?thesis by simp
  qed
qed simp

subsection \<open>Writing a block of the table\<close>

lemma tag_id_decode:
  assumes "m < 2" "s < 7"
  shows "tag_id t m s mod 7 = s" "tag_id t m s div 7 mod 2 = m" "tag_id t m s div 14 = t"
proof -
  show "tag_id t m s mod 7 = s" using assms by (simp only: tag_id_def mod_mult_self3 mod_less)
  have d: "tag_id t m s div 7 = t * 2 + m" using assms by (simp add: tag_id_def div_mult_self3)
  show "tag_id t m s div 7 mod 2 = m" using assms by (simp only: d mod_mult_self3 mod_less)
  have "tag_id t m s div 14 = tag_id t m s div 7 div 2" by (simp add: div_mult2_eq [symmetric])
  also have "\<dots> = t" using assms by (simp add: d div_mult_self3)
  finally show "tag_id t m s div 14 = t" .
qed

lemma tag_id_inj:
  assumes "m < 2" "m' < 2" "s < 7" "s' < 7"
  shows "tag_id t m s = tag_id t' m' s' \<longleftrightarrow> t = t' \<and> m = m' \<and> s = s'"
  using tag_id_decode [OF assms(1,3), of t] tag_id_decode [OF assms(2,4), of t'] by auto

lemma tag_id_less: "t < 4 \<Longrightarrow> m < 2 \<Longrightarrow> s < 7 \<Longrightarrow> tag_id t m s < 56"
  by (simp add: tag_id_def)

lemma fold_overwrite:
  assumes "\<And>x l. length l = n \<Longrightarrow> length (g x l) = n \<and> g x l ! k = (if P x then b else l ! k)"
    and "length lut = n"
  shows "length (fold g xs lut) = n \<and> fold g xs lut ! k = (if \<exists>x \<in> set xs. P x then b else lut ! k)"
  using assms(2)
proof (induction xs arbitrary: lut)
  case (Cons x xs)
  with assms(1) [of lut x] show ?case by auto
qed simp

lemma write_block_overwrite:
  assumes "k < length lut"
  shows "length (write_block ts ms ss b lut) = length lut \<and> write_block ts ms ss b lut ! k
    = (if \<exists>t \<in> set ts. \<exists>m \<in> set ms. \<exists>s \<in> set ss. k = tag_id t m s then b else lut ! k)"
proof -
  let ?set = "\<lambda>t m s lut. lut[tag_id t m s := b]"
  have "length (?set t m s l) = length lut \<and> ?set t m s l ! k = (if k = tag_id t m s then b else l ! k)"
    if "length l = length lut" for t m s l using assms that by (auto simp: nth_list_update)
  note row = fold_overwrite [OF this, where xs = ss]
  note plane = fold_overwrite [OF row, where xs = ms]
  show ?thesis unfolding write_block_def by (rule fold_overwrite [OF plane refl])
qed

lemma write_block_nth:
  assumes "tag_id t m s < length lut" "m < 2" "s < 7" "set ms \<subseteq> {..<2}" "set ss \<subseteq> {..<7}"
  shows "write_block ts ms ss b lut ! tag_id t m s
    = (if t \<in> set ts \<and> m \<in> set ms \<and> s \<in> set ss then b else lut ! tag_id t m s)"
proof -
  have "(\<exists>t' \<in> set ts. \<exists>m' \<in> set ms. \<exists>s' \<in> set ss. tag_id t m s = tag_id t' m' s')
      \<longleftrightarrow> t \<in> set ts \<and> m \<in> set ms \<and> s \<in> set ss"
    (is "?lhs \<longleftrightarrow> ?rhs")
  proof
    assume ?lhs
    then obtain t' m' s' where *: "t' \<in> set ts" "m' \<in> set ms" "s' \<in> set ss" "tag_id t m s = tag_id t' m' s'"
      by blast
    then have "m' < 2" "s' < 7" using assms(4,5) by auto
    with * show ?rhs using tag_id_inj [OF assms(2) _ assms(3), of m' s' t t'] by simp
  qed blast
  then show ?thesis using write_block_overwrite [OF assms(1)] by simp
qed

subsection \<open>Rules\<close>

lemma apply_rule_ok:
  assumes v: "rule_valid r" and len: "length lut = 56"
  shows "\<exists>lut'. apply_rule r lut = Inr lut' \<and> length lut' = 56 \<and>
    (\<forall>t m s. t < 4 \<longrightarrow> m < 2 \<longrightarrow> s < 7 \<longrightarrow> lut' ! tag_id t m s
       = (if rule_matches r t m s then nat (the (r_bits r)) else lut ! tag_id t m s))"
proof -
  obtain ts where ts: "indices_of TEMPORAL (get_default (r_temporal r) TEMPORAL) = Inr ts"
    "set ts = {i. i < 4 \<and> TEMPORAL ! i \<in> set (get_default (r_temporal r) TEMPORAL)}"
    using indices_of_ok [of TEMPORAL "get_default (r_temporal r) TEMPORAL"] v by (auto simp: rule_valid_def)
  obtain ms where ms: "indices_of MODAL (get_default (r_modal r) MODAL) = Inr ms"
    "set ms = {i. i < 2 \<and> MODAL ! i \<in> set (get_default (r_modal r) MODAL)}"
    using indices_of_ok [of MODAL "get_default (r_modal r) MODAL"] v by (auto simp: rule_valid_def)
  obtain ss where ss: "indices_of SEMANTIC (get_default (r_semantic r) SEMANTIC) = Inr ss"
    "set ss = {i. i < 7 \<and> SEMANTIC ! i \<in> set (get_default (r_semantic r) SEMANTIC)}"
    using indices_of_ok [of SEMANTIC "get_default (r_semantic r) SEMANTIC"] v by (auto simp: rule_valid_def)
  obtain b where b: "r_bits r = Some b" "b \<in> {2, 4}" using v by (auto simp: rule_valid_def)
  let ?l = "write_block ts ms ss (nat b) lut"
  have "apply_rule r lut = Inr ?l" using b by (simp add: apply_rule_def ts(1) ms(1) ss(1))
  moreover have "length ?l = 56" using write_block_overwrite [of 0 lut] len by simp
  moreover have "?l ! tag_id t m s
      = (if rule_matches r t m s then nat (the (r_bits r)) else lut ! tag_id t m s)"
    if "t < 4" "m < 2" "s < 7" for t m s
    using that len tag_id_less [OF that] b ts(2) ms(2) ss(2)
    by (subst write_block_nth) (auto simp: rule_matches_def)
  ultimately show ?thesis by blast
qed

lemma indices_of_InrD: "indices_of axis xs = Inr is \<Longrightarrow> set xs \<subseteq> set axis"
  using indices_of_fail by fastforce

lemma apply_rule_fail: "\<not> rule_valid r \<Longrightarrow> \<exists>e. apply_rule r lut = Inl e"
  by (cases "r_bits r")
    (auto simp: rule_valid_def apply_rule_def split: sum.splits dest!: indices_of_InrD)

lemma apply_rules_append:
  "apply_rules (xs @ ys) lut = (case apply_rules xs lut of Inl e \<Rightarrow> Inl e | Inr l \<Rightarrow> apply_rules ys l)"
  by (induction xs arbitrary: lut) (auto split: sum.splits)

lemma apply_rules_rev:
  assumes "\<forall>r \<in> set rules. rule_valid r"
  shows "\<exists>lut. apply_rules (rev rules) (replicate 56 d) = Inr lut \<and> length lut = 56 \<and>
    (\<forall>t m s. t < 4 \<longrightarrow> m < 2 \<longrightarrow> s < 7 \<longrightarrow> lut ! tag_id t m s = first_match d rules t m s)"
  using assms
proof (induction rules)
  case Nil
  then show ?case using tag_id_less by simp
next
  case (Cons r rules)
  then obtain lut where l: "apply_rules (rev rules) (replicate 56 d) = Inr lut" "length lut = 56"
    "\<forall>t m s. t < 4 \<longrightarrow> m < 2 \<longrightarrow> s < 7 \<longrightarrow> lut ! tag_id t m s = first_match d rules t m s" by auto
  obtain lut' where "apply_rule r lut = Inr lut'" "length lut' = 56"
    "\<forall>t m s. t < 4 \<longrightarrow> m < 2 \<longrightarrow> s < 7 \<longrightarrow> lut' ! tag_id t m s
       = (if rule_matches r t m s then nat (the (r_bits r)) else lut ! tag_id t m s)"
    using apply_rule_ok [OF _ l(2), of r] Cons.prems by auto
  then show ?case using l by (simp add: apply_rules_append)
qed

lemma apply_rules_fail: "\<exists>r \<in> set rules. \<not> rule_valid r \<Longrightarrow> \<exists>e. apply_rules rules lut = Inl e"
proof (induction rules arbitrary: lut)
  case (Cons r rules)
  then show ?case using apply_rule_fail [of r lut] by (cases "apply_rule r lut") auto
qed simp

section \<open>The three axes\<close>

lemma length_fill [simp]: "length (fill xs a b v) = length xs"
  by (simp add: fill_def)

lemma fill_nth [simp]: "i < length xs \<Longrightarrow> fill xs a b v ! i = (if a \<le> i \<and> i < b then v else xs ! i)"
  by (simp add: fill_def)

lemma length_fill_masked [simp]: "length (fill_masked xs m a b v) = length xs"
  by (simp add: fill_masked_def)

lemma fill_masked_nth [simp]:
  "i < length xs \<Longrightarrow> fill_masked xs m a b v ! i = (if a \<le> i \<and> i < b \<and> m ! i then v else xs ! i)"
  by (simp add: fill_masked_def)

lemma length_mark_open [simp]: "length (mark_open st en cl lb op sem) = length sem"
  by (simp add: mark_open_def Let_def)

lemma length_fold_mark_open [simp]: "length (fold (mark_open st en cl lb) ops sem) = length sem"
  by (induction ops arbitrary: sem) auto

lemma length_mark_span [simp]: "length (mark_span ids st en op cl lb sem) = length sem"
  by (simp add: mark_span_def Let_def)

lemma length_mark_message [simp]: "length (mark_message sp ids img msg sem) = length sem"
  by (cases msg) (simp add: mark_message_def Let_def)

lemma length_fold_mark_message [simp]: "length (fold (mark_message sp ids img) ms sem) = length sem"
  by (induction ms arbitrary: sem) auto

lemma length_semantic_axis [simp]: "length (semantic_axis sp ids) = length ids"
  by (simp add: semantic_axis_def Let_def)

lemma length_modal_axis [simp]: "length (modal_axis sp ids) = length ids"
  by (simp add: modal_axis_def image_mask_def)

subsection \<open>Label ranges\<close>

definition labels :: "nat list \<Rightarrow> bool" where
  "labels sem \<longleftrightarrow> (\<forall>i < length sem. sem ! i < 7)"

lemma labels_update: "labels sem \<Longrightarrow> v < 7 \<Longrightarrow> labels (sem[i := v])"
  by (cases "i < length sem") (auto simp: labels_def nth_list_update)

lemma labels_fill: "labels sem \<Longrightarrow> v < 7 \<Longrightarrow> labels (fill sem a b v)"
  by (auto simp: labels_def)

lemma labels_fill_masked: "labels sem \<Longrightarrow> v < 7 \<Longrightarrow> labels (fill_masked sem m a b v)"
  by (auto simp: labels_def)

lemma labels_mark_open: "labels sem \<Longrightarrow> lb < 7 \<Longrightarrow> labels (mark_open st en cl lb op sem)"
  by (simp add: mark_open_def Let_def labels_update labels_fill)

lemma labels_fold_mark_open: "labels sem \<Longrightarrow> lb < 7 \<Longrightarrow> labels (fold (mark_open st en cl lb) ops sem)"
  by (induction ops arbitrary: sem) (simp_all add: labels_mark_open)

lemma labels_mark_span: "labels sem \<Longrightarrow> lb < 7 \<Longrightarrow> labels (mark_span ids st en op cl lb sem)"
  by (simp add: mark_span_def Let_def labels_fold_mark_open)

lemma labels_mark_message:
  "labels sem \<Longrightarrow> snd (snd msg) < 7 \<Longrightarrow> labels (mark_message sp ids img msg sem)"
  by (cases msg)
    (simp add: mark_message_def Let_def labels_update labels_fill labels_fill_masked labels_mark_span)

lemma role_of_less: "role_of sp ids st < 7"
  by (simp add: role_of_def Let_def)

lemma labels_fold_mark_message:
  "labels sem \<Longrightarrow> \<forall>msg \<in> set ms. snd (snd msg) < 7 \<Longrightarrow> labels (fold (mark_message sp ids img) ms sem)"
  by (induction ms arbitrary: sem) (simp_all add: labels_mark_message)

lemma messages_role: "msg \<in> set (messages sp ids) \<Longrightarrow> snd (snd msg) < 7"
  by (auto simp: messages_def Let_def role_of_less)

lemma semantic_axis_less: "i < length ids \<Longrightarrow> semantic_axis sp ids ! i < 7"
proof -
  have "labels (fold (mark_message sp ids (image_mask sp ids)) (messages sp ids) (replicate (length ids) 1))"
    by (rule labels_fold_mark_message) (auto simp: labels_def dest: messages_role)
  then show "i < length ids \<Longrightarrow> semantic_axis sp ids ! i < 7"
    by (simp add: semantic_axis_def Let_def labels_def)
qed

lemma modal_axis_less: "i < length ids \<Longrightarrow> modal_axis sp ids ! i < 2"
  by (simp add: modal_axis_def image_mask_def)

subsection \<open>Message starts\<close>

lemma starts_eq:
  "filter (\<lambda>p. ids ! p = im_start sp) (special_pos sp ids) = filter (\<lambda>p. ids ! p = im_start sp) [0..<length ids]"
proof -
  have "filter (\<lambda>p. ids ! p = im_start sp) (special_pos sp ids)
      = filter (\<lambda>p. ids ! p = im_start sp \<and> p < length ids) [0..<length ids]"
    by (auto simp: special_pos_def nonzero_def intro!: filter_cong)
  also have "\<dots> = filter (\<lambda>p. ids ! p = im_start sp) [0..<length ids]" by (rule filter_cong) auto
  finally show ?thesis .
qed

lemma map_fst_messages: "map fst (messages sp ids) = filter (\<lambda>p. ids ! p = im_start sp) [0..<length ids]"
  by (simp add: messages_def Let_def comp_def starts_eq)

text \<open>Where a user turn starts.\<close>

definition user_start :: "special_tokens \<Rightarrow> int list \<Rightarrow> nat \<Rightarrow> bool" where
  "user_start sp ids p \<longleftrightarrow> ids ! p = im_start sp \<and> role_of sp ids p = 1"

lemma user_starts_eq:
  "map fst (filter (\<lambda>(st, en, role). role = 1) (messages sp ids)) = filter (user_start sp ids) [0..<length ids]"
proof -
  have "map fst (filter (\<lambda>(st, en, role). role = 1) (map (\<lambda>st. (st, f st, g st)) xs)) = filter (\<lambda>st. g st = 1) xs"
    for f :: "nat \<Rightarrow> nat" and g :: "nat \<Rightarrow> nat" and xs
    by (induction xs) auto
  then show ?thesis
    by (simp add: messages_def Let_def starts_eq user_start_def [abs_def] conj_commute)
qed

lemma sorted_count_le:
  "sorted_wrt (<) us \<Longrightarrow> k < length us \<Longrightarrow> us ! k \<le> (i::nat) \<longleftrightarrow> k < length (filter (\<lambda>u. u \<le> i) us)"
proof (induction us arbitrary: k)
  case (Cons u us)
  show ?case
  proof (cases "u \<le> i")
    case True
    with Cons show ?thesis by (cases k) auto
  next
    case False
    then have "\<forall>v \<in> set (u # us). \<not> v \<le> i" using Cons.prems(1) by auto
    moreover from this have "filter (\<lambda>u. u \<le> i) (u # us) = []" by (simp only: filter_empty_conv)
    ultimately show ?thesis using nth_mem [OF Cons.prems(2)] by (metis length_0_conv not_less_zero)
  qed
qed simp

lemma fold_turns:
  fixes us :: "nat list"
  assumes us: "sorted_wrt (<) us" and n: "i < n" "length tmp = n"
    and j: "j \<le> length us" and init: "tmp ! i = d"
  defines "c \<equiv> length (filter (\<lambda>u. u \<le> i) us)"
  shows "fold (\<lambda>k tmp. fill tmp ((us @ [n]) ! k) ((us @ [n]) ! (k + 1)) (f k)) [0..<j] tmp ! i
    = (if 1 \<le> c \<and> c \<le> j then f (c - 1) else d)"
  using j
proof (induction j)
  case 0
  then show ?case using init by auto
next
  case (Suc j)
  let ?F = "\<lambda>j. fold (\<lambda>k tmp. fill tmp ((us @ [n]) ! k) ((us @ [n]) ! (k + 1)) (f k)) [0..<j] tmp"
  have len: "length (?F j) = n" for j using n(2) by (induction j) auto
  have "(us @ [n]) ! j \<le> i \<longleftrightarrow> j < c"
    using sorted_count_le [OF us, of j i] Suc.prems by (simp add: nth_append c_def)
  moreover have "i < (us @ [n]) ! (j + 1) \<longleftrightarrow> c \<le> j + 1"
  proof (cases "Suc j < length us")
    case True
    then show ?thesis using sorted_count_le [OF us True, of i] by (simp add: nth_append c_def not_le [symmetric])
  next
    case False
    moreover have "c \<le> length us" by (simp add: c_def)
    ultimately show ?thesis using n(1) Suc.prems by (simp add: nth_append)
  qed
  ultimately have "?F (Suc j) ! i = (if j + 1 = c then f j else ?F j ! i)"
    using n(1) len [of j] by simp
  also have "?F j ! i = (if 1 \<le> c \<and> c \<le> j then f (c - 1) else d)" using Suc by simp
  finally show ?case by auto
qed

lemma length_fold_fill [simp]:
  "length (fold (\<lambda>k tmp. fill tmp (b k) (c k) (f k)) ks tmp) = length tmp"
  by (induction ks arbitrary: tmp) auto

lemma temporal_axis_eq:
  fixes sp :: special_tokens and ids :: "int list"
  defines "us \<equiv> filter (user_start sp ids) [0..<length ids]"
  shows "temporal_axis sp ids =
    (if us = [] then replicate (length ids) 3
     else fill (fold (\<lambda>k tmp. fill tmp ((us @ [length ids]) ! k) ((us @ [length ids]) ! (k + 1))
         (turn_tag (length us - 1 - k))) [0..<length us] (replicate (length ids) 0))
       0 ((us @ [length ids]) ! 0) 0)"
  unfolding temporal_axis_def Let_def user_starts_eq us_def [symmetric] by simp

lemma length_temporal_axis [simp]: "length (temporal_axis sp ids) = length ids"
  by (simp add: temporal_axis_eq)

text \<open>The temporal tag of a position, by the user turns before and after it.\<close>

lemma temporal_axis_nth:
  fixes sp :: special_tokens and ids :: "int list"
  assumes i: "i < length ids"
  defines "us \<equiv> filter (user_start sp ids) [0..<length ids]"
  shows "temporal_axis sp ids ! i =
    (if us = [] then 3
     else if filter (\<lambda>u. u \<le> i) us = [] then 0
     else turn_tag (length (filter (\<lambda>u. i < u) us)))"
proof (cases "us = []")
  case True
  then show ?thesis using i by (simp add: temporal_axis_eq us_def [symmetric])
next
  case False
  let ?c = "length (filter (\<lambda>u. u \<le> i) us)"
  have sorted: "sorted_wrt (<) us" by (simp add: us_def sorted_wrt_filter)
  have hd: "(us @ [length ids]) ! 0 \<le> i \<longleftrightarrow> 0 < ?c"
    using sorted_count_le [OF sorted, of 0 i] False by (simp add: nth_append)
  have "?c + length (filter (\<lambda>u. i < u) us) = length us"
    using sum_length_filter_compl [of "\<lambda>u. u \<le> i" us] by (simp add: not_le)
  then have later: "length us - 1 - (?c - 1) = length (filter (\<lambda>u. i < u) us)" if "0 < ?c"
    using that by linarith
  have le: "?c \<le> length us" by simp
  let ?t = "fold (\<lambda>k tmp. fill tmp ((us @ [length ids]) ! k) ((us @ [length ids]) ! (k + 1))
      (turn_tag (length us - 1 - k))) [0..<length us] (replicate (length ids) 0)"
  have "temporal_axis sp ids ! i = (if i < (us @ [length ids]) ! 0 then 0 else ?t ! i)"
    using False i by (simp add: temporal_axis_eq us_def [symmetric])
  also have "?t ! i = (if 1 \<le> ?c \<and> ?c \<le> length us then turn_tag (length us - 1 - (?c - 1)) else 0)"
    by (rule fold_turns [OF sorted i]) (use i in simp_all)
  finally have t: "temporal_axis sp ids ! i = (if i < (us @ [length ids]) ! 0 then 0
      else if 1 \<le> ?c \<and> ?c \<le> length us then turn_tag (length us - 1 - (?c - 1)) else 0)" .
  show ?thesis
  proof (cases "0 < ?c")
    case True
    with t hd later le False show ?thesis by (simp add: not_less Suc_le_eq)
  next
    case none: False
    with t hd False show ?thesis by (simp add: not_le)
  qed
qed

lemma temporal_axis_less: "i < length ids \<Longrightarrow> temporal_axis sp ids ! i < 4"
  by (simp add: temporal_axis_nth turn_tag_def)

subsection \<open>Message starts stay scaffolding\<close>

text \<open>The template's own token ids do not collide.\<close>

definition im_start_special :: "special_tokens \<Rightarrow> bool" where
  "im_start_special sp \<longleftrightarrow>
     im_start sp < MM_PAD_SHIFT_VALUE \<and> im_start sp \<noteq> image_pad sp \<and> im_start sp \<noteq> video_pad sp \<and>
     im_start sp \<notin> {think_start sp, tool_call_start sp, tool_resp_start sp}"

lemma filter_first: "filter P xs \<noteq> [] \<Longrightarrow> P (filter P xs ! 0)"
  using nth_mem [of 0 "filter P xs"] by simp

lemma mark_open_below:
  "i < length sem \<Longrightarrow> i < st + op \<Longrightarrow> mark_open st en cl lb op sem ! i = sem ! i"
proof -
  assume i: "i < length sem" "i < st + op"
  have "filter (\<lambda>x. x > op) cl \<noteq> [] \<Longrightarrow> op < filter (\<lambda>x. x > op) cl ! 0" by (rule filter_first)
  then show ?thesis using i by (auto simp: mark_open_def Let_def)
qed

lemma fold_mark_open_below:
  "i < length sem \<Longrightarrow> \<forall>op \<in> set ops. i < st + op \<Longrightarrow> fold (mark_open st en cl lb) ops sem ! i = sem ! i"
  by (induction ops arbitrary: sem) (auto simp: mark_open_below)

lemma mark_span_below:
  assumes "i < length sem" and "i < st \<or> i = st \<and> ids ! st \<noteq> open_id" and "st < length ids"
  shows "mark_span ids st en open_id close_id lb sem ! i = sem ! i"
proof -
  have "i < st + op" if "op \<in> set (nonzero (map (\<lambda>x. x = open_id) (slice ids st en)))" for op
  proof (rule ccontr)
    assume n: "\<not> i < st + op"
    with assms(2) have "op = 0" "i = st" "ids ! st \<noteq> open_id" by auto
    with that assms(3) show False by (auto simp: slice_def)
  qed
  then show ?thesis by (simp add: mark_span_def Let_def fold_mark_open_below [OF assms(1)])
qed

lemma mark_message_at:
  assumes sp: "im_start_special sp" and st: "st < en" "st < length ids" "ids ! st = im_start sp"
    and sem: "length sem = length ids"
  shows "mark_message sp ids (image_mask sp ids) (st, en, role) sem ! st = 6"
    and "i < st \<Longrightarrow> mark_message sp ids (image_mask sp ids) (st, en, role) sem ! i = sem ! i"
proof -
  have img: "\<not> image_mask sp ids ! st" using sp st by (auto simp: im_start_special_def image_mask_def)
  have op: "ids ! st \<noteq> think_start sp" "ids ! st \<noteq> tool_call_start sp" "ids ! st \<noteq> tool_resp_start sp"
    using sp st by (auto simp: im_start_special_def)
  have up: "xs[j := 6] ! st = 6" if "xs ! st = 6" "st < length xs" for xs :: "nat list" and j
    using that by (cases "j = st") auto
  show "mark_message sp ids (image_mask sp ids) (st, en, role) sem ! st = 6"
    using st(2) sem img op up by (simp add: mark_message_def Let_def mark_span_below)
  show "mark_message sp ids (image_mask sp ids) (st, en, role) sem ! i = sem ! i" if "i < st"
    using that st sem by (simp add: mark_message_def Let_def mark_span_below)
qed

lemma fold_mark_message_at:
  assumes sp: "im_start_special sp" and "sorted_wrt (<) (map fst ms)" and "length sem = length ids"
    and "\<forall>(st, en, role) \<in> set ms. st < en \<and> st < length ids \<and> ids ! st = im_start sp"
    and "m \<in> set ms"
  shows "fold (mark_message sp ids (image_mask sp ids)) ms sem ! fst m = 6"
  using assms(2-5)
proof (induction ms rule: rev_induct)
  case (snoc x xs)
  obtain st en role where x: "x = (st, en, role)" by (cases x)
  have st: "st < en" "st < length ids" "ids ! st = im_start sp" using snoc.prems(3) x by auto
  note at = mark_message_at [OF sp st, of "fold (mark_message sp ids (image_mask sp ids)) xs sem" role]
  show ?case
  proof (cases "m = x")
    case True
    then show ?thesis using at(1) snoc.prems(2) by (simp add: x)
  next
    case False
    then have "m \<in> set xs" using snoc.prems(4) by simp
    moreover from this have "fst m < st" using snoc.prems(1) by (auto simp: sorted_wrt_append x)
    ultimately show ?thesis
      using mark_message_at(2) [OF sp st, of _ "fst m"] snoc by (simp add: x sorted_wrt_append)
  qed
qed simp

lemma messages_ok:
  "\<forall>(st, en, role) \<in> set (messages sp ids). st < en \<and> st < length ids \<and> ids ! st = im_start sp"
proof -
  have "st < Suc (filter (\<lambda>p. p > st \<and> ids ! p = im_end sp) pos ! 0)"
    if "filter (\<lambda>p. p > st \<and> ids ! p = im_end sp) pos \<noteq> []" for st pos
    using filter_first [OF that] by simp
  then show ?thesis by (auto simp: messages_def Let_def starts_eq)
qed

lemma im_start_semantic:
  assumes "im_start_special sp" "i < length ids" "ids ! i = im_start sp"
  shows "semantic_axis sp ids ! i = 6"
proof -
  let ?f = "fold (mark_message sp ids (image_mask sp ids)) (messages sp ids) (replicate (length ids) 1)"
  have "i \<in> set (map fst (messages sp ids))" using assms(2,3) by (simp add: map_fst_messages)
  then have "i \<in> fst ` set (messages sp ids)" by simp
  moreover have "sorted_wrt (<) (map fst (messages sp ids))"
    by (simp add: map_fst_messages sorted_wrt_filter)
  ultimately have "?f ! i = 6" using fold_mark_message_at [OF assms(1) _ _ messages_ok] by force
  then show ?thesis using assms(2) by (simp add: semantic_axis_def Let_def)
qed

section \<open>Codes and bits\<close>

lemma length_tag [simp]: "length (tag sp ids) = length ids"
  by (simp add: tag_def)

lemma tag_nth:
  assumes "i < length ids"
  shows "tag sp ids ! i = tag_id (temporal_axis sp ids ! i) (modal_axis sp ids ! i) (semantic_axis sp ids ! i)"
    and "tag sp ids ! i < 56"
proof -
  have "tag_id (temporal_axis sp ids ! i) (modal_axis sp ids ! i) (semantic_axis sp ids ! i) < 56"
    using assms by (intro tag_id_less temporal_axis_less modal_axis_less semantic_axis_less)
  then show "tag sp ids ! i = tag_id (temporal_axis sp ids ! i) (modal_axis sp ids ! i) (semantic_axis sp ids ! i)"
    "tag sp ids ! i < 56"
    using assms by (simp_all add: tag_def tag_id_def)
qed

lemma tag_less: "c \<in> set (tag sp ids) \<Longrightarrow> c < 56"
  using tag_nth(2) by (auto simp: in_set_conv_nth)

lemma count_update: "\<forall>c \<in> set cs. c < length st \<Longrightarrow>
    fold (\<lambda>c st. st[c := st ! c + 1]) cs st ! k = st ! k + count_list cs (k::nat)"
proof (induction cs arbitrary: st)
  case (Cons c cs)
  then show ?case by (cases "c = k") auto
qed simp

lemma bits_eq:
  assumes "length (policy_lut tg) = 56" "length (stats_tokens tg) = 56"
  shows "bits tg ids coll = Inr (map ((!) (policy_lut tg)) (tag (tg_sp tg) ids),
    if coll then tg\<lparr>stats_tokens := fold (\<lambda>c st. st[c := st ! c + 1]) (tag (tg_sp tg) ids) (stats_tokens tg)\<rparr>
    else tg)"
proof -
  have "\<not> (\<exists>c \<in> set (tag (tg_sp tg) ids). 56 \<le> c)" using tag_less by (auto simp: not_le)
  then show ?thesis by (simp add: bits_def Let_def assms gather_def)
qed

section \<open>Properties\<close>

text \<open>
  C9: the table a \<open>TriaxialPolicy\<close> builds by overwriting in reverse rule order realises ``the first
  matching rule wins, missing axes match everything'': construction succeeds exactly when the
  default fits in a byte and every rule names known axis values and a width of 2 or 4, and then the
  entry of every tag combination is the width of the first rule that matches it, or the default.
\<close>

theorem policy_first_match:
  "if 0 \<le> d \<and> d \<le> 255 \<and> (\<forall>r \<in> set rules. rule_valid r)
   then \<exists>lut. policy_init d rules = Inr lut \<and> length lut = 56
     \<and> (\<forall>t m s. t < 4 \<longrightarrow> m < 2 \<longrightarrow> s < 7 \<longrightarrow> lut ! tag_id t m s = first_match (nat d) rules t m s)
   else \<exists>e. policy_init d rules = Inl e"
proof (cases "0 \<le> d \<and> d \<le> 255 \<and> (\<forall>r \<in> set rules. rule_valid r)")
  case True
  then show ?thesis using apply_rules_rev [of rules "nat d"] by (simp add: policy_init_def)
next
  case no: False
  have "\<exists>e. policy_init d rules = Inl e"
  proof (cases "d < 0 \<or> 255 < d")
    case True
    then show ?thesis by (simp add: policy_init_def)
  next
    case False
    with no have "\<exists>r \<in> set (rev rules). \<not> rule_valid r" by auto
    from apply_rules_fail [OF this] False show ?thesis by (simp add: policy_init_def)
  qed
  then show ?thesis unfolding if_not_P [OF no] .
qed

theorem policy_first_match_witness:
  "\<exists>lut. policy_init 2 [rule_scaffolding] = Inr lut \<and> lut ! tag_id 0 1 6 = 4"
proof -
  have v: "0 \<le> (2::int) \<and> (2::int) \<le> 255 \<and> (\<forall>r \<in> set [rule_scaffolding]. rule_valid r)" by code_simp
  have "first_match (nat 2) [rule_scaffolding] 0 1 6 = 4" by code_simp
  with policy_first_match [of 2 "[rule_scaffolding]", unfolded if_P [OF v]] show ?thesis by force
qed

text \<open>
  C10: \<open>TriaxialTagger.bits\<close> never fails on a table of the policy's size: every tag code stays below 56
  (so neither the \<open>uint8\<close> cast nor the look-up loses anything), one width per token is returned, and
  collecting statistics adds to each counter the number of tokens with that code.
\<close>

theorem bits_total:
  assumes "length (policy_lut tg) = 56" and "length (stats_tokens tg) = 56"
  shows "\<exists>bs tg'. bits tg ids coll = Inr (bs, tg') \<and> length bs = length ids
    \<and> (\<forall>i < length ids. bs ! i = policy_lut tg ! tag_id (temporal_axis (tg_sp tg) ids ! i)
          (modal_axis (tg_sp tg) ids ! i) (semantic_axis (tg_sp tg) ids ! i))
    \<and> (\<forall>c < 56. stats_tokens tg' ! c
          = stats_tokens tg ! c + (if coll then count_list (tag (tg_sp tg) ids) c else 0))"
proof -
  have "\<forall>c \<in> set (tag (tg_sp tg) ids). c < length (stats_tokens tg)" using tag_less assms(2) by auto
  from count_update [OF this] show ?thesis by (simp add: bits_eq [OF assms] tag_nth(1))
qed

theorem bits_total_witness:
  "\<exists>bs tg'. bits (tagger_init (from_tokenizer (\<lambda>_. None) (\<lambda>_. [])) (replicate 56 2)) [5, 6] True = Inr (bs, tg')
     \<and> length bs = 2"
proof -
  let ?tg = "tagger_init (from_tokenizer (\<lambda>_. None) (\<lambda>_. [])) (replicate 56 2)"
  have "length (policy_lut ?tg) = 56" "length (stats_tokens ?tg) = 56" by (simp_all add: tagger_init_def)
  from bits_total [OF this, of "[5, 6]" True]
  obtain bs tg' where "bits ?tg [5, 6] True = Inr (bs, tg')" "length bs = length [5::int, 6]" by blast
  then show ?thesis by (intro exI [of _ bs] exI [of _ tg']) simp
qed

text \<open>
  C11: the temporal axis.  A token is \<open>current\<close>, \<open>m1\<close> or \<open>m2\<close> when zero, one or two user turns start
  after it, and \<open>older\<close> otherwise; what precedes the first user turn is \<open>older\<close>; without any user
  turn everything is \<open>current\<close>.  Hence tags never get younger towards the front of the prompt.
\<close>

theorem temporal_by_turns:
  assumes "i < length ids"
  shows "temporal_axis sp ids ! i =
    (if \<not> (\<exists>p < length ids. user_start sp ids p) then 3
     else if \<not> (\<exists>p \<le> i. user_start sp ids p) then 0
     else turn_tag (card {p. i < p \<and> p < length ids \<and> user_start sp ids p}))"
proof -
  let ?us = "filter (user_start sp ids) [0..<length ids]"
  have none: "?us = [] \<longleftrightarrow> \<not> (\<exists>p < length ids. user_start sp ids p)" by (auto simp: filter_empty_conv)
  have before: "filter (\<lambda>u. u \<le> i) ?us = [] \<longleftrightarrow> \<not> (\<exists>p \<le> i. user_start sp ids p)"
    using assms by (auto simp: filter_empty_conv)
  have "length (filter (\<lambda>u. i < u) ?us) = card (set (filter (\<lambda>u. i < u) ?us))"
    by (rule distinct_card [symmetric]) simp
  also have "set (filter (\<lambda>u. i < u) ?us) = {p. i < p \<and> p < length ids \<and> user_start sp ids p}" by auto
  finally have later: "length (filter (\<lambda>u. i < u) ?us)
      = card {p. i < p \<and> p < length ids \<and> user_start sp ids p}" .
  show ?thesis unfolding temporal_axis_nth [OF assms] none before later by (rule refl)
qed

theorem temporal_by_turns_witness:
  "temporal_axis (from_tokenizer (\<lambda>s. if s = ''<|im_start|>'' then Some 1 else None) (\<lambda>_. [])) [1, 7, 1, 8] ! 1 = 2"
proof -
  let ?sp = "from_tokenizer (\<lambda>s. if s = ''<|im_start|>'' then Some 1 else None) (\<lambda>_. [])"
  have u: "user_start ?sp [1, 7, 1, 8] 0" "\<not> user_start ?sp [1, 7, 1, 8] 1" "user_start ?sp [1, 7, 1, 8] 2"
    "\<not> user_start ?sp [1, 7, 1, 8] 3" by code_simp+
  have "{p. 1 < p \<and> p < length [1::int, 7, 1, 8] \<and> user_start ?sp [1, 7, 1, 8] p} = {2}"
  proof (intro set_eqI iffI)
    fix p assume "p \<in> {p. 1 < p \<and> p < length [1::int, 7, 1, 8] \<and> user_start ?sp [1, 7, 1, 8] p}"
    then have p: "p = 2 \<or> p = 3" "user_start ?sp [1, 7, 1, 8] p" by auto
    with u(4) show "p \<in> {2}" by blast
  qed (use u(3) in simp)
  moreover have "\<exists>p < length [1::int, 7, 1, 8]. user_start ?sp [1, 7, 1, 8] p" "\<exists>p \<le> 1. user_start ?sp [1, 7, 1, 8] p"
    using u(1) by (auto intro: exI [of _ 0])
  ultimately show ?thesis
    using temporal_by_turns [of 1 "[1, 7, 1, 8]" ?sp] by (simp only: simp_thms if_True if_False) (simp add: turn_tag_def)
qed



text \<open>
  C13: with template ids that do not collide, every \<open><|im_start|>\<close> of a prompt is labelled as
  scaffolding, whatever messages, spans and images follow, and is therefore stored at INT4 under the
  default policy.
\<close>

theorem im_start_is_int4:
  assumes "im_start_special sp" and "i < length ids" and "ids ! i = im_start sp"
    and "policy_default = Inr lut"
  shows "semantic_axis sp ids ! i = 6
    \<and> (\<exists>bs tg'. bits (tagger_init sp lut) ids coll = Inr (bs, tg') \<and> bs ! i = 4)"
proof
  show sem: "semantic_axis sp ids ! i = 6" by (rule im_start_semantic [OF assms(1-3)])
  have lut: "lut = projr policy_default" using assms(4) by (metis sum.sel(2))
  have "\<forall>t \<in> set [0..<4]. \<forall>m \<in> set [0..<2]. projr policy_default ! tag_id t m 6 = 4" by code_simp
  then have "lut ! tag_id (temporal_axis sp ids ! i) (modal_axis sp ids ! i) 6 = 4"
    unfolding lut using temporal_axis_less [OF assms(2)] modal_axis_less [OF assms(2)] by simp
  moreover have "length lut = 56" unfolding lut by code_simp
  ultimately show "\<exists>bs tg'. bits (tagger_init sp lut) ids coll = Inr (bs, tg') \<and> bs ! i = 4"
    using assms(2) sem by (simp add: bits_eq tagger_init_def tag_nth(1))
qed

text \<open>A sample vocabulary for the examples.\<close>

definition sample_sp :: special_tokens where
  "sample_sp = \<lparr>im_start = 1, im_end = 2, vision_start = 3, vision_end = 4, image_pad = 5, video_pad = 6,
     think_start = 7, think_end = 8, tool_call_start = 9, tool_call_end = 10, tool_resp_start = 11,
     tool_resp_end = 12, newline = 13, role_system = 14, role_user = 15, role_assistant = 16, role_tool = 17\<rparr>"

theorem im_start_is_int4_witness:
  "semantic_axis sample_sp [1, 15, 13, 99, 2, 13, 1, 16] ! 6 = 6"
proof -
  have "im_start_special sample_sp" by code_simp
  moreover have "policy_default = Inr (projr policy_default)" by code_simp
  moreover have "[1, 15, 13, 99, 2, 13, 1, 16] ! 6 = im_start sample_sp" by code_simp
  ultimately show ?thesis using im_start_is_int4 [of sample_sp 6 "[1, 15, 13, 99, 2, 13, 1, 16]"] by simp
qed



section \<open>Summary\<close>

lemma tag_names_distinct: "distinct (map tag_name [0..<56])"
  by code_simp

lemma tag_name_inj:
  assumes "c < 56" "c' < 56" "tag_name c = tag_name c'"
  shows "c = c'"
proof -
  have "map tag_name [0..<56] ! c = map tag_name [0..<56] ! c'" using assms by simp
  then show ?thesis using nth_eq_iff_index_eq [OF tag_names_distinct] assms by simp
qed

lemma tag_name_ok: "c < 56 \<Longrightarrow> \<exists>nm. tag_name c = Inr nm"
  by (auto simp: tag_name_def Let_def less_mult_imp_div_less)

lemma summary_loop_fold:
  "\<forall>c \<in> set cs. c < 56 \<Longrightarrow> summary_loop codes cs out
   = Inr (fold (\<lambda>c. AList.update (projr (tag_name c)) (count_list codes c)) cs out)"
proof (induction cs arbitrary: out)
  case (Cons c cs)
  then obtain nm where "tag_name c = Inr nm" using tag_name_ok [of c] by auto
  with Cons show ?case by simp
qed simp

lemma filter_eq_single: "distinct xs \<Longrightarrow> c \<in> set xs \<Longrightarrow> filter (\<lambda>x. x = c) xs = [c]"
proof (induction xs)
  case (Cons x xs)
  then show ?case by (cases "x = c") (auto simp: filter_empty_conv)
qed simp

lemma map_of_fold_update:
  "map_of (fold (\<lambda>c. AList.update (f c) (g c)) cs out) k
   = (if k \<in> f ` set cs then Some (g (last (filter (\<lambda>c. f c = k) cs))) else map_of out k)"
  by (induction cs arbitrary: out) (auto simp: update_conv' filter_empty_conv)

lemma distinct_fold_update:
  "distinct (map fst out) \<Longrightarrow> distinct (map fst (fold (\<lambda>c. AList.update (f c) (g c)) cs out))"
  by (induction cs arbitrary: out) (auto simp: distinct_update)

text \<open>
  C15: \<open>summary\<close> never fails; its dictionary has one entry per tag that occurs in the prompt, under a
  name no other tag has, and the entry is the number of tokens with that tag.
\<close>

theorem summary_counts:
  "\<exists>out. summary tg ids = Inr out \<and> distinct (map fst out)
    \<and> (\<forall>c \<in> set (tag (tg_sp tg) ids). map_of out (projr (tag_name c)) = Some (count_list (tag (tg_sp tg) ids) c))
    \<and> fst ` set out = (projr \<circ> tag_name) ` set (tag (tg_sp tg) ids)"
proof -
  let ?codes = "tag (tg_sp tg) ids"
  let ?out = "fold (\<lambda>c. AList.update (projr (tag_name c)) (count_list ?codes c)) (unique ?codes) []"
  have set: "set (unique ?codes) = set ?codes" by (simp add: unique_def)
  then have less: "\<forall>c \<in> set (unique ?codes). c < 56" using tag_less by auto
  have "filter (\<lambda>c'. projr (tag_name c') = projr (tag_name c)) (unique ?codes) = [c]"
    if "c \<in> set ?codes" for c
  proof -
    have "projr (tag_name c') = projr (tag_name c) \<longleftrightarrow> c' = c" if "c' \<in> set (unique ?codes)" for c'
      using tag_name_inj [of c' c] tag_name_ok less set \<open>c \<in> set ?codes\<close> that by (metis sum.sel(2))
    then have "filter (\<lambda>c'. projr (tag_name c') = projr (tag_name c)) (unique ?codes)
        = filter (\<lambda>c'. c' = c) (unique ?codes)" by (rule filter_cong [OF refl])
    also have "\<dots> = [c]"
      using that set by (intro filter_eq_single) (simp_all add: unique_def)
    finally show ?thesis .
  qed
  moreover have "dom (map_of ?out) = (projr \<circ> tag_name) ` set ?codes"
    by (auto simp: map_of_fold_update set split: if_splits)
  then have "fst ` set ?out = (projr \<circ> tag_name) ` set ?codes" by (simp add: dom_map_of_conv_image_fst)
  moreover have "distinct (map fst ?out)" by (rule distinct_fold_update) simp
  ultimately show ?thesis
    by (intro exI [of _ ?out])
      (auto simp: summary_def Let_def summary_loop_fold [OF less] map_of_fold_update set)
qed

theorem summary_counts_witness:
  "\<exists>out. summary (tagger_init sample_sp (replicate 56 4)) [1, 15, 99, 99] = Inr out
     \<and> map_of out ''current|text|user'' = Some 2"
proof -
  let ?tg = "tagger_init sample_sp (replicate 56 4)"
  obtain out where out: "summary ?tg [1, 15, 99, 99] = Inr out"
    "\<forall>c \<in> set (tag (tg_sp ?tg) [1, 15, 99, 99]).
       map_of out (projr (tag_name c)) = Some (count_list (tag (tg_sp ?tg) [1, 15, 99, 99]) c)"
    using summary_counts [of ?tg "[1, 15, 99, 99]"] by blast
  have c: "43 \<in> set (tag (tg_sp ?tg) [1, 15, 99, 99])" "projr (tag_name 43) = ''current|text|user''"
    "count_list (tag (tg_sp ?tg) [1, 15, 99, 99]) 43 = 2" by code_simp+
  have "map_of out ''current|text|user'' = Some 2" using out(2) [rule_format, OF c(1)] unfolding c(2,3) .
  with out(1) show ?thesis by blast
qed

end
