(* ===== verification/Base_Alloc.thy ===== *)
theory Base_Alloc
  imports Prelude
begin

text \<open>
  \<open>srt/mem_cache/allocator.py\<close>: the state and the methods of \<open>BaseTokenToKVPoolAllocator\<close>, and the
  contract every slot allocator offers to the radix cache and to the scheduler.

  The subclasses extend the record, as the Python classes extend the base class.  A method that the
  base class calls virtually (\<open>free\<close> inside \<open>free_group_end\<close>) is an argument here.
\<close>

section \<open>The base class\<close>

record base_alloc =
  a_size :: nat
  page_size :: nat
  need_sort :: bool
  free_pages :: "nat list"
  release_pages :: "nat list"
  is_not_in_free_group :: bool
  free_group :: "slot list list"

definition base_available_size :: "'x base_alloc_scheme \<Rightarrow> nat" where
  "base_available_size a = (length (free_pages a) + length (release_pages a)) * page_size a"

definition base_backup_state :: "'x base_alloc_scheme \<Rightarrow> nat list \<times> nat list" where
  "base_backup_state a = (free_pages a, release_pages a)"

definition base_restore_state :: "'x base_alloc_scheme \<Rightarrow> nat list \<times> nat list \<Rightarrow> 'x base_alloc_scheme" where
  "base_restore_state a st = a\<lparr>free_pages := fst st, release_pages := snd st\<rparr>"

definition free_group_begin :: "'x base_alloc_scheme \<Rightarrow> 'x base_alloc_scheme" where
  "free_group_begin a = a\<lparr>is_not_in_free_group := False, free_group := []\<rparr>"

definition free_group_end ::
  "('x base_alloc_scheme \<Rightarrow> slot list \<Rightarrow> err + 'x base_alloc_scheme) \<Rightarrow> 'x base_alloc_scheme
   \<Rightarrow> err + 'x base_alloc_scheme" where
  "free_group_end free a =
     (let a = a\<lparr>is_not_in_free_group := True\<rparr> in
      if free_group a \<noteq> [] then free a (concat (free_group a)) else Inr a)"

definition merge_and_sort_free :: "'x base_alloc_scheme \<Rightarrow> 'x base_alloc_scheme" where
  "merge_and_sort_free a =
     (if length (release_pages a) > 0
      then a\<lparr>free_pages := sort (free_pages a @ release_pages a), release_pages := []\<rparr>
      else a)"

lemma merge_and_sort_free_simps [simp]:
  "a_size (merge_and_sort_free a) = a_size a"
  "need_sort (merge_and_sort_free a) = need_sort a"
  "is_not_in_free_group (merge_and_sort_free a) = is_not_in_free_group a"
  "free_group (merge_and_sort_free a) = free_group a"
  by (auto simp: merge_and_sort_free_def)

lemma merge_and_sort_free_mset:
  "mset (free_pages (merge_and_sort_free a)) + mset (release_pages (merge_and_sort_free a))
   = mset (free_pages a) + mset (release_pages a)"
  by (auto simp: merge_and_sort_free_def)

lemma merge_and_sort_free_release [simp]: "release_pages (merge_and_sort_free a) = []"
  by (auto simp: merge_and_sort_free_def)

section \<open>The allocator contract\<close>

text \<open>
  \<open>inv s L\<close> says that \<open>s\<close> is a well-formed allocator state, outside a free group, in which \<open>L\<close> is
  exactly the set of slots that are currently handed out.  The laws are what the clients rely on:
  an allocation returns as many fresh, pairwise distinct slots as asked for, never the padding slot
  0; giving back distinct live slots always works; and the reported size accounts for every slot.
\<close>

locale slot_allocator =
  fixes alloc :: "'s \<Rightarrow> nat \<Rightarrow> slot list option \<times> 's"
    and free :: "'s \<Rightarrow> slot list \<Rightarrow> err + 's"
    and avail :: "'s \<Rightarrow> int"
    and inv :: "'s \<Rightarrow> slot set \<Rightarrow> bool"
  assumes inv_finite: "inv s L \<Longrightarrow> finite L"
    and alloc_Some: "inv s L \<Longrightarrow> alloc s n = (Some xs, s') \<Longrightarrow>
          length xs = n \<and> distinct xs \<and> set xs \<inter> L = {} \<and> 0 \<notin> set xs
          \<and> inv s' (L \<union> set xs) \<and> avail s' = avail s - int n"
    and alloc_None: "inv s L \<Longrightarrow> alloc s n = (None, s') \<Longrightarrow> inv s' L \<and> avail s' = avail s"
    and free_live: "inv s L \<Longrightarrow> distinct xs \<Longrightarrow> set xs \<subseteq> L \<Longrightarrow>
          \<exists>s'. free s xs = Inr s' \<and> inv s' (L - set xs) \<and> avail s' = avail s + int (length xs)"
begin

text \<open>A client's calls, with the set of slots it holds: it frees only what it holds.\<close>

inductive call :: "'s \<times> slot set \<Rightarrow> 's \<times> slot set \<Rightarrow> bool" where
  call_alloc: "alloc s n = (Some xs, s') \<Longrightarrow> call (s, L) (s', L \<union> set xs)"
| call_fail: "alloc s n = (None, s') \<Longrightarrow> call (s, L) (s', L)"
| call_free: "distinct xs \<Longrightarrow> set xs \<subseteq> L \<Longrightarrow> free s xs = Inr s' \<Longrightarrow> call (s, L) (s', L - set xs)"

lemma call_keeps_inv:
  assumes "call (s, L) (s', L')" and "inv s L"
  shows "inv s' L' \<and> avail s' + int (card L') = avail s + int (card L)"
  using assms
proof (cases rule: call.cases)
  case (call_alloc n xs)
  with alloc_Some [OF assms(2)] have *: "length xs = n" "distinct xs" "set xs \<inter> L = {}"
    "inv s' (L \<union> set xs)" "avail s' = avail s - int n" by auto
  then have "card (L \<union> set xs) = card L + n"
    using inv_finite [OF assms(2)] by (subst card_Un_disjoint) (auto simp: distinct_card)
  with * call_alloc show ?thesis by simp
next
  case (call_fail n)
  with alloc_None [OF assms(2)] show ?thesis by auto
next
  case (call_free xs)
  with free_live [OF assms(2), of xs] have *: "inv s' (L - set xs)" "avail s' = avail s + int (length xs)"
    by auto
  have "card (L - set xs) + length xs = card L"
    using call_free inv_finite [OF assms(2)]
    by (metis card_Diff_subset card_mono distinct_card finite_set le_add_diff_inverse2)
  with * call_free show ?thesis by simp
qed

lemma calls_keep_inv:
  assumes "call\<^sup>*\<^sup>* (s, L) (s', L')" and "inv s L"
  shows "inv s' L' \<and> avail s' + int (card L') = avail s + int (card L)"
  using assms
proof (induction "(s', L')" arbitrary: s' L' rule: rtranclp_induct)
  case base
  then show ?case by simp
next
  case (step y)
  obtain t M where y: "y = (t, M)" by (cases y)
  with step have "inv t M" "avail t + int (card M) = avail s + int (card L)" by auto
  with call_keeps_inv [of t M s' L'] step.hyps y show ?case by auto
qed

text \<open>Taking slots and giving all of them back restores the reported size.\<close>

lemma alloc_free_roundtrip:
  assumes "inv s L" "alloc s n = (Some xs, s')"
  shows "\<exists>s''. free s' xs = Inr s'' \<and> inv s'' L \<and> avail s'' = avail s"
proof -
  from alloc_Some [OF assms] have *: "length xs = n" "distinct xs" "set xs \<inter> L = {}"
    "inv s' (L \<union> set xs)" "avail s' = avail s - int n" by auto
  from free_live [OF *(4) *(2)] obtain s'' where "free s' xs = Inr s''"
    "inv s'' (L \<union> set xs - set xs)" "avail s'' = avail s' + int (length xs)" by auto
  moreover have "L \<union> set xs - set xs = L" using *(3) by auto
  ultimately show ?thesis using * by auto
qed

end

end
