(* ===== verification/Kernels.thy ===== *)
theory Kernels
  imports Prelude
begin

text \<open>
  The pieces of the Triton language the kernels of this development use.  Device memory is a list;
  a block operation works on \<open>lanes\<close> consecutive offsets, and a masked-off lane neither reads nor
  writes.  A launch over a grid runs the program instances one after the other.
\<close>

section \<open>Blocks\<close>

text \<open>\<open>tl.cdiv\<close> and the host-side \<open>(x + y - 1) // y\<close>\<close>

definition cdiv :: "nat \<Rightarrow> nat \<Rightarrow> nat" where
  "cdiv x y = (x + y - 1) div y"

text \<open>\<open>next_power_of_2\<close> of \<open>srt/utils/common.py\<close>\<close>

fun bit_length :: "nat \<Rightarrow> nat" where
  "bit_length n = (if n = 0 then 0 else Suc (bit_length (n div 2)))"

declare bit_length.simps [simp del]

definition next_power_of_2 :: "nat \<Rightarrow> nat" where
  "next_power_of_2 n = (if n > 0 then 2 ^ bit_length (n - 1) else 1)"

text \<open>\<open>tl.store(ptr + base + tl.arange(0, lanes), val, mask)\<close>\<close>

definition tl_store :: "nat \<Rightarrow> nat \<Rightarrow> (nat \<Rightarrow> bool) \<Rightarrow> (nat \<Rightarrow> 'a) \<Rightarrow> 'a list \<Rightarrow> 'a list" where
  "tl_store base lanes msk val mem =
     fold (\<lambda>o1 mem. if msk o1 then mem[base + o1 := val o1] else mem) [0..<lanes] mem"

text \<open>
  The copy loop \<open>for b in range(cdiv(n, BLOCK))\<close> with lane offset \<open>b * BLOCK + arange(0, BLOCK)\<close> and
  mask \<open>offset < n\<close>.
\<close>

definition blocked_store :: "nat \<Rightarrow> nat \<Rightarrow> nat \<Rightarrow> (nat \<Rightarrow> 'a) \<Rightarrow> 'a list \<Rightarrow> 'a list" where
  "blocked_store BLOCK n base val mem =
     fold (\<lambda>b. tl_store (base + b * BLOCK) BLOCK (\<lambda>o1. b * BLOCK + o1 < n) (\<lambda>o1. val (b * BLOCK + o1)))
       [0..<cdiv n BLOCK] mem"

text \<open>A launch over a one-dimensional grid.\<close>

definition launch :: "nat \<Rightarrow> (nat \<Rightarrow> 'm \<Rightarrow> 'm) \<Rightarrow> 'm \<Rightarrow> 'm" where
  "launch grid prog mem = fold prog [0..<grid] mem"

section \<open>Arithmetic\<close>

lemma cdiv_mult_ge: "0 < y \<Longrightarrow> x \<le> cdiv x y * y"
proof -
  assume "0 < y"
  then have "x + y - 1 < Suc (cdiv x y) * y"
    unfolding cdiv_def using dividend_less_div_times [of y "x + y - 1"] by simp
  then show ?thesis using \<open>0 < y\<close> by simp
qed

lemma cdiv_mult_le: "0 < y \<Longrightarrow> cdiv x y * y \<le> x + (y - 1)"
  unfolding cdiv_def using div_times_less_eq_dividend [of "x + y - 1" y] by simp

lemma cdiv_eq: "0 < y \<Longrightarrow> cdiv x y = (if y dvd x then x div y else x div y + 1)"
proof -
  assume y: "0 < y"
  obtain q r where x: "x = q * y + r" "r < y" using y by (metis mod_less_divisor div_mult_mod_eq)
  have "x + y - 1 = q * y + (r + (y - 1))" using x y by simp
  then have "cdiv x y = q + (r + (y - 1)) div y" using y by (simp only: cdiv_def div_mult_self3)
  also have "(r + (y - 1)) div y = (if r = 0 then 0 else 1)"
    using x(2) y by (auto simp: div_nat_eqI)
  finally show ?thesis using x y by (auto simp: dvd_add_right_iff dest: nat_dvd_not_less)
qed

lemma cdiv_le_iff: "0 < y \<Longrightarrow> cdiv x y \<le> k \<longleftrightarrow> x \<le> k * y"
proof
  assume y: "0 < y" and "cdiv x y \<le> k"
  then have "cdiv x y * y \<le> k * y" by (intro mult_le_mono1)
  with cdiv_mult_ge [OF y, of x] show "x \<le> k * y" by (rule order_trans)
next
  assume y: "0 < y" and "x \<le> k * y"
  then have "x + y - 1 < Suc k * y" by (simp add: Suc_le_eq)
  then show "cdiv x y \<le> k" unfolding cdiv_def using y by (simp add: less_mult_imp_div_less less_Suc_eq_le [symmetric])
qed

lemma cdiv_mono: "x \<le> x' \<Longrightarrow> cdiv x y \<le> cdiv x' y"
  by (simp add: cdiv_def div_le_mono)

lemma less_power_bit_length: "n < 2 ^ bit_length n"
proof (induction n rule: bit_length.induct)
  case (1 n)
  show ?case
  proof (cases "n = 0")
    case False
    then have "n div 2 < 2 ^ bit_length (n div 2)" using 1 by simp
    then have "n < 2 * 2 ^ bit_length (n div 2)" by linarith
    then show ?thesis using False by (simp add: bit_length.simps [of n])
  qed (simp add: bit_length.simps)
qed

lemma next_power_of_2_ge: "n \<le> next_power_of_2 n"
  using less_power_bit_length [of "n - 1"] by (cases n) (simp_all add: next_power_of_2_def Suc_le_eq)

section \<open>Stores\<close>

lemma length_tl_store [simp]: "length (tl_store base lanes msk val mem) = length mem"
proof -
  have "length (fold (\<lambda>o1 mem. if msk o1 then mem[base + o1 := val o1] else mem) ls mem) = length mem" for ls
    by (induction ls arbitrary: mem) auto
  then show ?thesis by (simp add: tl_store_def)
qed

lemma tl_store_nth:
  assumes "i < length mem"
  shows "tl_store base lanes msk val mem ! i
    = (if base \<le> i \<and> i < base + lanes \<and> msk (i - base) then val (i - base) else mem ! i)"
proof (induction lanes)
  case 0
  then show ?case by (auto simp: tl_store_def)
next
  case (Suc lanes)
  have "tl_store base (Suc lanes) msk val mem
      = (let m = tl_store base lanes msk val mem in if msk lanes then m[base + lanes := val lanes] else m)"
    by (simp add: tl_store_def)
  with Suc assms show ?case by (auto simp: Let_def nth_list_update)
qed

lemma length_blocked_store [simp]: "length (blocked_store B n base val mem) = length mem"
proof -
  have "length (fold (\<lambda>b. tl_store (f b) B (g b) (h b)) bs mem) = length mem" for f g h bs
    by (induction bs arbitrary: mem) auto
  then show ?thesis by (simp add: blocked_store_def)
qed

lemma blocked_store_nth:
  assumes i: "i < length mem" and B: "0 < B"
  shows "blocked_store B n base val mem ! i = (if base \<le> i \<and> i < base + n then val (i - base) else mem ! i)"
proof -
  let ?st = "\<lambda>b. tl_store (base + b * B) B (\<lambda>o1. b * B + o1 < n) (\<lambda>o1. val (b * B + o1))"
  have len: "length (fold ?st [0..<k] mem) = length mem" for k by (induction k) auto
  have "fold ?st [0..<k] mem ! i
      = (if base \<le> i \<and> i < base + n \<and> i < base + k * B then val (i - base) else mem ! i)" for k
  proof (induction k)
    case (Suc k)
    let ?m = "fold ?st [0..<k] mem"
    have "fold ?st [0..<Suc k] mem ! i = (if base + k * B \<le> i \<and> i < base + k * B + B \<and>
        k * B + (i - (base + k * B)) < n then val (k * B + (i - (base + k * B))) else ?m ! i)"
      using i len by (simp add: tl_store_nth)
    also have "\<dots> = (if base + k * B \<le> i \<and> i < base + k * B + B \<and> i < base + n then val (i - base) else ?m ! i)"
      by (cases "base + k * B \<le> i") (auto simp: algebra_simps)
    finally show ?case using Suc by (auto simp: algebra_simps)
  qed auto
  moreover have "n \<le> cdiv n B * B" by (rule cdiv_mult_ge [OF B])
  ultimately show ?thesis by (auto simp: blocked_store_def)
qed

lemma launch_0 [simp]: "launch 0 k mem = mem"
  by (simp add: launch_def)

lemma launch_Suc [simp]: "launch (Suc g) k mem = k g (launch g k mem)"
  by (simp add: launch_def)

text \<open>
  Program instances that each own one segment of the output: if instance \<open>p\<close> writes exactly the
  positions of segment \<open>p\<close>, with the values of \<open>f\<close>, then the launch writes \<open>f\<close> everywhere.
\<close>

lemma launch_segments:
  assumes step_len: "\<And>p m. p < length lens \<Longrightarrow> length m = sum_list lens \<Longrightarrow> length (k p m) = sum_list lens"
    and step: "\<And>p m i. p < length lens \<Longrightarrow> length m = sum_list lens \<Longrightarrow> i < sum_list lens \<Longrightarrow>
      k p m ! i = (if seg_start lens p \<le> i \<and> i < seg_start lens (Suc p) then f i else m ! i)"
    and len: "length mem = sum_list lens"
  shows "launch (length lens) k mem = map f [0..<sum_list lens]"
proof -
  have inv: "length (launch g k mem) = sum_list lens \<and>
      (\<forall>i < sum_list lens. launch g k mem ! i = (if i < seg_start lens g then f i else mem ! i))"
    if "g \<le> length lens" for g
    using that
  proof (induction g)
    case (Suc g)
    then have IH: "length (launch g k mem) = sum_list lens"
      "\<forall>i < sum_list lens. launch g k mem ! i = (if i < seg_start lens g then f i else mem ! i)" by auto
    have "seg_start lens g \<le> seg_start lens (Suc g)" using Suc.prems by (simp add: seg_start_Suc)
    then show ?case using Suc.prems IH step [OF _ IH(1)] step_len [OF _ IH(1)] by auto
  qed (simp add: len)
  have "seg_start lens (length lens) = sum_list lens" by (simp add: seg_start_def)
  with inv [OF order_refl] show ?thesis by (intro nth_equalityI) auto
qed

end
