(* ===== verification/Paged_Alloc.thy ===== *)
theory Paged_Alloc
  imports Base_Alloc Kernels
begin

text \<open>
  The paged allocator of \<open>srt/mem_cache/allocator.py\<close>: the Triton kernels that lay out the new tokens
  of a batch over old and new pages, the loop \<open>alloc_extend_naive\<close> that serves as their reference,
  and \<open>PagedTokenToKVPoolAllocator\<close>.

  Lengths are natural numbers with \<open>prefix \<le> seq\<close>; \<open>last_loc\<close> is an integer because an empty prefix
  has \<open>last_loc = -1\<close>.  The kernels read the free-page tensor before the caller checks that it is long
  enough: \<open>oob\<close> is what lies behind its end.  \<open>useq\<close> and \<open>upre\<close> are the values of lanes that a masked
  load leaves undefined.
\<close>

section \<open>The reference loop\<close>

definition alloc_extend_naive_step ::
  "nat \<Rightarrow> nat list \<Rightarrow> nat list \<Rightarrow> int list \<Rightarrow> nat list \<Rightarrow> nat \<Rightarrow> slot list \<Rightarrow> slot list" where
  "alloc_extend_naive_step ps prefix_lens seq_lens last_loc fp i out =
     (let extend_lens = map2 (-) seq_lens prefix_lens;
          end_pos = cumsum extend_lens;
          start_pos = map2 (-) end_pos extend_lens;
          num_new_pages = map2 (\<lambda>s p. (s + ps - 1) div ps - (p + ps - 1) div ps) seq_lens prefix_lens;
          num_full_new_pages = map2 (\<lambda>s p. int (s div ps) - int ((p + ps - 1) div ps)) seq_lens prefix_lens;
          need_page = map2 (\<lambda>n f. int n - f) num_new_pages num_full_new_pages;
          end_new_pages = cumsum num_new_pages;
          start_new_pages = map2 (-) end_new_pages num_new_pages;
          num1 = min (seq_lens ! i) ((prefix_lens ! i + ps - 1) div ps * ps) - prefix_lens ! i;
          out = (if num1 \<noteq> 0 then
                   set_slice out (start_pos ! i) (map (\<lambda>k. nat (last_loc ! i + 1 + int k)) [0..<num1])
                 else out)
      in if prefix_lens ! i + num1 = seq_lens ! i then out
      else
        let num2 = (seq_lens ! i div ps - (prefix_lens ! i + ps - 1) div ps) * ps;
            out = (if num2 \<noteq> 0 then
                     let pages = slice fp (start_new_pages ! i)
                                   (nat (int (end_new_pages ! i) - need_page ! i))
                     in set_slice out (start_pos ! i + num1)
                          (concat (map (\<lambda>p. map (\<lambda>k. p * ps + k) [0..<ps]) pages))
                   else out)
        in if prefix_lens ! i + num1 + num2 = seq_lens ! i then out
        else
          let num3 = seq_lens ! i - seq_lens ! i div ps * ps
          in if num3 \<noteq> 0 then
               set_slice out (end_pos ! i - num3)
                 (map (\<lambda>k. fp ! (end_new_pages ! i - 1) * ps + k) [0..<num3])
             else out)"

definition alloc_extend_naive ::
  "nat \<Rightarrow> nat list \<Rightarrow> nat list \<Rightarrow> int list \<Rightarrow> nat list \<Rightarrow> slot list \<Rightarrow> slot list" where
  "alloc_extend_naive ps prefix_lens seq_lens last_loc fp out =
     fold (alloc_extend_naive_step ps prefix_lens seq_lens last_loc fp) [0..<length prefix_lens] out"

section \<open>The kernels\<close>

definition alloc_extend_kernel ::
  "(nat \<Rightarrow> int) \<Rightarrow> (nat \<Rightarrow> int) \<Rightarrow> nat list \<Rightarrow> nat list \<Rightarrow> int list \<Rightarrow> (nat \<Rightarrow> nat) \<Rightarrow> nat \<Rightarrow> nat
   \<Rightarrow> nat \<Rightarrow> slot list \<Rightarrow> slot list" where
  "alloc_extend_kernel useq upre pre_lens_ptr seq_lens_ptr last_loc_ptr free_page bs_upper ps pid out =
     (let seq_lens = map (\<lambda>j. if j \<le> pid then int (seq_lens_ptr ! j) else useq j) [0..<bs_upper];
          pre_lens = map (\<lambda>j. if j \<le> pid then int (pre_lens_ptr ! j) else upre j) [0..<bs_upper];
          extend_lens = map2 (-) seq_lens pre_lens;
          seq_len = seq_lens_ptr ! pid;
          pre_len = pre_lens_ptr ! pid;
          extend_len = seq_len - pre_len;
          sum_extend_lens = sum_list extend_lens;
          output_start_loc = nat (sum_extend_lens - int extend_len);
          num_pages_after = map (\<lambda>s. (s + int ps - 1) div int ps) seq_lens;
          num_pages_before = map (\<lambda>p. (p + int ps - 1) div int ps) pre_lens;
          num_new_pages = map2 (-) num_pages_after num_pages_before;
          num_page_start_loc_self = (seq_len + ps - 1) div ps - (pre_len + ps - 1) div ps;
          sum_num_new_pages = sum_list num_new_pages;
          new_page_start_loc = nat (sum_num_new_pages - int num_page_start_loc_self);
          last_loc = last_loc_ptr ! pid;
          num_part1 = min seq_len ((pre_len + ps - 1) div ps * ps) - pre_len;
          out = tl_store output_start_loc ps (\<lambda>o1. o1 < num_part1) (\<lambda>o1. nat (last_loc + 1 + int o1)) out
      in if pre_len + num_part1 = seq_len then out
      else
        let num_part2 = seq_len div ps * ps - (pre_len + ps - 1) div ps * ps;
            out = blocked_store 4096 num_part2 (output_start_loc + num_part1)
                    (\<lambda>o1. free_page (new_page_start_loc + o1 div ps) * ps + o1 mod ps) out
        in if pre_len + num_part1 + num_part2 = seq_len then out
        else
          let num_part3 = seq_len - seq_len div ps * ps;
              start_loc = free_page (new_page_start_loc + num_page_start_loc_self - 1)
          in tl_store (output_start_loc + num_part1 + num_part2) ps (\<lambda>o1. o1 < num_part3)
               (\<lambda>o1. start_loc * ps + o1) out)"

definition alloc_decode_kernel ::
  "(nat \<Rightarrow> int) \<Rightarrow> nat list \<Rightarrow> int list \<Rightarrow> (nat \<Rightarrow> nat) \<Rightarrow> nat \<Rightarrow> nat \<Rightarrow> nat \<Rightarrow> slot list \<Rightarrow> slot list" where
  "alloc_decode_kernel useq seq_lens_ptr last_loc_ptr free_page bs_upper ps pid out =
     (let seq_lens = map (\<lambda>j. if j \<le> pid then int (seq_lens_ptr ! j) else useq j) [0..<bs_upper];
          pre_lens = map (\<lambda>(j, s). if j \<le> pid then s - 1 else s) (zip [0..<bs_upper] seq_lens);
          seq_len = seq_lens_ptr ! pid;
          pre_len = seq_len - 1;
          num_pages_after = map (\<lambda>s. (s + int ps - 1) div int ps) seq_lens;
          num_pages_before = map (\<lambda>p. (p + int ps - 1) div int ps) pre_lens;
          num_new_pages = map2 (-) num_pages_after num_pages_before;
          num_page_start_loc_self = (seq_len + ps - 1) div ps - (pre_len + ps - 1) div ps;
          sum_num_new_pages = sum_list num_new_pages;
          new_page_start_loc = nat (sum_num_new_pages - int num_page_start_loc_self)
      in if num_page_start_loc_self = 0 then out[pid := nat (last_loc_ptr ! pid + 1)]
         else out[pid := free_page new_page_start_loc * ps])"

section \<open>The allocator class\<close>

text \<open>\<open>get_num_new_pages\<close> of \<open>srt/utils/common.py\<close>\<close>

definition get_num_new_pages :: "nat list \<Rightarrow> nat \<Rightarrow> nat list option \<Rightarrow> bool \<Rightarrow> err + nat" where
  "get_num_new_pages seq_lens ps prefix_lens decode =
     (case prefix_lens of
        Some pre \<Rightarrow>
          if decode then Inr (length (filter (\<lambda>s. s mod ps = 1) seq_lens))
          else Inr (sum_list (map2 (\<lambda>s p. (s + ps - 1) div ps - (p + ps - 1) div ps) seq_lens pre))
      | None \<Rightarrow>
          if decode then Inr (length (filter (\<lambda>s. s mod ps = 1) seq_lens)) else Inl AssertionError)"

record paged_state = base_alloc +
  num_pages :: nat
  debug_mode :: bool

definition pg_clear :: "paged_state \<Rightarrow> paged_state" where
  "pg_clear a = a\<lparr>free_pages := [1..<num_pages a + 1], is_not_in_free_group := True, free_group := [],
                  release_pages := []\<rparr>"

definition pg_init :: "nat \<Rightarrow> nat \<Rightarrow> bool \<Rightarrow> bool \<Rightarrow> paged_state" where
  "pg_init sz ps srt dbg = pg_clear
     \<lparr>a_size = sz, page_size = ps, need_sort = srt, free_pages = [], release_pages = [],
      is_not_in_free_group = True, free_group = [], num_pages = sz div ps, debug_mode = dbg\<rparr>"

definition page_range :: "nat \<Rightarrow> nat \<Rightarrow> slot list" where
  "page_range ps p = map (\<lambda>k. p * ps + k) [0..<ps]"

definition pg_alloc :: "paged_state \<Rightarrow> nat \<Rightarrow> err + slot list option \<times> paged_state" where
  "pg_alloc a need_size =
     (if debug_mode a \<and> need_size mod page_size a \<noteq> 0 then Inl AssertionError
      else
        let n = need_size div page_size a;
            a = (if need_sort a \<and> n > length (free_pages a) then merge_and_sort_free a else a)
        in if n > length (free_pages a) then Inr (None, a)
           else Inr (Some (concat (map (page_range (page_size a)) (take n (free_pages a)))),
                     a\<lparr>free_pages := drop n (free_pages a)\<rparr>))"

text \<open>The free-page tensor as the kernels see it.\<close>

definition page_mem :: "(nat \<Rightarrow> nat) \<Rightarrow> nat list \<Rightarrow> nat \<Rightarrow> nat" where
  "page_mem oob fp i = (if i < length fp then fp ! i else oob i)"

definition pg_alloc_extend ::
  "(nat \<Rightarrow> int) \<Rightarrow> (nat \<Rightarrow> int) \<Rightarrow> (nat \<Rightarrow> nat) \<Rightarrow> (nat \<Rightarrow> slot) \<Rightarrow> paged_state
   \<Rightarrow> nat list \<Rightarrow> nat list \<Rightarrow> int list \<Rightarrow> nat \<Rightarrow> err + slot list option \<times> paged_state" where
  "pg_alloc_extend useq upre oob uninit a prefix_lens seq_lens last_loc extend_num_tokens =
     (if debug_mode a \<and> \<not> list_all2 (\<lambda>l p. (l + 1) mod int (page_size a) = int p mod int (page_size a)) last_loc prefix_lens
      then Inl AssertionError
      else
        let bs = length prefix_lens;
            a = (if need_sort a \<and> extend_num_tokens div page_size a + bs + 1 > length (free_pages a)
                 then merge_and_sort_free a else a);
            out_indices = launch bs
              (alloc_extend_kernel useq upre prefix_lens seq_lens last_loc (page_mem oob (free_pages a))
                 (next_power_of_2 bs) (page_size a))
              (map uninit [0..<extend_num_tokens])
        in if debug_mode a \<and> length (unique out_indices) \<noteq> length out_indices then Inl AssertionError
           else case get_num_new_pages seq_lens (page_size a) (Some prefix_lens) False of
             Inl e \<Rightarrow> Inl e
           | Inr n \<Rightarrow>
               if n > length (free_pages a) then Inr (None, a)
               else Inr (Some out_indices, a\<lparr>free_pages := drop n (free_pages a)\<rparr>))"

definition pg_alloc_decode ::
  "(nat \<Rightarrow> int) \<Rightarrow> (nat \<Rightarrow> nat) \<Rightarrow> (nat \<Rightarrow> slot) \<Rightarrow> paged_state \<Rightarrow> nat list \<Rightarrow> int list
   \<Rightarrow> err + slot list option \<times> paged_state" where
  "pg_alloc_decode useq oob uninit a seq_lens last_loc =
     (if debug_mode a \<and> \<not> list_all2 (\<lambda>l s. (l + 2) mod int (page_size a) = int s mod int (page_size a)) last_loc seq_lens
      then Inl AssertionError
      else
        let bs = length seq_lens;
            a = (if need_sort a \<and> bs > length (free_pages a) then merge_and_sort_free a else a);
            out_indices = launch bs
              (alloc_decode_kernel useq seq_lens last_loc (page_mem oob (free_pages a))
                 (next_power_of_2 bs) (page_size a))
              (map uninit [0..<bs])
        in if debug_mode a \<and> length (unique out_indices) \<noteq> length out_indices then Inl AssertionError
           else case get_num_new_pages seq_lens (page_size a) None True of
             Inl e \<Rightarrow> Inl e
           | Inr n \<Rightarrow>
               if n > length (free_pages a) then Inr (None, a)
               else Inr (Some out_indices, a\<lparr>free_pages := drop n (free_pages a)\<rparr>))"

definition pg_free :: "paged_state \<Rightarrow> slot list \<Rightarrow> err + paged_state" where
  "pg_free a free_index =
     (if free_index = [] then Inr a
      else
        let a = (if is_not_in_free_group a then
                   let free_page_indices = unique (map (\<lambda>s. s div page_size a) free_index) in
                   if need_sort a then a\<lparr>release_pages := free_page_indices @ release_pages a\<rparr>
                   else a\<lparr>free_pages := free_page_indices @ free_pages a\<rparr>
                 else a\<lparr>free_group := free_group a @ [free_index]\<rparr>)
        in if debug_mode a \<and> length (unique (free_pages a)) \<noteq> length (free_pages a) then Inl AssertionError
           else Inr a)"

end
