(* ===== verification/Paged_Layout.thy ===== *)
theory Paged_Layout
  imports Paged_Alloc
begin

text \<open>
  What the paged kernels compute.  Token \<open>t\<close> of a request goes to the page that covers position \<open>t\<close>
  of the request, at offset \<open>t mod page_size\<close>: the page of \<open>last_loc\<close> while that page still has room,
  then the request's share of the free pages in order.  The extend kernel, the reference loop and
  the decode kernel are all proved equal to this one specification.
\<close>

section \<open>Specification\<close>

definition token_slot :: "nat \<Rightarrow> nat \<Rightarrow> int \<Rightarrow> (nat \<Rightarrow> nat) \<Rightarrow> nat \<Rightarrow> slot" where
  "token_slot ps pre ll pages t =
     (if t < cdiv pre ps * ps then nat (ll + 1 + int (t - pre))
      else pages (t div ps - cdiv pre ps) * ps + t mod ps)"

definition ext_lens :: "nat list \<Rightarrow> nat list \<Rightarrow> nat list" where
  "ext_lens pre seq = map2 (-) seq pre"

definition new_pages :: "nat \<Rightarrow> nat list \<Rightarrow> nat list \<Rightarrow> nat list" where
  "new_pages ps pre seq = map2 (\<lambda>s p. cdiv s ps - cdiv p ps) seq pre"

definition layout :: "nat \<Rightarrow> nat list \<Rightarrow> nat list \<Rightarrow> int list \<Rightarrow> (nat \<Rightarrow> nat) \<Rightarrow> nat \<Rightarrow> slot" where
  "layout ps pre seq ll page i =
     (let r = seg_of (ext_lens pre seq) ! i in
      token_slot ps (pre ! r) (ll ! r) (\<lambda>k. page (seg_start (new_pages ps pre seq) r + k))
        (pre ! r + (i - seg_start (ext_lens pre seq) r)))"

definition batch_ok :: "nat \<Rightarrow> nat list \<Rightarrow> nat list \<Rightarrow> int list \<Rightarrow> bool" where
  "batch_ok ps pre seq ll \<longleftrightarrow>
     0 < ps \<and> length seq = length pre \<and> length ll = length pre \<and> (\<forall>r < length pre. pre ! r \<le> seq ! r)"

lemma batch_okD:
  assumes "batch_ok ps pre seq ll"
  shows "0 < ps" "length seq = length pre" "length ll = length pre" "\<And>r. r < length pre \<Longrightarrow> pre ! r \<le> seq ! r"
  using assms by (auto simp: batch_ok_def)

lemma ext_lens_simps [simp]:
  "length seq = length pre \<Longrightarrow> length (ext_lens pre seq) = length pre"
  "length seq = length pre \<Longrightarrow> r < length pre \<Longrightarrow> ext_lens pre seq ! r = seq ! r - pre ! r"
  by (simp_all add: ext_lens_def)

lemma new_pages_simps [simp]:
  "length seq = length pre \<Longrightarrow> length (new_pages ps pre seq) = length pre"
  "length seq = length pre \<Longrightarrow> r < length pre \<Longrightarrow> new_pages ps pre seq ! r = cdiv (seq ! r) ps - cdiv (pre ! r) ps"
  by (simp_all add: new_pages_def)

text \<open>The segment a position of the output belongs to.\<close>

lemma seg_of_unique:
  assumes "i < sum_list lens" "r < length lens" "seg_start lens r \<le> i" "i < seg_start lens (Suc r)"
  shows "seg_of lens ! i = r"
proof -
  let ?s = "seg_of lens ! i"
  note loc = seg_of_locate [OF assms(1)]
  have mono: "seg_start lens a \<le> seg_start lens b" if "a \<le> b" for a b
    unfolding seg_start_def using that by (metis le_add1 le_iff_add sum_list_append take_add)
  have "\<not> Suc ?s \<le> r" using loc mono [of "Suc ?s" r] assms(3) by (auto simp: seg_start_Suc)
  moreover have "\<not> Suc r \<le> ?s" using loc(2) mono [of "Suc r" ?s] assms(4) by auto
  ultimately show ?thesis by simp
qed

text \<open>A family of writes that fills one segment with a function of the token position.\<close>

definition token_at :: "nat list \<Rightarrow> nat list \<Rightarrow> nat \<Rightarrow> nat \<Rightarrow> nat" where
  "token_at pre seq r i = pre ! r + (i - seg_start (ext_lens pre seq) r)"

lemma layout_in_segment:
  assumes ok: "batch_ok ps pre seq ll" and r: "r < length pre"
    and i: "seg_start (ext_lens pre seq) r \<le> i" "i < seg_start (ext_lens pre seq) (Suc r)"
  shows "layout ps pre seq ll page i
    = token_slot ps (pre ! r) (ll ! r) (\<lambda>k. page (seg_start (new_pages ps pre seq) r + k)) (token_at pre seq r i)"
proof -
  note b = batch_okD [OF ok]
  have "i < sum_list (ext_lens pre seq)" using i(2) seg_start_le [of "ext_lens pre seq" "Suc r"] by linarith
  then have "seg_of (ext_lens pre seq) ! i = r" using seg_of_unique i r b(2) by simp
  then show ?thesis by (simp add: layout_def token_at_def)
qed

section \<open>The extend kernel\<close>

text \<open>Masked-off lanes contribute nothing when both loads leave the same value there.\<close>

lemma sum_map_lanes:
  fixes f :: "nat \<Rightarrow> int"
  assumes "pid < bu" "\<And>j. pid < j \<Longrightarrow> f j = 0"
  shows "sum_list (map f [0..<bu]) = (\<Sum>j\<le>pid. f j)"
proof -
  have "sum_list (map f [0..<bu]) = (\<Sum>j<bu. f j)"
    by (simp add: interv_sum_list_conv_sum_set_nat atLeast0LessThan)
  also have "\<dots> = (\<Sum>j\<le>pid. f j)"
    using assms by (intro sum.mono_neutral_right) (auto simp: not_le)
  finally show ?thesis .
qed

lemma seg_start_sum: "r < length lens \<Longrightarrow> int (seg_start lens (Suc r)) = (\<Sum>j\<le>r. int (lens ! j))"
proof (induction r)
  case 0
  then show ?case by (simp add: seg_start_Suc)
next
  case (Suc r)
  then show ?case by (simp add: seg_start_Suc [of "Suc r"])
qed

lemma kernel_offsets:
  assumes ok: "batch_ok ps pre seq ll" and r: "r < length pre" and bu: "length pre \<le> bu"
    and lanes: "\<And>j. useq j = upre j"
  defines "S \<equiv> map (\<lambda>j. if j \<le> r then int (seq ! j) else useq j) [0..<bu]"
    and "P \<equiv> map (\<lambda>j. if j \<le> r then int (pre ! j) else upre j) [0..<bu]"
  shows "nat (sum_list (map2 (-) S P) - int (seq ! r - pre ! r)) = seg_start (ext_lens pre seq) r"
    and "nat (sum_list (map2 (-) (map (\<lambda>s. (s + int ps - 1) div int ps) S)
          (map (\<lambda>p. (p + int ps - 1) div int ps) P)) - int (cdiv (seq ! r) ps - cdiv (pre ! r) ps))
      = seg_start (new_pages ps pre seq) r"
proof -
  note b = batch_okD [OF ok]
  have cd: "(int x + int ps - 1) div int ps = int (cdiv x ps)" for x
    using b(1) by (simp add: cdiv_def zdiv_int of_nat_diff)
  have z: "map2 f (map g [0..<bu]) (map h [0..<bu]) = map (\<lambda>j. f (g j) (h j)) [0..<bu]"
    for f :: "int \<Rightarrow> int \<Rightarrow> int" and g h
    by (simp add: zip_map_map map_zip_map2 zip_same_conv_map)
  have "sum_list (map2 (-) S P) = (\<Sum>j\<le>r. int (ext_lens pre seq ! j))"
    unfolding S_def P_def z using r bu b lanes
    by (subst sum_map_lanes [of r]) (auto simp: of_nat_diff intro!: sum.cong)
  then show "nat (sum_list (map2 (-) S P) - int (seq ! r - pre ! r)) = seg_start (ext_lens pre seq) r"
    using seg_start_sum [of r "ext_lens pre seq"] r b(2) by (simp add: seg_start_Suc)
  have "sum_list (map2 (-) (map (\<lambda>s. (s + int ps - 1) div int ps) S)
          (map (\<lambda>p. (p + int ps - 1) div int ps) P)) = (\<Sum>j\<le>r. int (new_pages ps pre seq ! j))"
    unfolding S_def P_def map_map z using r bu b lanes
    by (subst sum_map_lanes [of r]) (auto simp: of_nat_diff cdiv_mono cd intro!: sum.cong)
  then show "nat (sum_list (map2 (-) (map (\<lambda>s. (s + int ps - 1) div int ps) S)
          (map (\<lambda>p. (p + int ps - 1) div int ps) P)) - int (cdiv (seq ! r) ps - cdiv (pre ! r) ps))
      = seg_start (new_pages ps pre seq) r"
    using seg_start_sum [of r "new_pages ps pre seq"] r b(2) by (simp add: seg_start_Suc)
qed

text \<open>Where the three parts of a request end.\<close>

lemma part_bounds:
  fixes pre seq ps :: nat
  assumes "0 < ps" "pre \<le> seq"
  defines "u \<equiv> cdiv pre ps * ps"
  shows "pre \<le> u" "u < pre + ps"
    and "pre + (min seq u - pre) = seq \<longleftrightarrow> seq \<le> u"
    and "\<not> seq \<le> u \<Longrightarrow> u \<le> seq div ps * ps"
    and "\<not> seq \<le> u \<Longrightarrow> seq mod ps \<noteq> 0 \<Longrightarrow> cdiv seq ps - cdiv pre ps - 1 = seq div ps - cdiv pre ps"
    and "\<not> seq \<le> u \<Longrightarrow> seq mod ps \<noteq> 0 \<Longrightarrow> 0 < cdiv seq ps - cdiv pre ps"
proof -
  show u: "pre \<le> u" "u < pre + ps"
    unfolding u_def using cdiv_mult_ge [OF assms(1), of pre] cdiv_mult_le [OF assms(1), of pre] assms(1) by auto
  show "pre + (min seq u - pre) = seq \<longleftrightarrow> seq \<le> u" using u(1) assms(2) by (auto simp: min_def)
  show le: "u \<le> seq div ps * ps" if "\<not> seq \<le> u"
    using that assms(1) unfolding u_def by (auto simp: less_eq_div_iff_mult_less_eq)
  assume n: "\<not> seq \<le> u" "seq mod ps \<noteq> 0"
  then have c: "cdiv seq ps = seq div ps + 1" using cdiv_eq [OF assms(1), of seq] by (simp add: mod_eq_0_iff_dvd)
  have "cdiv pre ps \<le> seq div ps" using le [OF n(1)] assms(1) unfolding u_def by simp
  with c show "cdiv seq ps - cdiv pre ps - 1 = seq div ps - cdiv pre ps" "0 < cdiv seq ps - cdiv pre ps"
    by simp_all
qed

text \<open>The token that lane \<open>k\<close> of a new page run holds.\<close>

lemma token_slot_new:
  assumes "0 < ps" "t = cdiv pre ps * ps + k"
  shows "token_slot ps pre ll pages t = pages (k div ps) * ps + k mod ps"
  using assms by (simp add: token_slot_def)

lemma token_slot_old:
  "t < cdiv pre ps * ps \<Longrightarrow> token_slot ps pre ll pages t = nat (ll + 1 + int (t - pre))"
  by (simp add: token_slot_def)

text \<open>The three stores of one request, in the order both implementations issue them.\<close>

definition three_parts ::
  "nat \<Rightarrow> nat \<Rightarrow> nat \<Rightarrow> int \<Rightarrow> (nat \<Rightarrow> nat) \<Rightarrow> nat \<Rightarrow> slot list \<Rightarrow> nat \<Rightarrow> slot" where
  "three_parts ps pre seq ll pages s out i =
     (let u = cdiv pre ps * ps; w = seq div ps * ps; n1 = min seq u - pre in
      if \<not> seq \<le> u \<and> seq mod ps \<noteq> 0 \<and> s + (w - pre) \<le> i \<and> i < s + (seq - pre)
      then pages (seq div ps - cdiv pre ps) * ps + (i - (s + (w - pre)))
      else if \<not> seq \<le> u \<and> s + n1 \<le> i \<and> i < s + (w - pre)
      then pages ((i - (s + n1)) div ps) * ps + (i - (s + n1)) mod ps
      else if s \<le> i \<and> i < s + n1 then nat (ll + 1 + int (i - s))
      else out ! i)"

lemma three_parts_slot:
  assumes ps: "0 < ps" and le: "pre \<le> seq"
  shows "three_parts ps pre seq ll pages s out i
    = (if s \<le> i \<and> i < s + (seq - pre) then token_slot ps pre ll pages (pre + (i - s)) else out ! i)"
proof -
  define u where "u = cdiv pre ps * ps"
  define w where "w = seq div ps * ps"
  note b = part_bounds [OF ps le, folded u_def w_def]
  note def = three_parts_def [of ps pre seq ll pages s out i, folded u_def w_def, unfolded Let_def]
  have old: "t < u \<Longrightarrow> token_slot ps pre ll pages t = nat (ll + 1 + int (t - pre))" for t
    by (simp add: token_slot_def u_def)
  show ?thesis
  proof (cases "seq \<le> u")
    case True
    then show ?thesis using b(1) le by (auto simp: def min_def old)
  next
    case False
    have w: "u \<le> w" "w \<le> seq" "seq = w + seq mod ps" using b(4) [OF False] by (simp_all add: w_def)
    have n1: "min seq u - pre = u - pre" using False by simp
    consider "i < s" | "s + (seq - pre) \<le> i" | "s \<le> i" "i < s + (u - pre)"
      | "s + (u - pre) \<le> i" "i < s + (w - pre)" | "s + (w - pre) \<le> i" "i < s + (seq - pre)" by linarith
    then show ?thesis
    proof cases
      case 3
      then have "i < s + (w - pre)" "i < s + (seq - pre)" "pre + (i - s) < u" using w b(1) by linarith+
      then show ?thesis using 3 by (auto simp: def n1 old)
    next
      case 4
      then have "pre + (i - s) = u + (i - (s + (u - pre)))" using b(1) by linarith
      note t = token_slot_new [OF ps this [unfolded u_def], folded u_def]
      have "i < s + (seq - pre)" "s \<le> i" using 4 w b(1) by linarith+
      then show ?thesis using 4 False unfolding def n1 t by auto
    next
      case 5
      then have "pre + (i - s) = u + ((w - u) + (i - (s + (w - pre))))" using b(1) w by linarith
      note t = token_slot_new [OF ps this [unfolded u_def], folded u_def]
      have x: "w - u = (seq div ps - cdiv pre ps) * ps" by (simp add: w_def u_def diff_mult_distrib)
      have "i - (s + (w - pre)) < seq mod ps" using 5 w b(1) by linarith
      moreover from this have "i - (s + (w - pre)) < ps" using ps by (meson mod_less_divisor order_less_trans)
      ultimately have t': "token_slot ps pre ll pages (pre + (i - s))
          = pages (seq div ps - cdiv pre ps) * ps + (i - (s + (w - pre)))" "seq mod ps \<noteq> 0"
        using ps unfolding t x by simp_all
      have "s \<le> i" using 5 by linarith
      then show ?thesis using 5 False t'(2) unfolding def t'(1) by auto
    qed (use w b(1) False in \<open>auto simp: def n1\<close>)
  qed
qed

lemma alloc_extend_kernel_step:
  assumes ok: "batch_ok ps pre seq ll" and r: "r < length pre" and bu: "length pre \<le> bu"
    and lanes: "\<And>j. useq j = upre j" and i: "i < length out"
  shows "alloc_extend_kernel useq upre pre seq ll page bu ps r out ! i
    = three_parts ps (pre ! r) (seq ! r) (ll ! r) (\<lambda>k. page (seg_start (new_pages ps pre seq) r + k))
        (seg_start (ext_lens pre seq) r) out i"
proof -
  note b = batch_okD [OF ok]
  define s where "s = seg_start (ext_lens pre seq) r"
  define q where "q = seg_start (new_pages ps pre seq) r"
  define u where "u = cdiv (pre ! r) ps * ps"
  define w where "w = seq ! r div ps * ps"
  define n1 where "n1 = min (seq ! r) u - pre ! r"
  define o1 where "o1 = tl_store s ps (\<lambda>x. x < n1) (\<lambda>x. nat (ll ! r + 1 + int x)) out"
  define o2 where "o2 = blocked_store 4096 (w - u) (s + n1) (\<lambda>x. page (q + x div ps) * ps + x mod ps) o1"
  define o3 where "o3 = tl_store (s + n1 + (w - u)) ps (\<lambda>x. x < seq ! r - w)
        (\<lambda>x. page (q + (cdiv (seq ! r) ps - cdiv (pre ! r) ps) - 1) * ps + x) o2"
  note pb = part_bounds [OF b(1) b(4) [OF r], folded u_def w_def]
  have kernel: "alloc_extend_kernel useq upre pre seq ll page bu ps r out =
     (if seq ! r \<le> u then o1 else if pre ! r + n1 + (w - u) = seq ! r then o2 else o3)"
    unfolding alloc_extend_kernel_def Let_def cdiv_def [symmetric] kernel_offsets [OF ok r bu lanes]
      s_def [symmetric] q_def [symmetric] u_def [symmetric] w_def [symmetric] n1_def [symmetric]
      o1_def [symmetric] o2_def [symmetric] o3_def [symmetric] pb(3) [folded n1_def] by (rule refl)
  note spec = three_parts_def [of ps "pre ! r" "seq ! r", folded u_def w_def, unfolded Let_def, folded n1_def]
  have len: "length o1 = length out" "length o2 = length out" by (simp_all add: o1_def o2_def)
  have n1_ps: "n1 \<le> ps" using pb(1,2) by (auto simp: n1_def min_def)
  have at1: "o1 ! i = (if s \<le> i \<and> i < s + n1 then nat (ll ! r + 1 + int (i - s)) else out ! i)"
    using i n1_ps by (auto simp: o1_def tl_store_nth)
  have at2: "o2 ! i = (if s + n1 \<le> i \<and> i < s + n1 + (w - u) then
      page (q + (i - (s + n1)) div ps) * ps + (i - (s + n1)) mod ps else o1 ! i)"
    using i len by (simp add: o2_def blocked_store_nth)
  show ?thesis
  proof (cases "seq ! r \<le> u")
    case True
    then show ?thesis by (simp add: kernel spec at1 s_def [symmetric])
  next
    case False
    have w: "u \<le> w" "w \<le> seq ! r" "seq ! r = w + seq ! r mod ps" "seq ! r - w = seq ! r mod ps"
      using pb(4) [OF False] by (simp_all add: w_def minus_div_mult_eq_mod)
    have n1: "n1 = u - pre ! r" using False by (simp add: n1_def)
    then have e2: "s + n1 + (w - u) = s + (w - pre ! r)" using w(1) pb(1) by linarith
    have fin: "pre ! r + n1 + (w - u) = seq ! r \<longleftrightarrow> seq ! r mod ps = 0" using n1 w pb(1) by linarith
    have at3: "o3 ! i = (if s + (w - pre ! r) \<le> i \<and> i < s + (seq ! r - pre ! r)
        then page (q + (seq ! r div ps - cdiv (pre ! r) ps)) * ps + (i - (s + (w - pre ! r))) else o2 ! i)"
      if "seq ! r mod ps \<noteq> 0"
    proof -
      have pg: "q + (cdiv (seq ! r) ps - cdiv (pre ! r) ps) - 1 = q + (seq ! r div ps - cdiv (pre ! r) ps)"
        using pb(5,6) [OF False that] by linarith
      have "i < s + (w - pre ! r) + ps \<and> i - (s + (w - pre ! r)) < seq ! r - w \<longleftrightarrow> i < s + (seq ! r - pre ! r)"
        if "s + (w - pre ! r) \<le> i" using that w pb(1) mod_less_divisor [OF b(1), of "seq ! r"] by linarith
      then show ?thesis unfolding o3_def e2 pg using i len by (simp only: tl_store_nth) auto
    qed
    show ?thesis
      using False at2 at3 unfolding kernel fin spec at1 e2 s_def [symmetric] q_def [symmetric] by auto
  qed
qed

lemma length_alloc_extend_kernel [simp]:
  "length (alloc_extend_kernel useq upre pre seq ll page bu ps r out) = length out"
  by (simp add: alloc_extend_kernel_def Let_def)

lemma three_parts_layout:
  assumes ok: "batch_ok ps pre seq ll" and r: "r < length pre" and i: "i < sum_list (ext_lens pre seq)"
  shows "three_parts ps (pre ! r) (seq ! r) (ll ! r) (\<lambda>k. page (seg_start (new_pages ps pre seq) r + k))
      (seg_start (ext_lens pre seq) r) out i
    = (if seg_start (ext_lens pre seq) r \<le> i \<and> i < seg_start (ext_lens pre seq) (Suc r)
       then layout ps pre seq ll page i else out ! i)"
proof -
  note b = batch_okD [OF ok]
  have "seg_start (ext_lens pre seq) (Suc r) = seg_start (ext_lens pre seq) r + (seq ! r - pre ! r)"
    using r b(2) by (simp add: seg_start_Suc)
  then show ?thesis
    using layout_in_segment [OF ok r, of i] unfolding three_parts_slot [OF b(1) b(4) [OF r]] token_at_def by auto
qed

lemma extend_kernel_layout:
  assumes ok: "batch_ok ps pre seq ll" and bu: "length pre \<le> bu" and lanes: "\<And>j. useq j = upre j"
    and out: "length out = sum_list (ext_lens pre seq)"
  shows "launch (length pre) (alloc_extend_kernel useq upre pre seq ll page bu ps) out
    = map (layout ps pre seq ll page) [0..<sum_list (ext_lens pre seq)]"
proof -
  have len: "length (ext_lens pre seq) = length pre" using batch_okD(2) [OF ok] by simp
  have "launch (length (ext_lens pre seq)) (alloc_extend_kernel useq upre pre seq ll page bu ps) out
    = map (layout ps pre seq ll page) [0..<sum_list (ext_lens pre seq)]"
    by (rule launch_segments)
      (simp_all only: len out length_alloc_extend_kernel alloc_extend_kernel_step [OF ok _ bu lanes] three_parts_layout [OF ok])
  then show ?thesis unfolding len .
qed

section \<open>The reference loop\<close>

lemma concat_page_range_nth:
  "k < length ps1 * ps \<Longrightarrow> concat (map (\<lambda>p. map (\<lambda>k. p * ps + k) [0..<ps]) ps1) ! k = ps1 ! (k div ps) * ps + k mod ps"
proof (induction ps1 arbitrary: k)
  case (Cons p ps1)
  show ?case
  proof (cases "k < ps")
    case True
    then show ?thesis by (simp add: nth_append)
  next
    case False
    then have "0 < ps" using Cons.prems by (cases ps) auto
    then have "k div ps = Suc ((k - ps) div ps)" "k mod ps = (k - ps) mod ps"
      using False by (simp_all add: le_div_geq le_mod_geq)
    with False Cons show ?thesis by (simp add: nth_append)
  qed
qed simp

lemma length_concat_page_range: "length (concat (map (\<lambda>p. map (\<lambda>k. p * ps + k) [0..<ps]) ps1)) = length ps1 * ps"
  by (induction ps1) auto

lemma cumsum_seg_start: "r < length lens \<Longrightarrow> cumsum lens ! r = seg_start lens (Suc r)"
  by (simp add: cumsum_nth seg_start_def)

lemma start_seg_start: "r < length lens \<Longrightarrow> map2 (-) (cumsum lens) lens ! r = seg_start lens r"
  by (simp add: cumsum_seg_start seg_start_Suc)

lemma length_alloc_extend_naive_step [simp]:
  "length (alloc_extend_naive_step ps pre seq ll fp r out) = length out"
  by (simp add: alloc_extend_naive_step_def Let_def)

lemma alloc_extend_naive_step_parts:
  assumes ok: "batch_ok ps pre seq ll" and r: "r < length pre" and i: "i < length out"
    and enough: "seg_start (new_pages ps pre seq) (Suc r) \<le> length fp"
  shows "alloc_extend_naive_step ps pre seq ll fp r out ! i
    = three_parts ps (pre ! r) (seq ! r) (ll ! r) (\<lambda>k. fp ! (seg_start (new_pages ps pre seq) r + k))
        (seg_start (ext_lens pre seq) r) out i"
proof -
  note b = batch_okD [OF ok]
  define s where "s = seg_start (ext_lens pre seq) r"
  define q where "q = seg_start (new_pages ps pre seq) r"
  define u where "u = cdiv (pre ! r) ps * ps"
  define w where "w = seq ! r div ps * ps"
  define n1 where "n1 = min (seq ! r) u - pre ! r"
  define m where "m = seq ! r div ps - cdiv (pre ! r) ps"
  define o1 where "o1 = (if n1 \<noteq> 0 then set_slice out s (map (\<lambda>k. nat (ll ! r + 1 + int k)) [0..<n1]) else out)"
  define o2 where "o2 = (if m * ps \<noteq> 0 then set_slice o1 (s + n1)
      (concat (map (\<lambda>p. map (\<lambda>k. p * ps + k) [0..<ps]) (slice fp q
        (nat (int (q + (cdiv (seq ! r) ps - cdiv (pre ! r) ps))
          - (int (cdiv (seq ! r) ps - cdiv (pre ! r) ps) - (int (seq ! r div ps) - int (cdiv (pre ! r) ps)))))))) else o1)"
  define o3 where "o3 = (if seq ! r - w \<noteq> 0 then set_slice o2 (s + (seq ! r - pre ! r) - (seq ! r - w))
      (map (\<lambda>k. fp ! (q + (cdiv (seq ! r) ps - cdiv (pre ! r) ps) - 1) * ps + k) [0..<seq ! r - w]) else o2)"
  note pb = part_bounds [OF b(1) b(4) [OF r], folded u_def w_def]
  have ends: "seg_start (ext_lens pre seq) (Suc r) = s + (seq ! r - pre ! r)"
    "seg_start (new_pages ps pre seq) (Suc r) = q + (cdiv (seq ! r) ps - cdiv (pre ! r) ps)"
    using r b(2) by (simp_all add: s_def q_def seg_start_Suc)
  have idx: "cumsum (ext_lens pre seq) ! r = s + (seq ! r - pre ! r)"
    "map2 (-) (cumsum (ext_lens pre seq)) (ext_lens pre seq) ! r = s"
    "cumsum (new_pages ps pre seq) ! r = q + (cdiv (seq ! r) ps - cdiv (pre ! r) ps)"
    "map2 (-) (cumsum (new_pages ps pre seq)) (new_pages ps pre seq) ! r = q"
    using r b(2) by (simp_all only: cumsum_seg_start start_seg_start ext_lens_simps new_pages_simps ends s_def q_def)
  have need: "map2 (\<lambda>n f. int n - f) (new_pages ps pre seq)
      (map2 (\<lambda>s p. int (s div ps) - int (cdiv p ps)) seq pre) ! r
    = int (cdiv (seq ! r) ps - cdiv (pre ! r) ps) - (int (seq ! r div ps) - int (cdiv (pre ! r) ps))"
    using r b(2) by simp
  have step: "alloc_extend_naive_step ps pre seq ll fp r out =
     (if seq ! r \<le> u then o1 else if pre ! r + n1 + m * ps = seq ! r then o2 else o3)"
    unfolding alloc_extend_naive_step_def Let_def cdiv_def [symmetric] ext_lens_def [of pre seq, symmetric]
      new_pages_def [of ps pre seq, symmetric] idx need
      u_def [symmetric] w_def [symmetric] n1_def [symmetric] m_def [symmetric]
      o1_def [symmetric] o2_def [symmetric] o3_def [symmetric] pb(3) [folded n1_def] by (rule refl)
  note spec = three_parts_def [of ps "pre ! r" "seq ! r", folded u_def w_def m_def, unfolded Let_def, folded n1_def]
  have len: "length o1 = length out" "length o2 = length out" by (simp_all add: o1_def o2_def)
  have at1: "o1 ! i = (if s \<le> i \<and> i < s + n1 then nat (ll ! r + 1 + int (i - s)) else out ! i)"
    using i by (auto simp: o1_def)
  show ?thesis
  proof (cases "seq ! r \<le> u")
    case True
    then show ?thesis by (simp add: step spec at1 s_def [symmetric])
  next
    case False
    have w: "u \<le> w" "w \<le> seq ! r" "seq ! r = w + seq ! r mod ps" "seq ! r - w = seq ! r mod ps"
      using pb(4) [OF False] by (simp_all add: w_def minus_div_mult_eq_mod)
    have mps: "m * ps = w - u" by (simp add: m_def w_def u_def diff_mult_distrib)
    have n1: "n1 = u - pre ! r" using False by (simp add: n1_def)
    then have e2: "s + n1 + (w - u) = s + (w - pre ! r)" using w(1) pb(1) by linarith
    have fin: "pre ! r + n1 + m * ps = seq ! r \<longleftrightarrow> seq ! r mod ps = 0" using n1 w pb(1) mps by linarith
    have cle: "cdiv (pre ! r) ps \<le> seq ! r div ps" using w(1) b(1) by (simp add: u_def w_def)
    have sle: "seq ! r div ps \<le> cdiv (seq ! r) ps" using cdiv_eq [OF b(1), of "seq ! r"] by auto
    have bound: "nat (int (q + (cdiv (seq ! r) ps - cdiv (pre ! r) ps))
          - (int (cdiv (seq ! r) ps - cdiv (pre ! r) ps) - (int (seq ! r div ps) - int (cdiv (pre ! r) ps)))) = q + m"
      using cle sle by (simp add: m_def)
    have fits: "q + m \<le> length fp" using enough unfolding ends m_def using cle sle by linarith
    have sl: "length (slice fp q (q + m)) = m" "\<And>k. k < m \<Longrightarrow> slice fp q (q + m) ! k = fp ! (q + k)"
      using fits by (simp_all add: slice_def)
    define V where "V = concat (map (\<lambda>p. map (\<lambda>k. p * ps + k) [0..<ps]) (slice fp q (q + m)))"
    have V: "length V = m * ps" "\<And>k. k < m * ps \<Longrightarrow> V ! k = fp ! (q + k div ps) * ps + k mod ps"
      using sl b(1) by (simp_all add: V_def length_concat_page_range concat_page_range_nth div_less_iff_less_mult)
    have o2: "o2 = (if m * ps \<noteq> 0 then set_slice o1 (s + n1) V else o1)" unfolding o2_def bound V_def by (rule refl)
    have e3: "s + n1 + m * ps = s + (w - pre ! r)" using e2 mps by simp
    have at2: "o2 ! i = (if s + n1 \<le> i \<and> i < s + n1 + m * ps then
        fp ! (q + (i - (s + n1)) div ps) * ps + (i - (s + n1)) mod ps else o1 ! i)"
    proof (cases "s + n1 \<le> i \<and> i < s + n1 + m * ps")
      case True
      then have "i - (s + n1) < m * ps" by linarith
      with True V i len show ?thesis by (auto simp: o2)
    qed (use V i len in \<open>auto simp: o2\<close>)
    have at3: "o3 ! i = (if s + (w - pre ! r) \<le> i \<and> i < s + (seq ! r - pre ! r)
        then fp ! (q + m) * ps + (i - (s + (w - pre ! r))) else o2 ! i)" if "seq ! r mod ps \<noteq> 0"
    proof -
      have pg: "q + (cdiv (seq ! r) ps - cdiv (pre ! r) ps) - 1 = q + m"
        using pb(5,6) [OF False that] unfolding m_def by linarith
      have st: "s + (seq ! r - pre ! r) - (seq ! r - w) = s + (w - pre ! r)" using w pb(1) by linarith
      show ?thesis unfolding o3_def pg st using that i len w pb(1) by (auto simp: w(4))
    qed
    show ?thesis
      using False at2 [unfolded e3] at3 unfolding step fin spec at1 s_def [symmetric] q_def [symmetric] by auto
  qed
qed

lemma seg_start_mono: "a \<le> b \<Longrightarrow> seg_start lens a \<le> seg_start lens b"
  unfolding seg_start_def by (metis le_add1 le_iff_add sum_list_append take_add)

lemma alloc_extend_naive_layout:
  assumes ok: "batch_ok ps pre seq ll" and enough: "sum_list (new_pages ps pre seq) \<le> length fp"
    and out: "length out = sum_list (ext_lens pre seq)"
  shows "alloc_extend_naive ps pre seq ll fp out
    = map (layout ps pre seq ll (\<lambda>k. fp ! k)) [0..<sum_list (ext_lens pre seq)]"
proof -
  have len: "length (ext_lens pre seq) = length pre" using batch_okD(2) [OF ok] by simp
  have fits: "seg_start (new_pages ps pre seq) (Suc r) \<le> length fp" for r
    using seg_start_le enough by (rule order_trans)
  have "launch (length (ext_lens pre seq)) (alloc_extend_naive_step ps pre seq ll fp) out
    = map (layout ps pre seq ll (\<lambda>k. fp ! k)) [0..<sum_list (ext_lens pre seq)]"
    by (rule launch_segments)
      (simp_all only: len out length_alloc_extend_naive_step alloc_extend_naive_step_parts [OF ok _ _ fits]
        three_parts_layout [OF ok])
  then show ?thesis by (simp only: len launch_def alloc_extend_naive_def)
qed

section \<open>Decoding\<close>

text \<open>A decode step extends every request by one token.\<close>

definition decode_pre :: "nat list \<Rightarrow> nat list" where
  "decode_pre seq = map (\<lambda>s. s - 1) seq"

lemma decode_batch_ok: "0 < ps \<Longrightarrow> length ll = length seq \<Longrightarrow> batch_ok ps (decode_pre seq) seq ll"
  by (simp add: batch_ok_def decode_pre_def)

lemma decode_pre_simps [simp]:
  "length (decode_pre seq) = length seq" "r < length seq \<Longrightarrow> decode_pre seq ! r = seq ! r - 1"
  by (simp_all add: decode_pre_def)

lemma decode_ext: "\<forall>s \<in> set seq. 0 < s \<Longrightarrow> ext_lens (decode_pre seq) seq = replicate (length seq) (Suc 0)"
proof (rule nth_equalityI)
  fix i assume pos: "\<forall>s \<in> set seq. 0 < s" and "i < length (ext_lens (decode_pre seq) seq)"
  then have i: "i < length seq" by (simp add: ext_lens_def)
  then have "0 < seq ! i" using pos by simp
  then show "ext_lens (decode_pre seq) seq ! i = replicate (length seq) (Suc 0) ! i"
    using i by (simp add: ext_lens_def)
qed (simp add: ext_lens_def)

lemma seg_start_ones [simp]: "r \<le> n \<Longrightarrow> seg_start (replicate n (Suc 0)) r = r"
  by (simp add: seg_start_def sum_list_replicate)

lemma seg_of_ones [simp]: "i < n \<Longrightarrow> seg_of (replicate n (Suc 0)) ! i = i"
  by (rule seg_of_unique) (simp_all add: sum_list_replicate)

lemma decode_offset:
  fixes useq :: "nat \<Rightarrow> int"
  assumes ps: "0 < ps" and r: "r < length seq" and bu: "length seq \<le> bu" and pos: "\<forall>s \<in> set seq. 0 < s"
  defines "S \<equiv> map (\<lambda>j. if j \<le> r then int (seq ! j) else useq j) [0..<bu]"
  shows "nat (sum_list (map2 (-) (map (\<lambda>s. (s + int ps - 1) div int ps) S)
          (map (\<lambda>p. (p + int ps - 1) div int ps) (map (\<lambda>(j, s). if j \<le> r then s - 1 else s) (zip [0..<bu] S))))
        - int (cdiv (seq ! r) ps - cdiv (seq ! r - 1) ps))
      = seg_start (new_pages ps (decode_pre seq) seq) r"
proof -
  have cd: "(int x + int ps - 1) div int ps = int (cdiv x ps)" for x
    using ps by (simp add: cdiv_def zdiv_int of_nat_diff)
  have z: "map2 f (map g [0..<bu]) (map h [0..<bu]) = map (\<lambda>j. f (g j) (h j)) [0..<bu]"
    for f :: "int \<Rightarrow> int \<Rightarrow> int" and g h
    by (simp add: zip_map_map map_zip_map2 zip_same_conv_map)
  have P: "map (\<lambda>(j, s). if j \<le> r then s - 1 else s) (zip [0..<bu] S)
      = map (\<lambda>j. if j \<le> r then int (seq ! j) - 1 else useq j) [0..<bu]"
    unfolding S_def by (rule nth_equalityI) auto
  have pre: "int (seq ! j) - 1 = int (seq ! j - 1)" if "j \<le> r" for j
    using pos r that by (simp add: of_nat_diff Suc_le_eq)
  have "sum_list (map2 (-) (map (\<lambda>s. (s + int ps - 1) div int ps) S)
          (map (\<lambda>p. (p + int ps - 1) div int ps) (map (\<lambda>(j, s). if j \<le> r then s - 1 else s) (zip [0..<bu] S))))
      = (\<Sum>j\<le>r. int (new_pages ps (decode_pre seq) seq ! j))"
    unfolding P unfolding S_def map_map z using r bu
    by (subst sum_map_lanes [of r])
      (auto simp: of_nat_diff cdiv_mono cd pre decode_pre_def intro!: sum.cong)
  then show ?thesis
    using seg_start_sum [of r "new_pages ps (decode_pre seq) seq"] r
    by (simp add: seg_start_Suc decode_pre_def)
qed

lemma decode_kernel_layout:
  assumes ps: "0 < ps" and ll: "length ll = length seq" and bu: "length seq \<le> bu"
    and pos: "\<forall>s \<in> set seq. 0 < s" and out: "length out = length seq"
  shows "launch (length seq) (alloc_decode_kernel useq seq ll page bu ps) out
    = map (layout ps (decode_pre seq) seq ll page) [0..<length seq]"
proof -
  let ?lens = "replicate (length seq) (Suc 0)"
  have step: "alloc_decode_kernel useq seq ll page bu ps r m = m[r := layout ps (decode_pre seq) seq ll page r]"
    if r: "r < length seq" for r m
  proof -
    define s where "s = seq ! r"
    define c where "c = cdiv (s - 1) ps"
    have s: "0 < s" using pos r by (simp add: s_def)
    have lay: "layout ps (decode_pre seq) seq ll page r = token_slot ps (s - 1) (ll ! r)
        (\<lambda>k. page (seg_start (new_pages ps (decode_pre seq) seq) r + k)) (s - 1)"
      using r by (simp add: layout_def decode_ext [OF pos] s_def)
    have new: "cdiv s ps - c = 0 \<longleftrightarrow> s - 1 < c * ps"
      using cdiv_le_iff [OF ps, of s c] s by (simp add: Suc_le_eq [symmetric])
    have "(s - 1) div ps = c \<and> (s - 1) mod ps = 0" if "\<not> s - 1 < c * ps"
    proof -
      have "s - 1 = c * ps" using cdiv_mult_ge [OF ps, of "s - 1"] that unfolding c_def by linarith
      then show ?thesis using ps by (metis div_mult_self_is_m mod_mult_self2_is_0)
    qed
    then have slot: "token_slot ps (s - 1) (ll ! r) pg (s - 1)
        = (if cdiv s ps - c = 0 then nat (ll ! r + 1) else pg 0 * ps)" for pg
      unfolding new token_slot_def c_def [symmetric] by auto
    show ?thesis
      unfolding alloc_decode_kernel_def Let_def cdiv_def [symmetric] decode_offset [OF ps r bu pos, folded s_def]
        lay slot [unfolded c_def] s_def [symmetric] by simp
  qed
  have "launch (length ?lens) (alloc_decode_kernel useq seq ll page bu ps) out
      = map (layout ps (decode_pre seq) seq ll page) [0..<sum_list ?lens]"
    by (rule launch_segments)
      (auto simp: step out sum_list_replicate nth_list_update less_Suc_eq)
  then show ?thesis by (simp add: sum_list_replicate)
qed

end
