(* ===== verification/Paged_Props.thy ===== *)
theory Paged_Props
  imports Paged_Layout
begin

text \<open>
  Ownership of pages in \<open>PagedTokenToKVPoolAllocator\<close>, and what the layout of \<open>Paged_Layout\<close> means for
  it: the slots handed out for a batch are pairwise distinct, congruent to the token positions
  modulo the page size, and lie in pages the requests own.
\<close>

section \<open>Page and offset of a token\<close>










section \<open>Page ownership\<close>


lemma pg_merge_simps [simp]:
  "page_size (merge_and_sort_free a) = page_size a"
  "num_pages (merge_and_sort_free (a :: paged_state)) = num_pages a"
  "debug_mode (merge_and_sort_free a) = debug_mode a"
  by (auto simp: merge_and_sort_free_def)










section \<open>Properties\<close>











section \<open>Decoding and accounting\<close>











end
