(* ===== verification/Radix_Node.thy ===== *)
theory Radix_Node
  imports Prelude "HOL-Library.AList"
begin

text \<open>
  The data of \<open>srt/mem_cache/radix_cache.py\<close>: \<open>RadixKey\<close>, \<open>TreeNode\<close>, the key comparison and child
  key functions, and the position-aware page hashes, with the two hash helpers of
  \<open>srt/mem_cache/hicache_storage.py\<close> and \<open>convert_to_bigram_key\<close> of \<open>srt/mem_cache/utils.py\<close>.

  A \<open>TreeNode\<close> is known by its \<open>id\<close>, its position in the list of all nodes created so far (the class
  counter hands the ids out in that order).  The clock \<open>time.monotonic()\<close>, the digest
  \<open>hashlib.sha256\<close> and the iteration order of a Python set come from the run-time environment and are
  parameters, the fields of \<open>rt_env\<close>.
\<close>

section \<open>Environment\<close>

record rt_env =
  monotonic :: "nat \<Rightarrow> int"
  sha256_hex :: "nat list \<Rightarrow> string"
  set_order :: "nat set \<Rightarrow> nat list"

section \<open>Keys\<close>

text \<open>A token of a key: a token id, or a pair of neighbouring ids in EAGLE mode.\<close>

datatype tok = Tok int | Bigram int int

record radix_key =
  token_ids :: "tok list"
  extra_key :: "string option"
  is_bigram :: bool

definition RadixKey :: "tok list \<Rightarrow> string option \<Rightarrow> bool \<Rightarrow> radix_key" where
  "RadixKey ts e b = \<lparr>token_ids = ts, extra_key = e, is_bigram = b\<rparr>"

definition key_len :: "radix_key \<Rightarrow> nat" where
  "key_len k = length (token_ids k)"

text \<open>\<open>key[:n]\<close> and \<open>key[n:]\<close>: a slice keeps the namespace and drops the bigram flag.\<close>

definition key_take :: "nat \<Rightarrow> radix_key \<Rightarrow> radix_key" where
  "key_take n k = RadixKey (take n (token_ids k)) (extra_key k) False"

definition key_drop :: "nat \<Rightarrow> radix_key \<Rightarrow> radix_key" where
  "key_drop n k = RadixKey (drop n (token_ids k)) (extra_key k) False"

fun bigrams :: "tok list \<Rightarrow> tok list" where
  "bigrams (Tok a # Tok b # ts) = Bigram a b # bigrams (Tok b # ts)"
| "bigrams _ = []"

definition convert_to_bigram_key :: "tok list \<Rightarrow> tok list" where
  "convert_to_bigram_key ts = (case ts of Bigram a b # _ \<Rightarrow> ts | _ \<Rightarrow> if length ts < 2 then [] else bigrams ts)"

definition maybe_bigram_convert :: "bool \<Rightarrow> radix_key \<Rightarrow> slot list option \<Rightarrow> radix_key \<times> slot list option" where
  "maybe_bigram_convert is_eagle key val =
     (if is_eagle \<and> \<not> is_bigram key
      then let key = key\<lparr>token_ids := convert_to_bigram_key (token_ids key), is_bigram := True\<rparr> in
           (key, map_option (take (key_len key)) val)
      else (key, val))"

definition page_align_keys :: "'a list \<Rightarrow> nat \<Rightarrow> 'a list" where
  "page_align_keys key ps = (if ps = 1 then key else take (length key div ps * ps) key)"

definition check_extra_key :: "radix_key \<Rightarrow> radix_key \<Rightarrow> unit res" where
  "check_extra_key key0 key1 = (if extra_key key0 \<noteq> extra_key key1 then raise ValueError else ret ())"

fun match_len :: "tok list \<Rightarrow> tok list \<Rightarrow> nat" where
  "match_len (a # as) (b # bs) = (if a \<noteq> b then 0 else Suc (match_len as bs))"
| "match_len _ _ = 0"

definition key_match_page_size1 :: "radix_key \<Rightarrow> radix_key \<Rightarrow> nat res" where
  "key_match_page_size1 key0 key1 =
     rbind (check_extra_key key0 key1) (\<lambda>_. ret (match_len (token_ids key0) (token_ids key1)))"

partial_function (option) match_pages :: "nat \<Rightarrow> tok list \<Rightarrow> tok list \<Rightarrow> nat \<Rightarrow> nat \<Rightarrow> nat res" where
  "match_pages ps t0 t1 min_len i =
     (if i < min_len
      then if slice t0 i (i + ps) \<noteq> slice t1 i (i + ps) then ret i
           else match_pages ps t0 t1 min_len (i + ps)
      else ret i)"

definition key_match_paged :: "radix_key \<Rightarrow> radix_key \<Rightarrow> nat \<Rightarrow> nat res" where
  "key_match_paged key0 key1 ps =
     rbind (check_extra_key key0 key1) (\<lambda>_.
       match_pages ps (token_ids key0) (token_ids key1) (min (key_len key0) (key_len key1)) 0)"

definition key_match_fn :: "nat \<Rightarrow> radix_key \<Rightarrow> radix_key \<Rightarrow> nat res" where
  "key_match_fn ps key0 key1 =
     (if ps = 1 then key_match_page_size1 key0 key1 else key_match_paged key0 key1 ps)"

text \<open>The key of a child in its parent's dictionary: a token or a page of tokens, tagged with the
  namespace if there is one.\<close>

datatype plain_key = One tok | Page "tok list"

type_synonym child_key = "string option \<times> plain_key"

definition get_child_key :: "nat \<Rightarrow> radix_key \<Rightarrow> child_key res" where
  "get_child_key ps key =
     (if ps = 1
      then case token_ids key of [] \<Rightarrow> raise IndexError | t # _ \<Rightarrow> ret (extra_key key, One t)
      else ret (extra_key key, Page (take ps (token_ids key))))"

section \<open>Nodes\<close>

record tree_node =
  n_children :: "(child_key \<times> nat) list"
  n_parent :: "nat option"
  n_key :: radix_key
  n_value :: "slot list option"
  n_lock_ref :: int
  n_last_access :: int
  n_creation :: int
  n_hit_count :: int
  n_host_ref_counter :: int
  n_host_value :: "slot list option"
  n_hash_value :: "string list option"
  n_priority :: int

text \<open>\<open>TreeNode(priority)\<close>, with the two clock readings; the key is assigned by every caller.\<close>

definition TreeNode :: "int \<Rightarrow> int \<Rightarrow> int \<Rightarrow> tree_node" where
  "TreeNode priority t0 t1 =
     \<lparr>n_children = [], n_parent = None, n_key = RadixKey [] None False, n_value = None, n_lock_ref = 0,
      n_last_access = t0, n_creation = t1, n_hit_count = 0, n_host_ref_counter = 0, n_host_value = None,
      n_hash_value = None, n_priority = priority\<rparr>"

definition evicted :: "tree_node \<Rightarrow> bool" where
  "evicted x \<longleftrightarrow> n_value x = None"

definition backuped :: "tree_node \<Rightarrow> bool" where
  "backuped x \<longleftrightarrow> n_host_value x \<noteq> None"

definition protect_host :: "tree_node \<Rightarrow> tree_node" where
  "protect_host x = x\<lparr>n_host_ref_counter := n_host_ref_counter x + 1\<rparr>"

definition release_host :: "tree_node \<Rightarrow> tree_node res" where
  "release_host x =
     (if n_host_ref_counter x > 0 then ret (x\<lparr>n_host_ref_counter := n_host_ref_counter x - 1\<rparr>)
      else raise RuntimeError)"

definition get_last_hash_value :: "tree_node \<Rightarrow> string option" where
  "get_last_hash_value x =
     (case n_hash_value x of None \<Rightarrow> None | Some hs \<Rightarrow> if length hs = 0 then None else Some (last hs))"

text \<open>\<open>get_prefix_hash_values(node)\<close>: the page hashes of a node and of all its ancestors.\<close>

partial_function (option) get_prefix_hash_values :: "tree_node list \<Rightarrow> nat option \<Rightarrow> string list res" where
  "get_prefix_hash_values nodes node =
     (case node of None \<Rightarrow> ret []
      | Some i \<Rightarrow>
          (case n_hash_value (nodes ! i) of None \<Rightarrow> ret []
           | Some hs \<Rightarrow> rbind (get_prefix_hash_values nodes (n_parent (nodes ! i))) (\<lambda>ps. ret (ps @ hs))))"

text \<open>Reading \<open>node.value\<close> as a tensor.\<close>

definition value_of :: "tree_node \<Rightarrow> slot list res" where
  "value_of x = (case n_value x of None \<Rightarrow> raise TypeError | Some v \<Rightarrow> ret v)"

section \<open>Page hashes\<close>

definition hex_val :: "char \<Rightarrow> nat option" where
  "hex_val c = (let n = of_char c :: nat in
     if 48 \<le> n \<and> n \<le> 57 then Some (n - 48)
     else if 97 \<le> n \<and> n \<le> 102 then Some (n - 87)
     else if 65 \<le> n \<and> n \<le> 70 then Some (n - 55) else None)"

text \<open>\<open>bytes.fromhex(s)\<close> and \<open>int(s, 16)\<close> on strings of hexadecimal digits\<close>

fun bytes_fromhex :: "string \<Rightarrow> nat list res" where
  "bytes_fromhex [] = ret []"
| "bytes_fromhex [c] = raise ValueError"
| "bytes_fromhex (c # d # s) =
     (case (hex_val c, hex_val d) of
        (Some a, Some b) \<Rightarrow> rbind (bytes_fromhex s) (\<lambda>bs. ret ((16 * a + b) # bs))
      | _ \<Rightarrow> raise ValueError)"

fun int_hex_from :: "int \<Rightarrow> string \<Rightarrow> int res" where
  "int_hex_from acc [] = ret acc"
| "int_hex_from acc (c # s) =
     (case hex_val c of None \<Rightarrow> raise ValueError | Some a \<Rightarrow> int_hex_from (16 * acc + int a) s)"

definition int_hex :: "string \<Rightarrow> int res" where
  "int_hex s = (if s = [] then raise ValueError else int_hex_from 0 s)"

text \<open>\<open>t.to_bytes(4, byteorder="little", signed=False)\<close>\<close>

definition to_bytes4 :: "int \<Rightarrow> nat list res" where
  "to_bytes4 t =
     (if 0 \<le> t \<and> t < 2 ^ 32 then ret (map (\<lambda>i. nat (t div 256 ^ i mod 256)) [0..<4])
      else raise OverflowError)"

fun tok_bytes :: "tok \<Rightarrow> nat list res" where
  "tok_bytes (Tok t) = to_bytes4 t"
| "tok_bytes (Bigram a b) = rbind (to_bytes4 a) (\<lambda>xs. rbind (to_bytes4 b) (\<lambda>ys. ret (xs @ ys)))"

fun toks_bytes :: "tok list \<Rightarrow> nat list res" where
  "toks_bytes [] = ret []"
| "toks_bytes (t # ts) = rbind (tok_bytes t) (\<lambda>xs. rbind (toks_bytes ts) (\<lambda>ys. ret (xs @ ys)))"

definition get_hash_str :: "(nat list \<Rightarrow> string) \<Rightarrow> tok list \<Rightarrow> string option \<Rightarrow> string res" where
  "get_hash_str sha ts prior =
     rbind (case prior of None \<Rightarrow> ret [] | Some h \<Rightarrow> if h = [] then ret [] else bytes_fromhex h) (\<lambda>pb.
     rbind (toks_bytes ts) (\<lambda>tb. ret (sha (pb @ tb))))"

definition hash_str_to_int64 :: "string \<Rightarrow> int res" where
  "hash_str_to_int64 h =
     rbind (int_hex (take 16 h)) (\<lambda>u. ret (if u \<ge> 2 ^ 63 then u - 2 ^ 64 else u))"

text \<open>\<open>xs[start : start + ps] for start in range(0, len(xs), ps)\<close>\<close>

definition pages :: "nat \<Rightarrow> 'a list \<Rightarrow> 'a list list" where
  "pages ps xs = map (\<lambda>i. slice xs (i * ps) (i * ps + ps)) [0..<(length xs + ps - 1) div ps]"

fun chain_hashes :: "(nat list \<Rightarrow> string) \<Rightarrow> string option \<Rightarrow> tok list list \<Rightarrow> string list res" where
  "chain_hashes sha prior [] = ret []"
| "chain_hashes sha prior (p # ps) =
     (if p = [] then chain_hashes sha prior ps
      else rbind (get_hash_str sha p prior) (\<lambda>h.
           rbind (chain_hashes sha (Some h) ps) (\<lambda>hs. ret (h # hs))))"

definition compute_node_hash_values ::
  "(nat list \<Rightarrow> string) \<Rightarrow> tree_node list \<Rightarrow> nat \<Rightarrow> nat \<Rightarrow> string list res" where
  "compute_node_hash_values sha nodes node ps =
     (let parent_hash =
        (case n_parent (nodes ! node) of None \<Rightarrow> None
         | Some p \<Rightarrow>
             (case n_hash_value (nodes ! p) of None \<Rightarrow> None
              | Some hs \<Rightarrow> if key_len (n_key (nodes ! p)) > 0 \<and> length hs > 0 then Some (last hs) else None))
      in if ps = 0 then raise ValueError
         else chain_hashes sha parent_hash (pages ps (token_ids (n_key (nodes ! node)))))"

definition split_node_hash_value ::
  "string list option \<Rightarrow> nat \<Rightarrow> nat \<Rightarrow> string list option \<times> string list option" where
  "split_node_hash_value child_hash split_len ps =
     (case child_hash of None \<Rightarrow> (None, None)
      | Some hs \<Rightarrow>
          let split_pages = (if ps = 1 then split_len else split_len div ps)
          in (Some (take split_pages hs), Some (drop split_pages hs)))"

end
