(* ===== verification/Heapq.thy ===== *)
theory Heapq
  imports Prelude
begin

text \<open>
  Python's \<open>heapq\<close>, the part the eviction loop uses: \<open>heapify\<close>, \<open>heappush\<close> and \<open>heappop\<close> on a list,
  with the comparison \<open><\<close> of the elements as an argument.  The algorithms are those of the standard
  library, so ties are broken as the library breaks them.

  The lemmas show that every operation keeps the multiset of elements and the heap order, and that
  \<open>heappop\<close> takes an element that is not above any other.
\<close>

section \<open>The operations\<close>

function siftdown_from :: "('a \<Rightarrow> 'a \<Rightarrow> bool) \<Rightarrow> 'a list \<Rightarrow> nat \<Rightarrow> nat \<Rightarrow> 'a \<Rightarrow> 'a list" where
  "siftdown_from lt heap startpos pos newitem =
     (if pos > startpos
      then let parentpos = (pos - 1) div 2; parent = heap ! parentpos in
           if lt newitem parent then siftdown_from lt (heap[pos := parent]) startpos parentpos newitem
           else heap[pos := newitem]
      else heap[pos := newitem])"
  by pat_completeness auto
termination
  by (relation "measure (\<lambda>(lt, heap, startpos, pos, newitem). pos)") auto

definition siftdown :: "('a \<Rightarrow> 'a \<Rightarrow> bool) \<Rightarrow> 'a list \<Rightarrow> nat \<Rightarrow> nat \<Rightarrow> 'a list" where
  "siftdown lt heap startpos pos = siftdown_from lt heap startpos pos (heap ! pos)"

text \<open>The loop of \<open>_siftup\<close>: move the smaller child up until a leaf is reached.\<close>

definition smaller_child :: "('a \<Rightarrow> 'a \<Rightarrow> bool) \<Rightarrow> 'a list \<Rightarrow> nat \<Rightarrow> nat" where
  "smaller_child lt heap pos =
     (let childpos = 2 * pos + 1; rightpos = childpos + 1 in
      if rightpos < length heap \<and> \<not> lt (heap ! childpos) (heap ! rightpos) then rightpos else childpos)"

lemma smaller_child_bounds:
  "2 * pos + 1 < length heap \<Longrightarrow> pos < smaller_child lt heap pos \<and> smaller_child lt heap pos < length heap
   \<and> (smaller_child lt heap pos - 1) div 2 = pos"
  by (auto simp: smaller_child_def Let_def)

function bubble_up :: "('a \<Rightarrow> 'a \<Rightarrow> bool) \<Rightarrow> 'a list \<Rightarrow> nat \<Rightarrow> 'a list \<times> nat" where
  "bubble_up lt heap pos =
     (if 2 * pos + 1 < length heap
      then bubble_up lt (heap[pos := heap ! smaller_child lt heap pos]) (smaller_child lt heap pos)
      else (heap, pos))"
  by pat_completeness auto
termination
proof (relation "measure (\<lambda>(lt, heap, pos). length heap - pos)", goal_cases)
  case (2 lt heap pos)
  then show ?case using smaller_child_bounds [OF 2, of lt] by auto
qed simp

definition siftup :: "('a \<Rightarrow> 'a \<Rightarrow> bool) \<Rightarrow> 'a list \<Rightarrow> nat \<Rightarrow> 'a list" where
  "siftup lt heap pos =
     (let newitem = heap ! pos; (h, p) = bubble_up lt heap pos
      in siftdown lt (h[p := newitem]) pos p)"

definition heapify :: "('a \<Rightarrow> 'a \<Rightarrow> bool) \<Rightarrow> 'a list \<Rightarrow> 'a list" where
  "heapify lt x = fold (\<lambda>i x. siftup lt x i) (rev [0..<length x div 2]) x"

definition heappush :: "('a \<Rightarrow> 'a \<Rightarrow> bool) \<Rightarrow> 'a list \<Rightarrow> 'a \<Rightarrow> 'a list" where
  "heappush lt heap item = siftdown lt (heap @ [item]) 0 (length heap)"

definition heappop :: "('a \<Rightarrow> 'a \<Rightarrow> bool) \<Rightarrow> 'a list \<Rightarrow> 'a \<times> 'a list" where
  "heappop lt heap =
     (let lastelt = last heap; heap = butlast heap in
      if heap \<noteq> [] then (heap ! 0, siftup lt (heap[0 := lastelt]) 0) else (lastelt, heap))"

declare siftdown_from.simps [simp del] bubble_up.simps [simp del]

section \<open>Elements are kept\<close>

lemma mset_list_update: "i < length xs \<Longrightarrow> mset (xs[i := x]) = mset xs - {#xs ! i#} + {#x#}"
  by (simp add: mset_update)

lemma mset_move:
  assumes "i < length xs" "j < length xs" "i \<noteq> j"
  shows "mset (xs[i := xs ! j, j := x]) = mset (xs[i := x])"
proof -
  have "xs ! j \<in># mset xs - {#xs ! i#} + {#xs ! j#}" by simp
  then show ?thesis using assms
    by (simp add: mset_update)
qed

lemma mset_siftdown_from:
  "pos < length heap \<Longrightarrow> mset (siftdown_from lt heap s pos x) = mset (heap[pos := x])"
proof (induction lt heap s pos x rule: siftdown_from.induct)
  case (1 lt heap s pos x)
  let ?p = "(pos - 1) div 2"
  show ?case
  proof (cases "pos > s \<and> lt x (heap ! ?p)")
    case True
    then have p: "?p < pos" by auto
    then have pl: "?p < length heap" "?p \<noteq> pos" using "1.prems" by auto
    from True have "mset (siftdown_from lt heap s pos x) = mset (heap[pos := heap ! ?p, ?p := x])"
      using "1.IH" [OF _ refl refl] "1.prems" pl by (subst siftdown_from.simps) (simp add: Let_def)
    also have "\<dots> = mset (heap[pos := x])" using "1.prems" pl by (intro mset_move) auto
    finally show ?thesis .
  next
    case False
    then show ?thesis by (subst siftdown_from.simps) (auto simp: Let_def)
  qed
qed

lemma bubble_up_mset:
  "pos < length heap \<Longrightarrow> bubble_up lt heap pos = (h, p) \<Longrightarrow>
   p < length heap \<and> length h = length heap \<and> mset (h[p := x]) = mset (heap[pos := x])"
proof (induction lt heap pos arbitrary: h p rule: bubble_up.induct)
  case (1 lt heap pos)
  let ?c = "smaller_child lt heap pos"
  show ?case
  proof (cases "2 * pos + 1 < length heap")
    case True
    note cl = smaller_child_bounds [OF True, of lt]
    from "1.prems"(2) True have b: "bubble_up lt (heap[pos := heap ! ?c]) ?c = (h, p)"
      by (subst (asm) bubble_up.simps) simp
    have "p < length heap \<and> length h = length heap \<and> mset (h[p := x]) = mset (heap[pos := heap ! ?c, ?c := x])"
      using "1.IH" [OF True _ b] cl by simp
    moreover have "mset (heap[pos := heap ! ?c, ?c := x]) = mset (heap[pos := x])"
      using "1.prems" cl by (intro mset_move) auto
    ultimately show ?thesis by simp
  next
    case False
    with "1.prems" show ?thesis by (simp add: bubble_up.simps [of lt heap pos])
  qed
qed

lemma mset_siftup: "pos < length heap \<Longrightarrow> mset (siftup lt heap pos) = mset heap"
proof -
  assume pos: "pos < length heap"
  obtain h p where b: "bubble_up lt heap pos = (h, p)" by force
  from bubble_up_mset [OF pos b, of "heap ! pos"] have "p < length h" "mset (h[p := heap ! pos]) = mset heap"
    by auto
  with mset_siftdown_from [of p "h[p := heap ! pos]"] show ?thesis
    by (simp add: siftup_def siftdown_def b Let_def)
qed

lemma length_siftup: "pos < length heap \<Longrightarrow> length (siftup lt heap pos) = length heap"
  by (metis mset_siftup size_mset)

lemma mset_heappush: "mset (heappush lt heap x) = add_mset x (mset heap)"
  by (simp add: heappush_def siftdown_def mset_siftdown_from)

lemma mset_heappop:
  assumes "heap \<noteq> []" "heappop lt heap = (x, h)"
  shows "mset heap = add_mset x (mset h)"
proof (cases "butlast heap = []")
  case True
  with assms show ?thesis
    by (auto simp: heappop_def Let_def) (metis append_Nil append_butlast_last_id mset_single_iff_right)
next
  case False
  define b l where "b = butlast heap" and "l = last heap"
  have h: "heap = b @ [l]" using assms(1) by (simp add: b_def l_def)
  have "b \<noteq> []" using False by (simp add: b_def)
  then have "x = b ! 0" "h = siftup lt (b[0 := l]) 0"
    using assms(2) False by (auto simp: heappop_def Let_def b_def l_def)
  then have "mset h = mset b - {#x#} + {#l#}"
    using \<open>b \<noteq> []\<close> by (simp add: mset_siftup mset_list_update)
  moreover have "x \<in># mset b" using \<open>b \<noteq> []\<close> \<open>x = b ! 0\<close> by simp
  ultimately show ?thesis by (simp add: h)
qed

lemma mset_fold_siftup:
  "(\<forall>i\<in>set is. i < length x) \<Longrightarrow> mset (fold (\<lambda>i x. siftup lt x i) is x) = mset x"
  by (induction "is" arbitrary: x) (auto simp: mset_siftup length_siftup)

lemma mset_heapify: "mset (heapify lt x) = mset x"
  unfolding heapify_def by (rule mset_fold_siftup) auto

section \<open>The heap order\<close>

text \<open>
  \<open>hpar i\<close> is the parent position.  \<open>below s p\<close> says that \<open>p\<close> lies in the subtree of \<open>s\<close>.
  \<open>hole lt h s p\<close> says that the heap order holds below \<open>s\<close> for all pairs that do not involve the position
  \<open>p\<close>, and that the parent of \<open>p\<close> may take the place of \<open>p\<close>.
\<close>

definition hpar :: "nat \<Rightarrow> nat" where
  "hpar i = (i - 1) div 2"

definition below :: "nat \<Rightarrow> nat \<Rightarrow> bool" where
  "below s p \<longleftrightarrow> (\<exists>k. (hpar ^^ k) p = s)"

definition heap_from :: "('a \<Rightarrow> 'a \<Rightarrow> bool) \<Rightarrow> nat \<Rightarrow> 'a list \<Rightarrow> bool" where
  "heap_from lt s h \<longleftrightarrow> (\<forall>i<length h. 0 < i \<and> s \<le> hpar i \<longrightarrow> \<not> lt (h ! i) (h ! hpar i))"

definition hole :: "('a \<Rightarrow> 'a \<Rightarrow> bool) \<Rightarrow> 'a list \<Rightarrow> nat \<Rightarrow> nat \<Rightarrow> bool" where
  "hole lt h s p \<longleftrightarrow>
     below s p \<and> p < length h
     \<and> (\<forall>i<length h. 0 < i \<and> s \<le> hpar i \<and> i \<noteq> p \<and> hpar i \<noteq> p \<longrightarrow> \<not> lt (h ! i) (h ! hpar i))
     \<and> (\<forall>i<length h. 0 < i \<and> hpar i = p \<and> s < p \<longrightarrow> \<not> lt (h ! i) (h ! hpar p))"

lemma hpar_less: "0 < i \<Longrightarrow> hpar i < i"
  by (auto simp: hpar_def)

lemma hpar_le: "hpar i \<le> i"
  by (auto simp: hpar_def)

lemma hpar_iter_le: "(hpar ^^ k) p \<le> p"
proof (induction k)
  case (Suc k)
  then show ?case using hpar_le [of "(hpar ^^ k) p"] by simp
qed simp

lemma below_le: "below s p \<Longrightarrow> s \<le> p"
  unfolding below_def using hpar_iter_le by blast

lemma below_refl [simp]: "below s s"
  unfolding below_def by (rule exI [of _ 0]) simp

lemma below_up: "below s p \<Longrightarrow> s < p \<Longrightarrow> below s (hpar p)"
proof -
  assume "below s p" "s < p"
  then obtain k where k: "(hpar ^^ k) p = s" by (auto simp: below_def)
  with \<open>s < p\<close> obtain j where "k = Suc j" by (cases k) auto
  with k have "(hpar ^^ j) (hpar p) = s" by (simp add: funpow_Suc_right del: funpow.simps)
  then show ?thesis unfolding below_def by blast
qed

lemma below_down: "below s (hpar p) \<Longrightarrow> below s p"
proof -
  assume "below s (hpar p)"
  then obtain k where "(hpar ^^ k) (hpar p) = s" by (auto simp: below_def)
  then have "(hpar ^^ Suc k) p = s" by (simp add: funpow_Suc_right del: funpow.simps)
  then show ?thesis unfolding below_def by blast
qed

lemma below_0 [simp]: "below 0 p"
proof (induction p rule: less_induct)
  case (less p)
  show ?case
  proof (cases "p = 0")
    case False
    then show ?thesis using below_down [OF less.IH [OF hpar_less]] by blast
  qed simp
qed

text \<open>The comparison of the elements is a strict weak order: ties are allowed.\<close>

locale weak_order =
  fixes lt :: "'a \<Rightarrow> 'a \<Rightarrow> bool"
  assumes asym: "lt a b \<Longrightarrow> \<not> lt b a"
    and ntrans: "\<not> lt b a \<Longrightarrow> \<not> lt c b \<Longrightarrow> \<not> lt c a"
begin

lemma siftdown_from_heap:
  "hole lt h s p \<Longrightarrow> (\<forall>i<length h. 0 < i \<and> hpar i = p \<longrightarrow> \<not> lt (h ! i) x) \<Longrightarrow>
   heap_from lt s (siftdown_from lt h s p x)"
proof (induction p arbitrary: h rule: less_induct)
  case (less p)
  from less.prems(1) have bel: "below s p" and pl: "p < length h"
    and A: "\<And>i. i < length h \<Longrightarrow> 0 < i \<Longrightarrow> s \<le> hpar i \<Longrightarrow> i \<noteq> p \<Longrightarrow> hpar i \<noteq> p \<Longrightarrow> \<not> lt (h ! i) (h ! hpar i)"
    and C: "\<And>i. i < length h \<Longrightarrow> 0 < i \<Longrightarrow> hpar i = p \<Longrightarrow> s < p \<Longrightarrow> \<not> lt (h ! i) (h ! hpar p)"
    by (auto simp: hole_def)
  have B: "\<not> lt (h ! i) x" if "i < length h" "0 < i" "hpar i = p" for i using less.prems(2) that by auto
  show ?case
  proof (cases "p > s \<and> lt x (h ! hpar p)")
    case True
    define q where "q = hpar p"
    from True have q: "q < p" "below s q" "q < length h" "s \<le> q"
      using hpar_less [of p] below_up [OF bel] below_le pl by (auto simp: q_def)
    have xq: "\<not> lt (h ! q) x" using True asym by (auto simp: q_def)
    have A': "\<not> lt (h[p := h ! q] ! i) (h[p := h ! q] ! hpar i)"
      if "i < length h" "0 < i" "s \<le> hpar i" "i \<noteq> q" "hpar i \<noteq> q" for i
      using that A [of i] C [of i] True pl by (cases "i = p"; cases "hpar i = p") (auto simp: q_def)
    have sib: "\<not> lt (h ! i) (h ! q)" if "i < length h" "0 < i" "hpar i = q" "i \<noteq> p" for i
      using that A [of i] q by auto
    have up: "\<not> lt (h ! q) (h ! hpar q)" if "s < q"
      using that A [of q] q hpar_less [of q] below_le [OF below_up [OF q(2) that]] by auto
    have C': "\<not> lt (h[p := h ! q] ! i) (h[p := h ! q] ! hpar q)"
      if "i < length h" "0 < i" "hpar i = q" "s < q" for i
      using that up sib [of i] ntrans [of "h ! q" "h ! hpar q" "h ! i"] hpar_less [of q] q
      by (cases "i = p") auto
    have B': "\<not> lt (h[p := h ! q] ! i) x" if "i < length h" "0 < i" "hpar i = q" for i
      using that xq sib [of i] ntrans [of "h ! q" x "h ! i"] pl by (cases "i = p") auto
    have "hole lt (h[p := h ! q]) s q" using q A' C' by (auto simp: hole_def)
    then have "heap_from lt s (siftdown_from lt (h[p := h ! q]) s q x)" using less.IH [OF q(1)] B' by auto
    then show ?thesis using True
      by (subst siftdown_from.simps) (simp add: Let_def q_def hpar_def)
  next
    case False
    then have e: "siftdown_from lt h s p x = h[p := x]"
      by (subst siftdown_from.simps) (auto simp: Let_def hpar_def)
    have "\<not> lt (h[p := x] ! i) (h[p := x] ! hpar i)" if "i < length h" "0 < i" "s \<le> hpar i" for i
      using that A [of i] B [of i] False pl hpar_less [of i] below_le [OF bel]
      by (cases "i = p"; cases "hpar i = p") auto
    then show ?thesis by (simp add: e heap_from_def)
  qed
qed

lemma smaller_child_least:
  assumes "i < length h" "0 < i" "hpar i = p"
  shows "\<not> lt (h ! i) (h ! smaller_child lt h p)"
proof -
  have "\<not> lt y y" for y using asym by blast
  moreover from assms have "i = 2 * p + 1 \<or> i = 2 * p + 2" by (auto simp: hpar_def)
  ultimately show ?thesis using assms asym by (auto simp: smaller_child_def Let_def)
qed

lemma bubble_up_hole:
  "hole lt h s p \<Longrightarrow> bubble_up lt h p = (h', p') \<Longrightarrow>
   hole lt h' s p' \<and> length h' = length h \<and> length h \<le> 2 * p' + 1"
proof (induction "length h - p" arbitrary: h p rule: less_induct)
  case less
  from less.prems(1) have bel: "below s p" and pl: "p < length h"
    and A: "\<And>i. i < length h \<Longrightarrow> 0 < i \<Longrightarrow> s \<le> hpar i \<Longrightarrow> i \<noteq> p \<Longrightarrow> hpar i \<noteq> p \<Longrightarrow> \<not> lt (h ! i) (h ! hpar i)"
    and C: "\<And>i. i < length h \<Longrightarrow> 0 < i \<Longrightarrow> hpar i = p \<Longrightarrow> s < p \<Longrightarrow> \<not> lt (h ! i) (h ! hpar p)"
    by (auto simp: hole_def)
  show ?case
  proof (cases "2 * p + 1 < length h")
    case True
    define c where "c = smaller_child lt h p"
    from smaller_child_bounds [OF True, of lt]
    have c: "p < c" "c < length h" "hpar c = p" by (auto simp: c_def hpar_def)
    have sp: "s \<le> p" using below_le [OF bel] .
    have A': "\<not> lt (h[p := h ! c] ! i) (h[p := h ! c] ! hpar i)"
      if "i < length h" "0 < i" "s \<le> hpar i" "i \<noteq> c" "hpar i \<noteq> c" for i
    proof (cases "i = p")
      case True
      then show ?thesis using that C [of c] c hpar_less [of p] by auto
    next
      case False
      then show ?thesis using that A [of i] smaller_child_least [of i h p] pl
        by (cases "hpar i = p") (auto simp: c_def)
    qed
    have C': "\<not> lt (h[p := h ! c] ! i) (h[p := h ! c] ! hpar c)" if "i < length h" "0 < i" "hpar i = c" for i
      using that A [of i] c sp hpar_less [of i] by auto
    have "below s c" using bel c below_down by blast
    then have hh: "hole lt (h[p := h ! c]) s c" using c A' C' by (auto simp: hole_def)
    have bb: "bubble_up lt (h[p := h ! c]) c = (h', p')"
      using less.prems(2) True by (simp add: bubble_up.simps [of lt h p] c_def)
    show ?thesis using less.hyps [OF _ hh bb] c pl by simp
  next
    case False
    then show ?thesis using less.prems by (simp add: bubble_up.simps [of lt h p])
  qed
qed

lemma hole_update: "hole lt h s p \<Longrightarrow> hole lt (h[p := x]) s p"
proof -
  assume *: "hole lt h s p"
  have "\<forall>i. 0 < i \<longrightarrow> hpar i < i" using hpar_less by blast
  then show ?thesis using * unfolding hole_def
    by (auto simp: nth_list_update) (metis gr_implies_not_zero less_irrefl not_gr_zero)+
qed

lemma siftup_heap:
  assumes "heap_from lt (Suc s) h" "s < length h"
  shows "heap_from lt s (siftup lt h s)"
proof -
  obtain h' p where b: "bubble_up lt h s = (h', p)" by force
  have "hole lt h s s" using assms by (auto simp: hole_def heap_from_def)
  from bubble_up_hole [OF this b] have *: "hole lt h' s p" "length h' = length h" "length h \<le> 2 * p + 1" by auto
  have "heap_from lt s (siftdown_from lt (h'[p := h ! s]) s p (h ! s))"
    by (rule siftdown_from_heap [OF hole_update [OF *(1)]]) (use * in \<open>auto simp: hpar_def\<close>)
  moreover have "p < length h'" using * by (auto simp: hole_def)
  ultimately show ?thesis by (simp add: siftup_def siftdown_def b Let_def)
qed

lemma heapify_heap: "heap_from lt 0 (heapify lt x)"
proof -
  have "heap_from lt 0 (fold (\<lambda>i x. siftup lt x i) (rev [0..<n]) y)"
    if "heap_from lt n y" "n \<le> length y" for n and y :: "'a list"
    using that
  proof (induction n arbitrary: y)
    case (Suc n)
    then show ?case using siftup_heap [of n y] length_siftup [of n y lt] by simp
  qed simp
  moreover have "heap_from lt (length x div 2) x" by (auto simp: heap_from_def hpar_def)
  ultimately show ?thesis by (simp add: heapify_def)
qed

lemma heappush_heap:
  assumes "heap_from lt 0 h"
  shows "heap_from lt 0 (heappush lt h x)"
proof -
  have lb: "hpar i < length h" if "i < length h" for i using hpar_le [of i] that by linarith
  have nc: "hpar i \<noteq> length h" if "i < Suc (length h)" "0 < i" for i using hpar_less [of i] that by linarith
  have "\<not> lt ((h @ [x]) ! i) ((h @ [x]) ! hpar i)" if "i < length h" "0 < i" for i
    using assms that lb [of i] by (auto simp: heap_from_def nth_append)
  then have "hole lt (h @ [x]) 0 (length h)" using nc by (auto simp: hole_def less_Suc_eq)
  from siftdown_from_heap [OF this, of x] show ?thesis
    using nc by (auto simp: heappush_def siftdown_def)
qed

lemma heap_root_least:
  assumes "heap_from lt 0 h" "i < length h"
  shows "\<not> lt (h ! i) (h ! 0)"
  using assms(2)
proof (induction i rule: less_induct)
  case (less i)
  show ?case
  proof (cases "i = 0")
    case True
    then show ?thesis using asym by auto
  next
    case False
    then have "\<not> lt (h ! hpar i) (h ! 0)" "\<not> lt (h ! i) (h ! hpar i)"
      using less assms(1) hpar_less [of i] by (auto simp: heap_from_def)
    then show ?thesis using ntrans by blast
  qed
qed

lemma heappop_heap:
  assumes "heap_from lt 0 h" "h \<noteq> []" "heappop lt h = (x, h')"
  shows "heap_from lt 0 h'" and "\<forall>y\<in>set h. \<not> lt y x"
proof -
  have lb: "hpar i < length h - 1" if "i < length h - 1" for i using hpar_le [of i] that by linarith
  have x0: "x = h ! 0"
    using assms(2,3) by (cases h rule: rev_cases) (auto simp: heappop_def Let_def nth_append split: if_splits)
  then show "\<forall>y\<in>set h. \<not> lt y x" using heap_root_least [OF assms(1)] by (auto simp: in_set_conv_nth)
  show "heap_from lt 0 h'"
  proof (cases "butlast h = []")
    case True
    then show ?thesis using assms(3) by (auto simp: heappop_def Let_def heap_from_def)
  next
    case False
    have "heap_from lt (Suc 0) ((butlast h)[0 := last h])"
      using assms(1) lb by (auto simp: heap_from_def nth_butlast nth_list_update)
    moreover have "0 < length ((butlast h)[0 := last h])" using False
      by (simp only: length_list_update length_greater_0_conv) simp
    ultimately have "heap_from lt 0 (siftup lt ((butlast h)[0 := last h]) 0)" by (rule siftup_heap)
    then show ?thesis using False assms(3) by (auto simp: heappop_def Let_def)
  qed
qed

end

end
