(* ===== verification/Evict_Policy.thy ===== *)
theory Evict_Policy
  imports Radix_Node Heapq
begin

text \<open>
  \<open>srt/mem_cache/evict_policy.py\<close>: the eviction strategies.  A priority is a number or a tuple of
  numbers, compared lexicographically as Python compares tuples; both are a list of numbers here.  Times
  are integers: the code only compares and negates them.
\<close>

datatype strategy = LRUStrategy | LFUStrategy | FIFOStrategy | MRUStrategy | FILOStrategy | PriorityStrategy
  | SLRUStrategy int

fun get_priority :: "strategy \<Rightarrow> tree_node \<Rightarrow> int list" where
  "get_priority LRUStrategy x = [n_last_access x]"
| "get_priority LFUStrategy x = [n_hit_count x, n_last_access x]"
| "get_priority FIFOStrategy x = [n_creation x]"
| "get_priority MRUStrategy x = [- n_last_access x]"
| "get_priority FILOStrategy x = [- n_creation x]"
| "get_priority PriorityStrategy x = [n_priority x, n_last_access x]"
| "get_priority (SLRUStrategy protected_threshold) x =
     [if n_hit_count x \<ge> protected_threshold then 1 else 0, n_last_access x]"

text \<open>The choice of the strategy by name in \<open>RadixCache.__init__\<close>; \<open>str.lower\<close> on ASCII.\<close>

definition char_lower :: "char \<Rightarrow> char" where
  "char_lower c = (let n = of_char c :: nat in if 65 \<le> n \<and> n \<le> 90 then char_of (n + 32) else c)"

definition eviction_strategy :: "string \<Rightarrow> strategy res" where
  "eviction_strategy policy =
     (let p = map char_lower policy in
      if p = ''lru'' then ret LRUStrategy
      else if p = ''lfu'' then ret LFUStrategy
      else if p = ''fifo'' then ret FIFOStrategy
      else if p = ''mru'' then ret MRUStrategy
      else if p = ''filo'' then ret FILOStrategy
      else if p = ''priority'' then ret PriorityStrategy
      else if p = ''slru'' then ret (SLRUStrategy 2)
      else raise ValueError)"

text \<open>
  The comparison of the heap entries \<open>(priority, node)\<close>: by priority, then, for different nodes, by
  \<open>TreeNode.__lt__\<close>, the time of the last access.
\<close>

definition node_lt :: "tree_node \<Rightarrow> tree_node \<Rightarrow> bool" where
  "node_lt x y \<longleftrightarrow> n_last_access x < n_last_access y"

definition entry_lt :: "tree_node list \<Rightarrow> int list \<times> nat \<Rightarrow> int list \<times> nat \<Rightarrow> bool" where
  "entry_lt nodes a b =
     (if fst a \<noteq> fst b then ord_class.lexordp (fst a) (fst b)
      else snd a \<noteq> snd b \<and> node_lt (nodes ! snd a) (nodes ! snd b))"

interpretation entries: weak_order "entry_lt nodes" for nodes
proof
  fix a b c :: "int list \<times> nat"
  show "\<not> entry_lt nodes b a" if "entry_lt nodes a b"
    using that by (auto simp: entry_lt_def node_lt_def split: if_splits dest: lexordp_antisym)
  have lin: "ord_class.lexordp x y \<or> ord_class.lexordp y x" if "x \<noteq> y" for x y :: "int list"
    using that lexordp_linear [of x y] by auto
  show "\<not> entry_lt nodes c a" if ba: "\<not> entry_lt nodes b a" and cb: "\<not> entry_lt nodes c b"
  proof
    assume ca: "entry_lt nodes c a"
    have "ord_class.lexordp (fst a) (fst c) \<or> fst a = fst c"
      using ba cb lin [of "fst a" "fst b"] lin [of "fst b" "fst c"]
      by (auto simp: entry_lt_def split: if_splits intro: lexordp_trans)
    then show False using ba cb ca lexordp_antisym [of "fst a" "fst c"] lin [of "fst a" "fst b"]
      by (auto simp: entry_lt_def node_lt_def split: if_splits)
  qed
qed

end
