(* ===== verification/Radix_Cache.thy ===== *)
theory Radix_Cache
  imports Evict_Policy
begin

text \<open>
  \<open>srt/mem_cache/radix_cache.py\<close>: the class \<open>RadixCache\<close> without its request-level methods.

  The state is a record; \<open>rc_nodes\<close> is the list of all nodes created so far and every reference to a
  node is a position in it.  The KV pool allocator is the value \<open>al\<close> with its \<open>free\<close> method as an
  argument.  A method returns \<open>None\<close> when one of its loops does not end.  The metrics hooks only
  observe the cache and are left out.
\<close>

section \<open>State\<close>

datatype kv_event =
    BlockStored "int list" "int option" "tok list" nat
  | BlockRemoved "int list"
  | AllBlocksCleared

record radix =
  rc_nodes :: "tree_node list"
  rc_root :: nat
  rc_disable :: bool
  rc_page_size :: nat
  rc_events :: bool
  rc_is_eagle :: bool
  rc_disable_finished_insert :: bool
  rc_strategy :: strategy
  rc_evictable_leaves :: "nat set"
  rc_evictable_size :: int
  rc_protected_size :: int
  rc_event_queue :: "kv_event list"
  rc_ticks :: nat

definition node :: "radix \<Rightarrow> nat \<Rightarrow> tree_node" where
  "node st i = rc_nodes st ! i"

definition upd :: "radix \<Rightarrow> nat \<Rightarrow> (tree_node \<Rightarrow> tree_node) \<Rightarrow> radix" where
  "upd st i f = st\<lparr>rc_nodes := (rc_nodes st)[i := f (rc_nodes st ! i)]\<rparr>"

text \<open>\<open>time.monotonic()\<close>\<close>

definition read_clock :: "rt_env \<Rightarrow> radix \<Rightarrow> int \<times> radix" where
  "read_clock env st = (monotonic env (rc_ticks st), st\<lparr>rc_ticks := Suc (rc_ticks st)\<rparr>)"

text \<open>\<open>TreeNode(priority=p)\<close>: returns the new reference\<close>

definition new_node :: "rt_env \<Rightarrow> radix \<Rightarrow> int \<Rightarrow> nat \<times> radix" where
  "new_node env st p =
     (let (t0, st) = read_clock env st; (t1, st) = read_clock env st in
      (length (rc_nodes st), st\<lparr>rc_nodes := rc_nodes st @ [TreeNode p t0 t1]\<rparr>))"

definition record_all_cleared_event :: "radix \<Rightarrow> radix" where
  "record_all_cleared_event st =
     (if rc_events st then st\<lparr>rc_event_queue := rc_event_queue st @ [AllBlocksCleared]\<rparr> else st)"

definition maxsize :: int where
  "maxsize = 2 ^ 63 - 1"

definition rc_reset :: "rt_env \<Rightarrow> radix \<Rightarrow> radix" where
  "rc_reset env st =
     (let (r, st) = new_node env st (- maxsize);
          st = st\<lparr>rc_root := r\<rparr>;
          st = upd st r (\<lambda>x. x\<lparr>n_key := RadixKey [] None False, n_value := Some [], n_host_value := Some [],
                                n_lock_ref := 1, n_hash_value := Some []\<rparr>);
          st = st\<lparr>rc_evictable_size := 0, rc_protected_size := 0, rc_evictable_leaves := {}\<rparr>
      in record_all_cleared_event st)"

definition rc_init :: "rt_env \<Rightarrow> bool \<Rightarrow> nat \<Rightarrow> bool \<Rightarrow> bool \<Rightarrow> bool \<Rightarrow> string \<Rightarrow> radix res" where
  "rc_init env disable ps events is_eagle disable_finished_insert policy =
     rbind (eviction_strategy policy) (\<lambda>strat.
       ret (rc_reset env
         \<lparr>rc_nodes = [], rc_root = 0, rc_disable = disable, rc_page_size = ps, rc_events = events,
          rc_is_eagle = is_eagle, rc_disable_finished_insert = disable_finished_insert, rc_strategy = strat,
          rc_evictable_leaves = {}, rc_evictable_size = 0, rc_protected_size = 0, rc_event_queue = [],
          rc_ticks = 0\<rparr>))"

section \<open>Events\<close>

fun stored_events :: "int option \<Rightarrow> (tok list \<times> string) list \<Rightarrow> kv_event list res" where
  "stored_events parent [] = ret []"
| "stored_events parent ((p, h) # ps) =
     rbind (hash_str_to_int64 h) (\<lambda>b.
     rbind (stored_events (Some b) ps) (\<lambda>es. ret (BlockStored [b] parent p (length p) # es)))"

fun removed_events :: "string list \<Rightarrow> kv_event list res" where
  "removed_events [] = ret []"
| "removed_events (h # hs) =
     rbind (hash_str_to_int64 h) (\<lambda>b. rbind (removed_events hs) (\<lambda>es. ret (BlockRemoved [b] # es)))"

text \<open>
  \<open>node.hash_value\<close>, computed if it is not set, paired with the pages; \<open>node.hash_value[page_index]\<close> is
  out of range when there are fewer hashes than pages.
\<close>

definition node_hashes :: "rt_env \<Rightarrow> radix \<Rightarrow> nat \<Rightarrow> (radix \<times> string list) res" where
  "node_hashes env st i =
     rbind (case n_hash_value (node st i) of Some hs \<Rightarrow> ret hs
            | None \<Rightarrow> compute_node_hash_values (sha256_hex env) (rc_nodes st) i (rc_page_size st)) (\<lambda>hs.
     let st = upd st i (\<lambda>x. x\<lparr>n_hash_value := Some hs\<rparr>) in
     if rc_page_size st = 0 then raise ValueError
     else if length hs < length (pages (rc_page_size st) (token_ids (n_key (node st i)))) then raise IndexError
     else ret (st, hs))"

definition record_store_event :: "rt_env \<Rightarrow> radix \<Rightarrow> nat \<Rightarrow> radix res" where
  "record_store_event env st i =
     (if \<not> rc_events st then ret st
      else rbind (node_hashes env st i) (\<lambda>(st, hs).
        rbind (case n_parent (node st i) of None \<Rightarrow> ret None
               | Some p \<Rightarrow>
                   if p = rc_root st then ret None
                   else case n_hash_value (node st p) of None \<Rightarrow> ret None
                        | Some ph \<Rightarrow> if length ph > 0 then rbind (hash_str_to_int64 (last ph)) (\<lambda>b. ret (Some b))
                                     else ret None) (\<lambda>parent.
        rbind (stored_events parent (zip (pages (rc_page_size st) (token_ids (n_key (node st i)))) hs)) (\<lambda>es.
        ret (st\<lparr>rc_event_queue := rc_event_queue st @ es\<rparr>)))))"

definition record_remove_event :: "rt_env \<Rightarrow> radix \<Rightarrow> nat \<Rightarrow> radix res" where
  "record_remove_event env st i =
     (if \<not> rc_events st then ret st
      else rbind (node_hashes env st i) (\<lambda>(st, hs).
        rbind (removed_events (take (length (pages (rc_page_size st) (token_ids (n_key (node st i))))) hs)) (\<lambda>es.
        ret (st\<lparr>rc_event_queue := rc_event_queue st @ es\<rparr>))))"

definition take_events :: "radix \<Rightarrow> kv_event list \<times> radix" where
  "take_events st = (if \<not> rc_events st then ([], st) else (rc_event_queue st, st\<lparr>rc_event_queue := []\<rparr>))"

section \<open>Splitting and leaves\<close>

definition update_leaf_status :: "radix \<Rightarrow> nat \<Rightarrow> radix" where
  "update_leaf_status st i =
     (if evicted (node st i) \<or> n_lock_ref (node st i) > 0
      then st\<lparr>rc_evictable_leaves := rc_evictable_leaves st - {i}\<rparr>
      else if \<exists>c\<in>set (map snd (n_children (node st i))). \<not> evicted (node st c)
      then st\<lparr>rc_evictable_leaves := rc_evictable_leaves st - {i}\<rparr>
      else st\<lparr>rc_evictable_leaves := insert i (rc_evictable_leaves st)\<rparr>)"

text \<open>\<open>p.children[k] = c\<close> on a reference that may be \<open>None\<close>\<close>

definition set_child :: "radix \<Rightarrow> nat option \<Rightarrow> child_key \<Rightarrow> nat \<Rightarrow> radix res" where
  "set_child st p k c =
     (case p of None \<Rightarrow> raise AttributeError
      | Some p \<Rightarrow> ret (upd st p (\<lambda>x. x\<lparr>n_children := AList.update k c (n_children x)\<rparr>)))"

definition split_node :: "rt_env \<Rightarrow> radix \<Rightarrow> radix_key \<Rightarrow> nat \<Rightarrow> nat \<Rightarrow> (nat \<times> radix) res" where
  "split_node env st key child split_len =
     (let (new, st) = new_node env st (n_priority (node st child)) in
      rbind (get_child_key (rc_page_size st) (key_drop split_len key)) (\<lambda>ck.
      rbind (value_of (node st child)) (\<lambda>v.
      let x = node st child;
          st = upd st new (\<lambda>y. y\<lparr>n_hit_count := n_hit_count x, n_children := [(ck, child)],
                 n_parent := n_parent x, n_lock_ref := n_lock_ref x,
                 n_key := key_take split_len (n_key x), n_value := Some (take split_len v)\<rparr>);
          st = upd st child (\<lambda>y. y\<lparr>n_parent := Some new, n_key := key_drop split_len (n_key y),
                 n_value := Some (drop split_len v)\<rparr>)
      in rbind (get_child_key (rc_page_size st) key) (\<lambda>ck0.
         rbind (set_child st (n_parent (node st new)) ck0 new) (\<lambda>st.
         let (h_new, h_child) = split_node_hash_value (n_hash_value (node st child)) split_len (rc_page_size st);
             st = upd st new (\<lambda>y. y\<lparr>n_hash_value := h_new\<rparr>);
             st = upd st child (\<lambda>y. y\<lparr>n_hash_value := h_child\<rparr>)
         in ret (new, st))))))"

definition inc_hit_count :: "radix \<Rightarrow> nat \<Rightarrow> bool \<Rightarrow> radix" where
  "inc_hit_count st i chunked = (if chunked then st else upd st i (\<lambda>x. x\<lparr>n_hit_count := n_hit_count x + 1\<rparr>))"

section \<open>Matching a prefix\<close>

definition touch :: "radix \<Rightarrow> nat \<Rightarrow> int \<Rightarrow> radix" where
  "touch st i now = upd st i (\<lambda>x. x\<lparr>n_last_access := now\<rparr>)"

text \<open>\<open>if len(key): child_key = self.get_child_key_fn(key)\<close>\<close>

definition next_child_key :: "nat \<Rightarrow> radix_key \<Rightarrow> child_key \<Rightarrow> child_key res" where
  "next_child_key ps key ck = (if key_len key > 0 then get_child_key ps key else ret ck)"

partial_function (option) match_loop ::
  "rt_env \<Rightarrow> int \<Rightarrow> radix \<Rightarrow> nat \<Rightarrow> radix_key \<Rightarrow> child_key \<Rightarrow> slot list list
   \<Rightarrow> (radix \<times> slot list list \<times> nat) res" where
  "match_loop env now st i key ck val =
     (case map_of (n_children (node st i)) ck of
        None \<Rightarrow> ret (st, val, i)
      | Some child \<Rightarrow>
          if key_len key = 0 then ret (st, val, i)
          else let st = touch st child now in
            rbind (key_match_fn (rc_page_size st) (n_key (node st child)) key) (\<lambda>plen.
            if plen < key_len (n_key (node st child))
            then rbind (split_node env st (n_key (node st child)) child plen) (\<lambda>(new, st).
                 rbind (value_of (node st new)) (\<lambda>v. ret (st, val @ [v], new)))
            else rbind (value_of (node st child)) (\<lambda>v.
                 rbind (next_child_key (rc_page_size st) (key_drop plen key) ck) (\<lambda>ck.
                 match_loop env now st child (key_drop plen key) ck (val @ [v])))))"

definition match_prefix_helper ::
  "rt_env \<Rightarrow> radix \<Rightarrow> nat \<Rightarrow> radix_key \<Rightarrow> (radix \<times> slot list list \<times> nat) res" where
  "match_prefix_helper env st i key =
     (let (now, st) = read_clock env st; st = touch st i now in
      rbind (get_child_key (rc_page_size st) key) (\<lambda>ck. match_loop env now st i key ck []))"

text \<open>\<open>MatchResult\<close>: the device indices and the last node (the device and the host node agree)\<close>

definition match_prefix :: "rt_env \<Rightarrow> radix \<Rightarrow> radix_key \<Rightarrow> (radix \<times> slot list \<times> nat) res" where
  "match_prefix env st key =
     (let key = fst (maybe_bigram_convert (rc_is_eagle st) key None) in
      if rc_disable st \<or> key_len key = 0 then ret (st, [], rc_root st)
      else if rc_page_size st = 0 then raise ZeroDivisionError
      else let key = (if rc_page_size st \<noteq> 1
                      then key_take (key_len key div rc_page_size st * rc_page_size st) key else key) in
        if key_len key = 0 then ret (st, [], rc_root st)
        else rbind (match_prefix_helper env st (rc_root st) key) (\<lambda>(st, val, last_node).
             ret (st, concat val, last_node)))"

section \<open>Inserting\<close>

definition raise_priority :: "radix \<Rightarrow> nat \<Rightarrow> int \<Rightarrow> radix" where
  "raise_priority st i p = upd st i (\<lambda>x. x\<lparr>n_priority := max (n_priority x) p\<rparr>)"

partial_function (option) insert_loop ::
  "rt_env \<Rightarrow> int \<Rightarrow> int \<Rightarrow> bool \<Rightarrow> radix \<Rightarrow> nat \<Rightarrow> radix_key \<Rightarrow> child_key \<Rightarrow> slot list \<Rightarrow> nat
   \<Rightarrow> (radix \<times> nat \<times> radix_key \<times> child_key \<times> slot list \<times> nat) res" where
  "insert_loop env now priority chunked st i key ck val tot =
     (case map_of (n_children (node st i)) ck of
        None \<Rightarrow> ret (st, i, key, ck, val, tot)
      | Some child \<Rightarrow>
          if key_len key = 0 then ret (st, i, key, ck, val, tot)
          else let st = touch st child now in
            rbind (key_match_fn (rc_page_size st) (n_key (node st child)) key) (\<lambda>plen.
            rbind (if plen < key_len (n_key (node st child))
                   then split_node env st (n_key (node st child)) child plen
                   else ret (child, st)) (\<lambda>(nxt, st).
            let st = inc_hit_count (raise_priority st nxt priority) nxt chunked in
            rbind (next_child_key (rc_page_size st) (key_drop plen key) ck) (\<lambda>ck.
            insert_loop env now priority chunked st nxt (key_drop plen key) ck (drop plen val) (tot + plen)))))"

definition insert_helper ::
  "rt_env \<Rightarrow> radix \<Rightarrow> nat \<Rightarrow> radix_key \<Rightarrow> slot list \<Rightarrow> int option \<Rightarrow> bool \<Rightarrow> (radix \<times> nat) res" where
  "insert_helper env st i key val priority chunked =
     (let priority = (case priority of None \<Rightarrow> 0 | Some p \<Rightarrow> p);
          (now, st) = read_clock env st;
          st = raise_priority (touch st i now) i priority
      in if key_len key = 0 then ret (st, 0)
         else rbind (get_child_key (rc_page_size st) key) (\<lambda>ck.
              rbind (insert_loop env now priority chunked st i key ck val 0) (\<lambda>(st, i, key, ck, val, tot).
              if key_len key = 0 then ret (st, tot)
              else let (new, st) = new_node env st priority;
                       st = upd st new (\<lambda>x. x\<lparr>n_parent := Some i, n_key := key, n_value := Some val\<rparr>);
                       st = inc_hit_count st new chunked;
                       st = upd st i (\<lambda>x. x\<lparr>n_children := AList.update ck new (n_children x)\<rparr>);
                       st = st\<lparr>rc_evictable_size := rc_evictable_size st + int (key_len key)\<rparr>;
                       st = update_leaf_status (update_leaf_status st i) new
                   in rbind (record_store_event env st new) (\<lambda>st. ret (st, tot)))))"

text \<open>
  \<open>value=None\<close> stands for the token ids themselves (the simulated cache); a key whose elements are not
  slot numbers has no such default here.
\<close>

fun default_value :: "tok list \<Rightarrow> slot list res" where
  "default_value [] = ret []"
| "default_value (Tok t # ts) =
     (if t < 0 then raise ValueError else rbind (default_value ts) (\<lambda>vs. ret (nat t # vs)))"
| "default_value (Bigram a b # ts) = raise ValueError"

definition rc_insert ::
  "rt_env \<Rightarrow> radix \<Rightarrow> radix_key \<Rightarrow> slot list option \<Rightarrow> int option \<Rightarrow> bool \<Rightarrow> (radix \<times> nat) res" where
  "rc_insert env st key val priority chunked =
     (if rc_disable st then ret (st, 0)
      else rbind (case val of None \<Rightarrow> default_value (token_ids key) | Some v \<Rightarrow> ret v) (\<lambda>v.
           let (key, v) = maybe_bigram_convert (rc_is_eagle st) key (Some v) in
           insert_helper env st (rc_root st) key (the v) priority chunked))"

section \<open>Eviction\<close>

definition delete_leaf :: "radix \<Rightarrow> nat \<Rightarrow> radix res" where
  "delete_leaf st i =
     rbind (get_child_key (rc_page_size st) (n_key (node st i))) (\<lambda>ck.
     case n_parent (node st i) of None \<Rightarrow> raise AttributeError
     | Some p \<Rightarrow>
         if map_of (n_children (node st p)) ck \<noteq> Some i then raise AssertionError
         else let st = upd st p (\<lambda>x. x\<lparr>n_children := AList.delete ck (n_children x)\<rparr>);
                  st = st\<lparr>rc_evictable_size := rc_evictable_size st - int (key_len (n_key (node st i))),
                          rc_evictable_leaves := rc_evictable_leaves st - {i}\<rparr>
              in ret (update_leaf_status st p))"

type_synonym heap_entry = "int list \<times> nat"

definition heap_entry :: "radix \<Rightarrow> nat \<Rightarrow> heap_entry" where
  "heap_entry st i = (get_priority (rc_strategy st) (node st i), i)"

text \<open>\<open>x.parent\<close> is pushed once it has become an unlocked leaf\<close>

definition push_parent :: "radix \<Rightarrow> nat \<Rightarrow> heap_entry list \<Rightarrow> heap_entry list res" where
  "push_parent st i heap =
     (case n_parent (node st i) of None \<Rightarrow> raise AttributeError
      | Some p \<Rightarrow>
          ret (if length (n_children (node st p)) = 0 \<and> n_lock_ref (node st p) = 0
               then heappush (entry_lt (rc_nodes st)) heap (heap_entry st p) else heap))"

partial_function (option) evict_loop ::
  "rt_env \<Rightarrow> ('a \<Rightarrow> slot list \<Rightarrow> err + 'a) \<Rightarrow> int \<Rightarrow> radix \<Rightarrow> 'a \<Rightarrow> heap_entry list \<Rightarrow> nat
   \<Rightarrow> (radix \<times> 'a \<times> nat) res" where
  "evict_loop env free num_tokens st al heap num_evicted =
     (if int num_evicted < num_tokens \<and> heap \<noteq> []
      then let (e, heap) = heappop (entry_lt (rc_nodes st)) heap; x = snd e in
        rbind (value_of (node st x)) (\<lambda>v.
        rbind (lift_err (free al v)) (\<lambda>al.
        rbind (delete_leaf st x) (\<lambda>st.
        rbind (push_parent st x heap) (\<lambda>heap.
        rbind (record_remove_event env st x) (\<lambda>st.
        evict_loop env free num_tokens st al heap (num_evicted + length v))))))
      else ret (st, al, num_evicted))"

definition rc_evict ::
  "rt_env \<Rightarrow> ('a \<Rightarrow> slot list \<Rightarrow> err + 'a) \<Rightarrow> radix \<Rightarrow> 'a \<Rightarrow> int \<Rightarrow> (radix \<times> 'a \<times> nat) res" where
  "rc_evict env free st al num_tokens =
     (if rc_disable st then ret (st, al, 0)
      else let leaves = set_order env (rc_evictable_leaves st);
               heap = heapify (entry_lt (rc_nodes st)) (map (heap_entry st) leaves)
           in evict_loop env free num_tokens st al heap 0)"

section \<open>Locks\<close>

partial_function (option) inc_lock_loop :: "radix \<Rightarrow> nat option \<Rightarrow> int \<Rightarrow> (radix \<times> int) res" where
  "inc_lock_loop st i delta =
     (if i = Some (rc_root st) then ret (st, delta)
      else case i of None \<Rightarrow> raise AttributeError
      | Some n \<Rightarrow>
          let len = int (key_len (n_key (node st n)));
              z = (n_lock_ref (node st n) = 0);
              st = (if z then st\<lparr>rc_evictable_size := rc_evictable_size st - len,
                                 rc_protected_size := rc_protected_size st + len\<rparr> else st);
              delta = (if z then delta - len else delta);
              st = upd st n (\<lambda>x. x\<lparr>n_lock_ref := n_lock_ref x + 1\<rparr>);
              st = update_leaf_status st n
          in inc_lock_loop st (n_parent (node st n)) delta)"

definition inc_lock_ref :: "radix \<Rightarrow> nat \<Rightarrow> (radix \<times> int) res" where
  "inc_lock_ref st i = (if rc_disable st then ret (st, 0) else inc_lock_loop st (Some i) 0)"

partial_function (option) dec_lock_loop :: "radix \<Rightarrow> nat \<Rightarrow> int \<Rightarrow> (radix \<times> int) res" where
  "dec_lock_loop st n delta =
     (if n = rc_root st then ret (st, delta)
      else
          let len = int (key_len (n_key (node st n)));
              z = (n_lock_ref (node st n) = 1);
              st = (if z then st\<lparr>rc_evictable_size := rc_evictable_size st + len,
                                 rc_protected_size := rc_protected_size st - len\<rparr> else st);
              delta = (if z then delta + len else delta);
              st = upd st n (\<lambda>x. x\<lparr>n_lock_ref := n_lock_ref x - 1\<rparr>);
              st = update_leaf_status st n
          in case n_parent (node st n) of None \<Rightarrow> raise AssertionError
             | Some p \<Rightarrow> dec_lock_loop st p delta)"

definition dec_lock_ref :: "radix \<Rightarrow> nat \<Rightarrow> (radix \<times> int) res" where
  "dec_lock_ref st i = (if rc_disable st then ret (st, 0) else dec_lock_loop st i 0)"

section \<open>Whole-tree walks\<close>

text \<open>\<open>_dfs_helper\<close>, over the children still to visit\<close>

partial_function (option) dfs_values :: "radix \<Rightarrow> nat list \<Rightarrow> slot list list res" where
  "dfs_values st cs =
     (case cs of [] \<Rightarrow> ret []
      | c # cs \<Rightarrow>
          rbind (value_of (node st c)) (\<lambda>v.
          rbind (dfs_values st (map snd (n_children (node st c)))) (\<lambda>vs.
          rbind (dfs_values st cs) (\<lambda>ws. ret (v # vs @ ws)))))"

text \<open>\<open>torch.cat\<close> of no tensor raises\<close>

definition all_values_flatten :: "radix \<Rightarrow> slot list res" where
  "all_values_flatten st =
     rbind (dfs_values st (map snd (n_children (node st (rc_root st))))) (\<lambda>vs.
     if vs = [] then raise RuntimeError else ret (concat vs))"

partial_function (option) total_size_loop :: "radix \<Rightarrow> nat list \<Rightarrow> nat \<Rightarrow> nat res" where
  "total_size_loop st stack tot =
     (case stack of [] \<Rightarrow> ret tot
      | i # stack \<Rightarrow>
          rbind (value_of (node st i)) (\<lambda>v.
          total_size_loop st
            (rev (filter (\<lambda>c. \<not> evicted (node st c)) (map snd (n_children (node st i)))) @ stack)
            (tot + length v)))"

definition total_size :: "radix \<Rightarrow> nat res" where
  "total_size st = total_size_loop st [rc_root st] 0"

end
