(* ===== verification/Radix_Inv.thy ===== *)
theory Radix_Inv
  imports Radix_Cache
begin

text \<open>
  The representation invariant of the radix tree and its preservation by the elementary changes of the
  node heap: touching, splitting a node, adding a leaf, deleting a leaf, locking a path.

  The invariant carries ghost data: \<open>L\<close>, the nodes of the tree; \<open>pk\<close> and \<open>pv\<close>, the tokens and the slots
  on the path from the root to a node; \<open>H\<close>, the multiset of nodes held by running requests.  Splitting a
  node does not change the path of any old node, which is what makes the paths the right abstraction.
\<close>

section \<open>Access to the heap\<close>

lemma node_upd [simp]:
  "i < length (rc_nodes st) \<Longrightarrow> node (upd st i f) j = (if i = j then f (node st i) else node st j)"
  by (simp add: node_def upd_def)

lemma upd_fields [simp]:
  "length (rc_nodes (upd st i f)) = length (rc_nodes st)" "rc_root (upd st i f) = rc_root st"
  "rc_disable (upd st i f) = rc_disable st" "rc_page_size (upd st i f) = rc_page_size st"
  "rc_events (upd st i f) = rc_events st" "rc_is_eagle (upd st i f) = rc_is_eagle st"
  "rc_strategy (upd st i f) = rc_strategy st"
  "rc_disable_finished_insert (upd st i f) = rc_disable_finished_insert st"
  "rc_evictable_leaves (upd st i f) = rc_evictable_leaves st" "rc_evictable_size (upd st i f) = rc_evictable_size st"
  "rc_protected_size (upd st i f) = rc_protected_size st" "rc_event_queue (upd st i f) = rc_event_queue st"
  by (simp_all add: upd_def)

abbreviation toks :: "radix \<Rightarrow> nat \<Rightarrow> tok list" where
  "toks st n \<equiv> token_ids (n_key (node st n))"

abbreviation ext :: "radix \<Rightarrow> nat \<Rightarrow> string option" where
  "ext st n \<equiv> extra_key (n_key (node st n))"

abbreviation val :: "radix \<Rightarrow> nat \<Rightarrow> slot list" where
  "val st n \<equiv> the (n_value (node st n))"

abbreviation kids :: "radix \<Rightarrow> nat \<Rightarrow> (child_key \<times> nat) list" where
  "kids st n \<equiv> n_children (node st n)"

abbreviation lock :: "radix \<Rightarrow> nat \<Rightarrow> int" where
  "lock st n \<equiv> n_lock_ref (node st n)"

abbreviation ps :: "radix \<Rightarrow> nat" where
  "ps st \<equiv> rc_page_size st"

definition ckey :: "nat \<Rightarrow> string option \<Rightarrow> tok list \<Rightarrow> child_key" where
  "ckey p e ts = (e, if p = 1 then One (hd ts) else Page (take p ts))"

lemma get_child_key_ckey: "token_ids k \<noteq> [] \<Longrightarrow> get_child_key p k = ret (ckey p (extra_key k) (token_ids k))"
  by (cases "token_ids k") (auto simp: get_child_key_def ckey_def)

lemma ckey_eq_iff:
  "ts \<noteq> [] \<Longrightarrow> us \<noteq> [] \<Longrightarrow> ckey p e ts = ckey p f us \<longleftrightarrow> e = f \<and> take p ts = take p us"
  by (cases ts; cases us) (auto simp: ckey_def)

section \<open>The invariant\<close>

definition node_ok :: "radix \<Rightarrow> nat \<Rightarrow> bool" where
  "node_ok st c \<longleftrightarrow> toks st c \<noteq> [] \<and> ps st dvd length (toks st c)
     \<and> n_value (node st c) \<noteq> None \<and> length (val st c) = length (toks st c)"

definition parent_ok :: "radix \<Rightarrow> nat set \<Rightarrow> (nat \<Rightarrow> tok list) \<Rightarrow> (nat \<Rightarrow> slot list) \<Rightarrow> nat \<Rightarrow> nat \<Rightarrow> bool" where
  "parent_ok st L pk pv p c \<longleftrightarrow> p \<in> L \<and> n_parent (node st c) = Some p
     \<and> (ckey (ps st) (ext st c) (toks st c), c) \<in> set (kids st p)
     \<and> pk c = pk p @ toks st c \<and> pv c = pv p @ val st c \<and> (p = rc_root st \<or> ext st p = ext st c)"

definition kids_ok :: "radix \<Rightarrow> nat set \<Rightarrow> nat \<Rightarrow> bool" where
  "kids_ok st L p \<longleftrightarrow> distinct (map fst (kids st p))
     \<and> (\<forall>(k, c)\<in>set (kids st p). c \<in> L \<and> c \<noteq> rc_root st \<and> n_parent (node st c) = Some p
          \<and> k = ckey (ps st) (ext st c) (toks st c))"

definition tree_inv :: "radix \<Rightarrow> nat set \<Rightarrow> (nat \<Rightarrow> tok list) \<Rightarrow> (nat \<Rightarrow> slot list) \<Rightarrow> bool" where
  "tree_inv st L pk pv \<longleftrightarrow>
     0 < ps st \<and> rc_root st \<in> L \<and> (\<forall>n\<in>L. n < length (rc_nodes st))
     \<and> toks st (rc_root st) = [] \<and> n_value (node st (rc_root st)) = Some []
     \<and> pk (rc_root st) = [] \<and> pv (rc_root st) = []
     \<and> (\<forall>c\<in>L. c \<noteq> rc_root st \<longrightarrow> node_ok st c \<and> (\<exists>p. parent_ok st L pk pv p c))
     \<and> (\<forall>p\<in>L. kids_ok st L p)"

definition lock_ok :: "radix \<Rightarrow> nat multiset \<Rightarrow> nat \<Rightarrow> bool" where
  "lock_ok st H n \<longleftrightarrow> 0 \<le> lock st n \<and> lock st n = int (count H n) + (\<Sum>c\<leftarrow>map snd (kids st n). lock st c)"

definition lock_inv :: "radix \<Rightarrow> nat set \<Rightarrow> nat multiset \<Rightarrow> bool" where
  "lock_inv st L H \<longleftrightarrow> set_mset H \<subseteq> L \<and> lock st (rc_root st) = 1
     \<and> (\<forall>n\<in>L. n \<noteq> rc_root st \<longrightarrow> lock_ok st H n)"

definition size_inv :: "radix \<Rightarrow> nat set \<Rightarrow> bool" where
  "size_inv st L \<longleftrightarrow>
     rc_evictable_size st = (\<Sum>n | n \<in> L \<and> n \<noteq> rc_root st \<and> lock st n = 0. int (length (toks st n)))
     \<and> rc_protected_size st = (\<Sum>n | n \<in> L \<and> n \<noteq> rc_root st \<and> lock st n \<noteq> 0. int (length (toks st n)))"

definition leaf_inv :: "radix \<Rightarrow> nat set \<Rightarrow> bool" where
  "leaf_inv st L \<longleftrightarrow>
     rc_evictable_leaves st = {n \<in> L. n \<noteq> rc_root st \<and> lock st n = 0 \<and> kids st n = []}"

definition digest :: "string \<Rightarrow> bool" where
  "digest h \<longleftrightarrow> length h = 64 \<and> (\<forall>c\<in>set h. hex_val c \<noteq> None)"

definition hash_ok :: "radix \<Rightarrow> nat \<Rightarrow> bool" where
  "hash_ok st n \<longleftrightarrow> (\<exists>hs. n_hash_value (node st n) = Some hs \<and> length hs * ps st = length (toks st n)
                         \<and> (\<forall>h\<in>set hs. digest h))"

definition hash_inv :: "radix \<Rightarrow> nat set \<Rightarrow> bool" where
  "hash_inv st L \<longleftrightarrow> (rc_events st \<longrightarrow> (\<forall>n\<in>L. hash_ok st n))"

definition radix_inv ::
  "radix \<Rightarrow> nat set \<Rightarrow> (nat \<Rightarrow> tok list) \<Rightarrow> (nat \<Rightarrow> slot list) \<Rightarrow> nat multiset \<Rightarrow> bool" where
  "radix_inv st L pk pv H \<longleftrightarrow>
     tree_inv st L pk pv \<and> lock_inv st L H \<and> size_inv st L \<and> leaf_inv st L \<and> hash_inv st L"

lemma tree_invD:
  assumes "tree_inv st L pk pv"
  shows "0 < ps st" "rc_root st \<in> L" "n \<in> L \<Longrightarrow> n < length (rc_nodes st)" "toks st (rc_root st) = []"
    "n_value (node st (rc_root st)) = Some []" "pk (rc_root st) = []" "pv (rc_root st) = []"
    "c \<in> L \<Longrightarrow> c \<noteq> rc_root st \<Longrightarrow> node_ok st c" "c \<in> L \<Longrightarrow> c \<noteq> rc_root st \<Longrightarrow> \<exists>p. parent_ok st L pk pv p c"
    "p \<in> L \<Longrightarrow> kids_ok st L p"
  using assms by (auto simp: tree_inv_def)

lemma radix_finite_live: "tree_inv st L pk pv \<Longrightarrow> finite L"
  by (rule finite_subset [of _ "{..<length (rc_nodes st)}"]) (auto dest: tree_invD(3))

lemma kids_lookup:
  assumes "kids_ok st L p"
  shows "map_of (kids st p) k = Some c \<longleftrightarrow> (k, c) \<in> set (kids st p)"
  using assms by (simp add: kids_ok_def)

lemma kids_okI:
  assumes "distinct (map fst (kids st p))"
    and "\<And>k c. (k, c) \<in> set (kids st p) \<Longrightarrow> c \<in> L \<and> c \<noteq> rc_root st \<and> n_parent (node st c) = Some p
           \<and> k = ckey (ps st) (ext st c) (toks st c)"
  shows "kids_ok st L p"
  using assms by (auto simp: kids_ok_def)

lemma kidD:
  assumes "tree_inv st L pk pv" "p \<in> L" "(k, c) \<in> set (kids st p)"
  shows "c \<in> L" "c \<noteq> rc_root st" "n_parent (node st c) = Some p" "k = ckey (ps st) (ext st c) (toks st c)"
    "parent_ok st L pk pv p c" "c \<noteq> p"
proof -
  from tree_invD(10) [OF assms(1,2)] assms(3)
  show *: "c \<in> L" "c \<noteq> rc_root st" "n_parent (node st c) = Some p" "k = ckey (ps st) (ext st c) (toks st c)"
    by (auto simp: kids_ok_def)
  from tree_invD(9) [OF assms(1) *(1,2)] *(3) show p: "parent_ok st L pk pv p c"
    by (auto simp: parent_ok_def)
  from tree_invD(8) [OF assms(1) *(1,2)] p show "c \<noteq> p" by (auto simp: parent_ok_def node_ok_def)
qed

lemma kid_once:
  assumes "tree_inv st L pk pv" "p \<in> L"
  shows "distinct (map snd (kids st p))"
proof -
  have "distinct (kids st p)" using tree_invD(10) [OF assms] by (simp add: kids_ok_def distinct_map)
  moreover have "inj_on snd (set (kids st p))"
  proof (rule inj_onI)
    fix x y assume "x \<in> set (kids st p)" "y \<in> set (kids st p)" "snd x = snd y"
    with kidD(4) [OF assms, of "fst x" "snd x"] kidD(4) [OF assms, of "fst y" "snd y"] show "x = y"
      by (cases x; cases y) simp
  qed
  ultimately show ?thesis by (simp add: distinct_map)
qed

section \<open>Dictionaries\<close>

lemma alist_update_new: "k \<notin> fst ` set al \<Longrightarrow> AList.update k v al = al @ [(k, v)]"
  by (induction al) auto

lemma alist_sum_update:
  fixes f :: "'b \<Rightarrow> int"
  assumes "distinct (map fst al)" "map_of al k = Some c"
  shows "(\<Sum>x\<leftarrow>map snd (AList.update k v al). f x) = (\<Sum>x\<leftarrow>map snd al. f x) - f c + f v"
  using assms by (induction al) (auto split: if_splits)

lemma alist_delete_notin: "k \<notin> fst ` set al \<Longrightarrow> AList.delete k al = al"
  by (induction al) (auto simp: AList.delete_eq)

lemma alist_sum_delete:
  fixes f :: "'b \<Rightarrow> int"
  assumes "distinct (map fst al)" "map_of al k = Some c"
  shows "(\<Sum>x\<leftarrow>map snd (AList.delete k al). f x) = (\<Sum>x\<leftarrow>map snd al. f x) - f c"
  using assms
proof (induction al)
  case (Cons a al)
  then show ?case
  proof (cases "fst a = k")
    case True
    with Cons.prems have "AList.delete k (a # al) = al"
      using alist_delete_notin [of k al] by (cases a) (auto simp: AList.delete_eq)
    with True Cons.prems show ?thesis by (cases a) simp
  qed (use Cons in \<open>auto simp: AList.delete_eq\<close>)
qed simp

lemma sum_filter_split:
  fixes f f' :: "nat \<Rightarrow> int"
  assumes "finite L" "c \<in> L" "new \<notin> L" "P' new = P c" "P' c = P c" "f' new + f' c = f c"
    and "\<And>n. n \<in> L \<Longrightarrow> n \<noteq> c \<Longrightarrow> P' n = P n \<and> f' n = f n"
  shows "(\<Sum>n | n \<in> insert new L \<and> P' n. f' n) = (\<Sum>n | n \<in> L \<and> P n. f n)"
proof -
  have eq: "(\<Sum>n | n \<in> A \<and> Q n. g n) = (\<Sum>n\<in>A. if Q n then g n else 0)" if "finite A"
    for A :: "nat set" and Q and g :: "nat \<Rightarrow> int"
    using that by (simp add: sum.inter_filter)
  have "(\<Sum>n\<in>insert new L. if P' n then f' n else 0)
      = (if P' new then f' new else 0) + ((if P' c then f' c else 0) + (\<Sum>n\<in>L - {c}. if P' n then f' n else 0))"
    using assms by (simp add: sum.remove [of L c])
  also have "(\<Sum>n\<in>L - {c}. if P' n then f' n else 0) = (\<Sum>n\<in>L - {c}. if P n then f n else 0)"
    using assms by (intro sum.cong) auto
  also have "(if P' new then f' new else 0) + ((if P' c then f' c else 0) + \<dots>) = (\<Sum>n\<in>L. if P n then f n else 0)"
    using assms(1-6) by (auto simp: sum.remove [of L c])
  finally show ?thesis using assms(1) eq [of "insert new L" f' P'] eq [of L f P] by simp
qed

section \<open>Quiet changes\<close>

text \<open>Changes that only touch access times, hit counts, priorities, the clock and the event queue.\<close>

definition shape :: "tree_node \<Rightarrow> (child_key \<times> nat) list \<times> nat option \<times> radix_key \<times> slot list option \<times> int \<times> string list option" where
  "shape x = (n_children x, n_parent x, n_key x, n_value x, n_lock_ref x, n_hash_value x)"

definition config :: "radix \<Rightarrow> nat \<times> bool \<times> nat \<times> bool \<times> bool \<times> bool \<times> strategy" where
  "config st = (rc_root st, rc_disable st, rc_page_size st, rc_events st, rc_is_eagle st,
                rc_disable_finished_insert st, rc_strategy st)"

definition counts :: "radix \<Rightarrow> nat set \<times> int \<times> int" where
  "counts st = (rc_evictable_leaves st, rc_evictable_size st, rc_protected_size st)"

definition quiet :: "radix \<Rightarrow> radix \<Rightarrow> bool" where
  "quiet st st' \<longleftrightarrow> config st' = config st \<and> counts st' = counts st
     \<and> length (rc_nodes st') = length (rc_nodes st)
     \<and> (\<forall>n<length (rc_nodes st). shape (node st' n) = shape (node st n))"

lemma quiet_refl [simp]: "quiet st st"
  by (simp add: quiet_def)

lemma quiet_trans: "quiet st st' \<Longrightarrow> quiet st' st'' \<Longrightarrow> quiet st st''"
  by (auto simp: quiet_def)

lemma quiet_upd:
  "i < length (rc_nodes st) \<Longrightarrow> (\<And>x. shape (f x) = shape x) \<Longrightarrow> quiet st (upd st i f)"
  by (auto simp: quiet_def config_def counts_def)

lemma quiet_touch [simp]: "i < length (rc_nodes st) \<Longrightarrow> quiet st (touch st i now)"
  unfolding touch_def by (rule quiet_upd) (auto simp: shape_def)

lemma quiet_raise_priority [simp]: "i < length (rc_nodes st) \<Longrightarrow> quiet st (raise_priority st i p)"
  unfolding raise_priority_def by (rule quiet_upd) (auto simp: shape_def)

lemma quiet_inc_hit_count [simp]: "i < length (rc_nodes st) \<Longrightarrow> quiet st (inc_hit_count st i b)"
  unfolding inc_hit_count_def by (auto intro!: quiet_upd simp: shape_def)

lemma quiet_read_clock [simp]: "quiet st (snd (read_clock env st))"
  by (simp add: quiet_def read_clock_def config_def counts_def node_def)

lemma quiet_queue [simp]: "quiet st (st\<lparr>rc_event_queue := q\<rparr>)"
  by (simp add: quiet_def config_def counts_def node_def)

lemma quietD:
  assumes "quiet st st'"
  shows "rc_root st' = rc_root st" "rc_disable st' = rc_disable st" "ps st' = ps st" "rc_events st' = rc_events st"
    "rc_is_eagle st' = rc_is_eagle st" "rc_evictable_leaves st' = rc_evictable_leaves st"
    "rc_evictable_size st' = rc_evictable_size st" "rc_protected_size st' = rc_protected_size st"
    "length (rc_nodes st') = length (rc_nodes st)"
    "n < length (rc_nodes st) \<Longrightarrow> n_children (node st' n) = n_children (node st n)"
    "n < length (rc_nodes st) \<Longrightarrow> n_parent (node st' n) = n_parent (node st n)"
    "n < length (rc_nodes st) \<Longrightarrow> n_key (node st' n) = n_key (node st n)"
    "n < length (rc_nodes st) \<Longrightarrow> n_value (node st' n) = n_value (node st n)"
    "n < length (rc_nodes st) \<Longrightarrow> n_lock_ref (node st' n) = n_lock_ref (node st n)"
    "n < length (rc_nodes st) \<Longrightarrow> n_hash_value (node st' n) = n_hash_value (node st n)"
  using assms by (auto simp: quiet_def config_def counts_def shape_def)

text \<open>The same with the hashes free to change.\<close>

definition calm :: "radix \<Rightarrow> radix \<Rightarrow> bool" where
  "calm st st' \<longleftrightarrow> config st' = config st \<and> counts st' = counts st
     \<and> length (rc_nodes st') = length (rc_nodes st)
     \<and> (\<forall>n<length (rc_nodes st). n_children (node st' n) = n_children (node st n)
          \<and> n_parent (node st' n) = n_parent (node st n) \<and> n_key (node st' n) = n_key (node st n)
          \<and> n_value (node st' n) = n_value (node st n) \<and> n_lock_ref (node st' n) = n_lock_ref (node st n))"

lemma quiet_calm: "quiet st st' \<Longrightarrow> calm st st'"
  by (simp add: calm_def quiet_def shape_def)

lemma calmD:
  assumes "calm st st'"
  shows "rc_root st' = rc_root st" "rc_disable st' = rc_disable st" "ps st' = ps st" "rc_events st' = rc_events st"
    "rc_is_eagle st' = rc_is_eagle st" "rc_evictable_leaves st' = rc_evictable_leaves st"
    "rc_evictable_size st' = rc_evictable_size st" "rc_protected_size st' = rc_protected_size st"
    "length (rc_nodes st') = length (rc_nodes st)"
    "n < length (rc_nodes st) \<Longrightarrow> n_children (node st' n) = n_children (node st n)"
    "n < length (rc_nodes st) \<Longrightarrow> n_parent (node st' n) = n_parent (node st n)"
    "n < length (rc_nodes st) \<Longrightarrow> n_key (node st' n) = n_key (node st n)"
    "n < length (rc_nodes st) \<Longrightarrow> n_value (node st' n) = n_value (node st n)"
    "n < length (rc_nodes st) \<Longrightarrow> n_lock_ref (node st' n) = n_lock_ref (node st n)"
  using assms by (auto simp: calm_def config_def counts_def)

lemma calm_tree_inv:
  assumes "calm st st'" "tree_inv st L pk pv"
  shows "tree_inv st' L pk pv"
proof -
  note q = calmD [OF assms(1)]
  note t = tree_invD [OF assms(2)]
  have l: "n < length (rc_nodes st)" if "n \<in> L" for n using t(3) that .
  have k: "c \<in> L" if "p \<in> L" "(k, c) \<in> set (kids st p)" for p k c using kidD(1) [OF assms(2) that] .
  have 1: "node_ok st' c \<longleftrightarrow> node_ok st c" if "c \<in> L" for c
    using l [OF that] by (simp add: node_ok_def q)
  have 2: "parent_ok st' L pk pv p c \<longleftrightarrow> parent_ok st L pk pv p c" if "c \<in> L" for p c
    using l [OF that] l [of p] by (cases "p \<in> L") (simp_all add: parent_ok_def q)
  have 3: "kids_ok st' L p" if "p \<in> L" for p
    using t(10) [OF that] l [OF that] k [OF that] l by (auto simp: kids_ok_def q)
  show ?thesis unfolding tree_inv_def
    using t(1-7) l 1 2 3 t(8,9) l [OF t(2)] by (simp add: q)
qed

lemma calm_lock_sum:
  assumes "calm st st'" "tree_inv st L pk pv" "p \<in> L"
  shows "(\<Sum>c\<leftarrow>map snd (kids st' p). lock st' c) = (\<Sum>c\<leftarrow>map snd (kids st p). lock st c)"
proof -
  have "kids st' p = kids st p" using calmD(10) [OF assms(1) tree_invD(3) [OF assms(2,3)]] .
  moreover have "map (lock st') (map snd (kids st p)) = map (lock st) (map snd (kids st p))"
    using kidD(1) [OF assms(2,3)] tree_invD(3) [OF assms(2)] calmD(14) [OF assms(1)] by auto
  ultimately show ?thesis by (simp only:)
qed

lemma calm_rest_inv:
  assumes "calm st st'" "tree_inv st L pk pv" "lock_inv st L H" "size_inv st L" "leaf_inv st L"
  shows "lock_inv st' L H" "size_inv st' L" "leaf_inv st' L"
proof -
  note q = calmD [OF assms(1)]
  have l: "n < length (rc_nodes st)" if "n \<in> L" for n using tree_invD(3) [OF assms(2) that] .
  have r: "rc_root st < length (rc_nodes st)" using l tree_invD(2) [OF assms(2)] .
  have "lock_ok st' H n \<longleftrightarrow> lock_ok st H n" if "n \<in> L" for n
    unfolding lock_ok_def calm_lock_sum [OF assms(1,2) that] q(14) [OF l [OF that]] ..
  then show "lock_inv st' L H" using assms(3) r by (simp add: lock_inv_def q)
  have "{n. n \<in> L \<and> n \<noteq> rc_root st \<and> lock st' n = 0} = {n. n \<in> L \<and> n \<noteq> rc_root st \<and> lock st n = 0}"
    "{n. n \<in> L \<and> n \<noteq> rc_root st \<and> lock st' n \<noteq> 0} = {n. n \<in> L \<and> n \<noteq> rc_root st \<and> lock st n \<noteq> 0}"
    using l by (auto simp: q)
  moreover have "(\<Sum>n | n \<in> L \<and> Q n. int (length (toks st' n))) = (\<Sum>n | n \<in> L \<and> Q n. int (length (toks st n)))" for Q
    using l by (intro sum.cong) (auto simp: q)
  ultimately show "size_inv st' L" using assms(4) by (simp add: size_inv_def q)
  show "leaf_inv st' L" using assms(5) l by (auto simp: leaf_inv_def q)
qed

lemma quiet_tree_inv: "quiet st st' \<Longrightarrow> tree_inv st L pk pv \<Longrightarrow> tree_inv st' L pk pv"
  using calm_tree_inv quiet_calm by blast

lemma quiet_radix_inv:
  assumes "quiet st st'" "radix_inv st L pk pv H"
  shows "radix_inv st' L pk pv H"
proof -
  note q = quietD [OF assms(1)]
  have t: "tree_inv st L pk pv" using assms(2) by (simp add: radix_inv_def)
  have l: "n < length (rc_nodes st)" if "n \<in> L" for n using tree_invD(3) [OF t that] .
  have "hash_inv st' L" using assms(2) l by (simp add: radix_inv_def hash_inv_def hash_ok_def q)
  then show ?thesis using quiet_tree_inv [OF assms(1) t] calm_rest_inv [OF quiet_calm [OF assms(1)] t] assms(2)
    unfolding radix_inv_def by blast
qed

end
