(* ===== verification/Radix_Split.thy ===== *)
theory Radix_Split
  imports Radix_Inv
begin

text \<open>
  Splitting a node (\<open>_split_node\<close>): what it does to the heap, and that it keeps the invariant, with the
  paths of all old nodes unchanged.
\<close>

lemma new_node_eq:
  "new_node env st p =
     (length (rc_nodes st),
      st\<lparr>rc_nodes := rc_nodes st @ [TreeNode p (monotonic env (rc_ticks st)) (monotonic env (Suc (rc_ticks st)))],
         rc_ticks := Suc (Suc (rc_ticks st))\<rparr>)"
  by (simp add: new_node_def read_clock_def)

lemma node_new [simp]:
  "node (st\<lparr>rc_nodes := rc_nodes st @ [x], rc_ticks := t\<rparr>) j
   = (if j < length (rc_nodes st) then node st j else if j = length (rc_nodes st) then x else [] ! (j - length (rc_nodes st) - 1))"
  by (auto simp: node_def nth_append nth_Cons')

definition split_rel :: "radix \<Rightarrow> radix \<Rightarrow> nat \<Rightarrow> nat \<Rightarrow> nat \<Rightarrow> bool" where
  "split_rel st st' p c k \<longleftrightarrow>
     config st' = config st \<and> counts st' = counts st \<and> length (rc_nodes st') = Suc (length (rc_nodes st))
     \<and> (\<forall>j<length (rc_nodes st). j \<noteq> c \<and> j \<noteq> p \<longrightarrow> shape (node st' j) = shape (node st j))
     \<and> shape (node st' p) = (AList.update (ckey (ps st) (ext st c) (toks st c)) (length (rc_nodes st)) (kids st p),
          n_parent (node st p), n_key (node st p), n_value (node st p), lock st p, n_hash_value (node st p))
     \<and> shape (node st' (length (rc_nodes st))) = ([(ckey (ps st) (ext st c) (drop k (toks st c)), c)], Some p,
          key_take k (n_key (node st c)), Some (take k (val st c)), lock st c,
          map_option (take (k div ps st)) (n_hash_value (node st c)))
     \<and> shape (node st' c) = (kids st c, Some (length (rc_nodes st)), key_drop k (n_key (node st c)),
          Some (drop k (val st c)), lock st c, map_option (drop (k div ps st)) (n_hash_value (node st c)))"

lemma key_take_simps [simp]:
  "token_ids (key_take k key) = take k (token_ids key)" "extra_key (key_take k key) = extra_key key"
  "token_ids (key_drop k key) = drop k (token_ids key)" "extra_key (key_drop k key) = extra_key key"
  by (simp_all add: key_take_def key_drop_def RadixKey_def)

lemma split_node_eq:
  assumes "c < length (rc_nodes st)" "p < length (rc_nodes st)" "p \<noteq> c" "n_parent (node st c) = Some p"
    "k < length (toks st c)" "n_value (node st c) = Some v"
  shows "\<exists>st'. split_node env st (n_key (node st c)) c k = ret (length (rc_nodes st), st') \<and> split_rel st st' p c k"
proof -
  define key where "key = n_key (node st c)"
  define hv where "hv = n_hash_value (node st c)"
  have "drop k (token_ids key) \<noteq> []" using assms(5) by (simp add: key_def)
  then have 1: "get_child_key (ps st) (key_drop k key) = ret (ckey (ps st) (extra_key key) (drop k (token_ids key)))"
    by (simp add: get_child_key_ckey)
  have "token_ids key \<noteq> []" using assms(5) by (auto simp: key_def)
  then have 2: "get_child_key (ps st) key = ret (ckey (ps st) (extra_key key) (token_ids key))"
    by (simp add: get_child_key_ckey)
  have 3: "split_node_hash_value hv k q = (map_option (take (k div q)) hv, map_option (drop (k div q)) hv)" for q
    by (cases hv) (auto simp: split_node_hash_value_def Let_def)
  have "p \<noteq> length (rc_nodes st)" "c \<noteq> length (rc_nodes st)" using assms by auto
  with assms 1 2 3 show ?thesis
    by (simp add: split_node_def new_node_eq key_def [symmetric] hv_def [symmetric] value_of_def set_child_def
        split_rel_def config_def counts_def shape_def Let_def)
qed

lemma splitD:
  assumes "split_rel st st' p c k" "c < length (rc_nodes st)" "p < length (rc_nodes st)" "p \<noteq> c"
  defines "N \<equiv> length (rc_nodes st)"
  shows "rc_root st' = rc_root st" "rc_disable st' = rc_disable st" "ps st' = ps st" "rc_events st' = rc_events st"
    "rc_is_eagle st' = rc_is_eagle st" "rc_evictable_leaves st' = rc_evictable_leaves st"
    "rc_evictable_size st' = rc_evictable_size st" "rc_protected_size st' = rc_protected_size st"
    "length (rc_nodes st') = Suc N"
    "j \<le> N \<Longrightarrow> kids st' j = (if j = N then [(ckey (ps st) (ext st c) (drop k (toks st c)), c)]
       else if j = p then AList.update (ckey (ps st) (ext st c) (toks st c)) N (kids st p) else kids st j)"
    "j \<le> N \<Longrightarrow> n_parent (node st' j) = (if j = N then Some p else if j = c then Some N else n_parent (node st j))"
    "j \<le> N \<Longrightarrow> n_key (node st' j) = (if j = N then key_take k (n_key (node st c))
       else if j = c then key_drop k (n_key (node st c)) else n_key (node st j))"
    "j \<le> N \<Longrightarrow> n_value (node st' j) = (if j = N then Some (take k (val st c))
       else if j = c then Some (drop k (val st c)) else n_value (node st j))"
    "j \<le> N \<Longrightarrow> lock st' j = (if j = N then lock st c else lock st j)"
    "j \<le> N \<Longrightarrow> n_hash_value (node st' j) = (if j = N then map_option (take (k div ps st)) (n_hash_value (node st c))
       else if j = c then map_option (drop (k div ps st)) (n_hash_value (node st c)) else n_hash_value (node st j))"
proof -
  have *: "j = N \<or> j = p \<or> j = c \<or> (j < N \<and> j \<noteq> p \<and> j \<noteq> c)" if "j \<le> N" for j using that by auto
  show "rc_root st' = rc_root st" "rc_disable st' = rc_disable st" "ps st' = ps st" "rc_events st' = rc_events st"
    "rc_is_eagle st' = rc_is_eagle st" "rc_evictable_leaves st' = rc_evictable_leaves st"
    "rc_evictable_size st' = rc_evictable_size st" "rc_protected_size st' = rc_protected_size st"
    "length (rc_nodes st') = Suc N"
    using assms by (auto simp: split_rel_def config_def counts_def)
  show "j \<le> N \<Longrightarrow> kids st' j = (if j = N then [(ckey (ps st) (ext st c) (drop k (toks st c)), c)]
       else if j = p then AList.update (ckey (ps st) (ext st c) (toks st c)) N (kids st p) else kids st j)"
    "j \<le> N \<Longrightarrow> n_parent (node st' j) = (if j = N then Some p else if j = c then Some N else n_parent (node st j))"
    "j \<le> N \<Longrightarrow> n_key (node st' j) = (if j = N then key_take k (n_key (node st c))
       else if j = c then key_drop k (n_key (node st c)) else n_key (node st j))"
    "j \<le> N \<Longrightarrow> n_value (node st' j) = (if j = N then Some (take k (val st c))
       else if j = c then Some (drop k (val st c)) else n_value (node st j))"
    "j \<le> N \<Longrightarrow> lock st' j = (if j = N then lock st c else lock st j)"
    "j \<le> N \<Longrightarrow> n_hash_value (node st' j) = (if j = N then map_option (take (k div ps st)) (n_hash_value (node st c))
       else if j = c then map_option (drop (k div ps st)) (n_hash_value (node st c)) else n_hash_value (node st j))"
    using assms(1-4) * [of j] by (auto simp: split_rel_def shape_def N_def)
qed

lemma ckey_take: "0 < q \<Longrightarrow> q \<le> k \<Longrightarrow> ckey q e (take k ts) = ckey q e ts"
  by (auto simp: ckey_def min_def hd_take)

lemma update_set:
  assumes "distinct (map fst al)" "(k, c) \<in> set al"
  shows "set (AList.update k v al) = insert (k, v) (set al - {(k, c)})"
  using assms
proof (induction al)
  case (Cons a al)
  then show ?case by (cases "fst a = k"; cases a) (force)+
qed simp

lemma split_tree_inv:
  assumes inv: "tree_inv st L pk pv" and sp: "split_rel st st' p c k" and par: "parent_ok st L pk pv p c"
    and c: "c \<in> L" "c \<noteq> rc_root st" and k: "0 < k" "k < length (toks st c)" "ps st dvd k"
  defines "N \<equiv> length (rc_nodes st)"
  shows "tree_inv st' (insert N L) (pk(N := pk p @ take k (toks st c))) (pv(N := pv p @ take k (val st c)))"
    (is "tree_inv st' ?L ?pk ?pv")
proof -
  note t = tree_invD [OF inv]
  have lt: "n < N" if "n \<in> L" for n using t(3) [OF that] by (simp add: N_def)
  have nN: "n \<noteq> N" "n \<le> N" if "n \<in> L" for n using lt [OF that] by auto
  have pL: "p \<in> L" and cp: "p \<noteq> c" using par t(8) [OF c] by (auto simp: parent_ok_def node_ok_def)
  have pc: "n_parent (node st c) = Some p" using par by (simp add: parent_ok_def)
  note d = splitD [OF sp t(3) [OF c(1)] t(3) [OF pL] cp, folded N_def]
  have rN: "rc_root st \<noteq> N" using nN t(2) by auto
  have cok: "node_ok st c" using t(8) [OF c] .
  have psk: "ps st \<le> k" using k by (auto dest: dvd_imp_le)
  define K where "K = ckey (ps st) (ext st c) (toks st c)"
  have Kc: "(K, c) \<in> set (kids st p)" using par by (simp add: parent_ok_def K_def)
  have dp: "distinct (map fst (kids st p))" using t(10) [OF pL] by (simp add: kids_ok_def)
  have kp: "set (kids st' p) = insert (K, N) (set (kids st p) - {(K, c)})"
    using update_set [OF dp Kc] nN [OF pL] by (simp add: d K_def)
  have onlyc: "k' = K" if "(k', c) \<in> set (kids st p)" for k' using kidD(4) [OF inv pL that] by (simp add: K_def)
  have nodes: "node_ok st' n" if "n \<in> ?L" "n \<noteq> rc_root st" for n
    using that t(8) [of n] cok k nN c
    by (cases "n = c"; cases "n = N") (auto simp: node_ok_def d dvd_diff_nat min_def)
  have parN: "parent_ok st' ?L ?pk ?pv p N"
    using pL nN par psk t(1) kp by (auto simp: parent_ok_def d ckey_take K_def)
  have parc: "parent_ok st' ?L ?pk ?pv N c"
    using pL c nN par by (simp add: parent_ok_def d rN)
  have paro: "\<exists>q. parent_ok st' ?L ?pk ?pv q n" if "n \<in> L" "n \<noteq> rc_root st" "n \<noteq> c" for n
  proof -
    from t(9) [OF that(1,2)] obtain q where q: "parent_ok st L pk pv q n" ..
    then have "q \<in> L" by (simp add: parent_ok_def)
    then have "parent_ok st' ?L ?pk ?pv q n"
      using q that nN kp by (cases "q = p"; cases "q = c") (auto simp: parent_ok_def d)
    then show ?thesis ..
  qed
  have kidsN: "kids_ok st' ?L N" using c nN by (simp add: kids_ok_def d)
  have kidsp: "kids_ok st' ?L p"
  proof (rule kids_okI)
    show "distinct (map fst (kids st' p))" using dp nN [OF pL] by (simp add: d distinct_update)
    fix k' c' assume "(k', c') \<in> set (kids st' p)"
    then consider "k' = K" "c' = N" | "(k', c') \<in> set (kids st p)" "c' \<noteq> c" 
      using onlyc [of k'] unfolding kp by blast
    then show "c' \<in> ?L \<and> c' \<noteq> rc_root st' \<and> n_parent (node st' c') = Some p
        \<and> k' = ckey (ps st') (ext st' c') (toks st' c')"
    proof cases
      case 1
      then show ?thesis using rN psk t(1) by (simp add: d ckey_take K_def)
    next
      case 2
      then show ?thesis using kidD(1-4) [OF inv pL, of k' c'] nN by (simp add: d)
    qed
  qed
  have kidso: "kids_ok st' ?L n" if "n \<in> L" "n \<noteq> p" for n
  proof (rule kids_okI)
    have e: "kids st' n = kids st n" using that nN by (simp add: d)
    then show "distinct (map fst (kids st' n))" using t(10) [OF that(1)] by (simp add: kids_ok_def)
    fix k' c' assume "(k', c') \<in> set (kids st' n)"
    then have "(k', c') \<in> set (kids st n)" unfolding e .
    from kidD(1-4) [OF inv that(1) this]
    show "c' \<in> ?L \<and> c' \<noteq> rc_root st' \<and> n_parent (node st' c') = Some n
        \<and> k' = ckey (ps st') (ext st' c') (toks st' c')"
      using that nN pc by (cases "c' = c") (auto simp: d)
  qed
  show ?thesis unfolding tree_inv_def
  proof (intro conjI ballI impI)
    show "0 < ps st'" "rc_root st' \<in> ?L" using t by (simp_all add: d)
    show "n < length (rc_nodes st')" if "n \<in> ?L" for n using that lt by (auto simp: d intro: less_SucI)
    show "toks st' (rc_root st') = []" "n_value (node st' (rc_root st')) = Some []"
      "?pk (rc_root st') = []" "?pv (rc_root st') = []"
      using t(2,4-7) nN rN c by (simp_all add: d)
    show "node_ok st' n" if "n \<in> ?L" "n \<noteq> rc_root st'" for n using nodes that by (simp add: d)
    show "\<exists>q. parent_ok st' ?L ?pk ?pv q n" if "n \<in> ?L" "n \<noteq> rc_root st'" for n
      using parN parc paro that by (cases "n = N"; cases "n = c") (auto simp: d)
    show "kids_ok st' ?L n" if "n \<in> ?L" for n using kidsN kidsp kidso that by auto
  qed
qed

lemma split_lock_inv:
  assumes inv: "tree_inv st L pk pv" and lk: "lock_inv st L H" and sp: "split_rel st st' p c k"
    and par: "parent_ok st L pk pv p c" and c: "c \<in> L" "c \<noteq> rc_root st"
  defines "N \<equiv> length (rc_nodes st)"
  shows "lock_inv st' (insert N L) H"
proof -
  note t = tree_invD [OF inv]
  have nN: "n \<noteq> N" "n \<le> N" if "n \<in> L" for n using t(3) [OF that] by (auto simp: N_def)
  have pL: "p \<in> L" and cp: "p \<noteq> c" using par t(8) [OF c] by (auto simp: parent_ok_def node_ok_def)
  note d = splitD [OF sp t(3) [OF c(1)] t(3) [OF pL] cp, folded N_def]
  have HN: "count H N = 0" using lk nN by (auto simp: lock_inv_def count_eq_zero_iff)
  have "0 \<le> lock st c" using lk c by (auto simp: lock_inv_def lock_ok_def)
  then have okN: "lock_ok st' H N" using nN c by (simp add: lock_ok_def d HN)
  have same: "(\<Sum>x\<leftarrow>map snd (kids st n). lock st' x) = (\<Sum>x\<leftarrow>map snd (kids st n). lock st x)" if "n \<in> L" for n
  proof -
    have "map (lock st') (map snd (kids st n)) = map (lock st) (map snd (kids st n))"
      using kidD(1) [OF inv that] nN by (auto simp: d)
    then show ?thesis by (rule arg_cong)
  qed
  have dp: "distinct (map fst (kids st p))" using t(10) [OF pL] by (simp add: kids_ok_def)
  then have "map_of (kids st p) (ckey (ps st) (ext st c) (toks st c)) = Some c"
    using par by (simp add: parent_ok_def)
  from alist_sum_update [OF dp this, of "lock st'" N]
  have sump: "(\<Sum>x\<leftarrow>map snd (kids st' p). lock st' x) = (\<Sum>x\<leftarrow>map snd (kids st p). lock st' x)"
    using nN [OF pL] nN [OF c(1)] d(14) [of N] d(14) [of c] d(10) [of p] by simp
  have sum: "(\<Sum>x\<leftarrow>map snd (kids st' n). lock st' x) = (\<Sum>x\<leftarrow>map snd (kids st n). lock st x)" if "n \<in> L" for n
  proof (cases "n = p")
    case True
    then show ?thesis using sump same [OF pL] by simp
  next
    case False
    then have "kids st' n = kids st n" using nN [OF that] by (simp add: d)
    then show ?thesis using same [OF that] by simp
  qed
  have "lock_ok st' H n \<longleftrightarrow> lock_ok st H n" if "n \<in> L" for n
  proof -
    have "lock st' n = lock st n" using nN [OF that] by (simp add: d)
    then show ?thesis unfolding lock_ok_def sum [OF that] by simp
  qed
  then show ?thesis using lk okN nN [OF t(2)] by (auto simp: lock_inv_def d)
qed

lemma split_inv:
  assumes inv: "radix_inv st L pk pv H" and sp: "split_rel st st' p c k" and par: "parent_ok st L pk pv p c"
    and c: "c \<in> L" "c \<noteq> rc_root st" and k: "0 < k" "k < length (toks st c)" "ps st dvd k"
  defines "N \<equiv> length (rc_nodes st)"
  shows "radix_inv st' (insert N L) (pk(N := pk p @ take k (toks st c))) (pv(N := pv p @ take k (val st c))) H"
proof -
  have ti: "tree_inv st L pk pv" and li: "lock_inv st L H" and si: "size_inv st L" and le: "leaf_inv st L"
    and hi: "hash_inv st L" using inv by (auto simp: radix_inv_def)
  note t = tree_invD [OF ti]
  have nN: "n \<noteq> N" "n \<le> N" if "n \<in> L" for n using t(3) [OF that] by (auto simp: N_def)
  have NL: "N \<notin> L" using nN by blast
  have pL: "p \<in> L" and cp: "p \<noteq> c" using par t(8) [OF c] by (auto simp: parent_ok_def node_ok_def)
  note d = splitD [OF sp t(3) [OF c(1)] t(3) [OF pL] cp, folded N_def]
  note fin = radix_finite_live [OF ti]
  have rN: "rc_root st \<noteq> N" using nN t(2) by auto
  have tk: "int (length (toks st' N)) + int (length (toks st' c)) = int (length (toks st c))"
    using nN [OF c(1)] k by (simp add: d)
  have sz: "(\<Sum>n | n \<in> insert N L \<and> n \<noteq> rc_root st \<and> Q (lock st' n). int (length (toks st' n)))
      = (\<Sum>n | n \<in> L \<and> n \<noteq> rc_root st \<and> Q (lock st n). int (length (toks st n)))" for Q
    by (rule sum_filter_split [OF fin c(1) NL]) (use nN c rN tk in \<open>simp_all add: d\<close>)
  have "size_inv st' (insert N L)"
    using si sz [of "\<lambda>x. x = 0"] sz [of "\<lambda>x. x \<noteq> 0"] by (simp add: size_inv_def d(1,7,8))
  moreover have "leaf_inv st' (insert N L)"
  proof -
    have "kids st' n = [] \<longleftrightarrow> kids st n = []" if "n \<in> L" for n
      using nN [OF that] par by (cases "n = p") (auto simp: d parent_ok_def dest!: arg_cong [where f = set])
    then show ?thesis using le nN by (auto simp: leaf_inv_def d)
  qed
  moreover have "hash_inv st' (insert N L)"
  proof -
    have "hash_ok st' n" if ev: "rc_events st" and n: "n \<in> insert N L" for n
    proof (cases "n = N \<or> n = c")
      case True
      have "hash_ok st c" using hi ev c by (simp add: hash_inv_def)
      then obtain hs where hs: "n_hash_value (node st c) = Some hs" "length hs * ps st = length (toks st c)"
        "\<forall>h\<in>set hs. digest h" by (auto simp: hash_ok_def)
      have "k div ps st * ps st = k" using k by simp
      moreover then have "(length hs - k div ps st) * ps st = length (toks st c) - k"
        by (simp add: diff_mult_distrib hs)
      moreover have "k div ps st \<le> length hs" using hs(2) k
        by (metis \<open>k div ps st * ps st = k\<close> less_imp_le mult_le_cancel2 nat_less_le t(1))
      moreover have "\<forall>h\<in>set (take (k div ps st) hs). digest h" "\<forall>h\<in>set (drop (k div ps st) hs). digest h"
        using hs(3) by (meson in_set_takeD in_set_dropD)+
      ultimately show ?thesis using True nN [OF c(1)] hs(1,2) k
        by (auto simp: hash_ok_def d min_def)
    next
      case False
      then have "n \<in> L" using n by simp
      then show ?thesis using hi ev nN False by (simp add: hash_inv_def hash_ok_def d)
    qed
    then show ?thesis by (simp add: hash_inv_def d)
  qed
  ultimately show ?thesis
    using split_tree_inv [OF ti sp par c k] split_lock_inv [OF ti li sp par c]
    by (simp add: radix_inv_def N_def)
qed

end
