(* ===== verification/Radix_Paths.thy ===== *)
theory Radix_Paths
  imports Radix_Split "HOL-Library.Sublist"
begin

text \<open>
  What a radix tree stores.  \<open>tpath st n k v\<close> says that \<open>n\<close> is a node of the tree and that \<open>k\<close> and \<open>v\<close> are
  the tokens and the slots on the path from the root to it.  \<open>cached st e ts vs\<close> is the abstract content
  of the cache: in the namespace \<open>e\<close> the token sequence \<open>ts\<close> is stored with the slots \<open>vs\<close>.

  The lemmas relate both to the ghost data of the invariant and show how a lookup descends: any node that
  agrees with the sought key beyond the current node lies below the child the code chooses.
\<close>

section \<open>The abstract content\<close>

inductive tpath :: "radix \<Rightarrow> nat \<Rightarrow> tok list \<Rightarrow> slot list \<Rightarrow> bool" for st where
  tpath_root: "tpath st (rc_root st) [] []"
| tpath_child: "tpath st p k v \<Longrightarrow> (ck, c) \<in> set (kids st p) \<Longrightarrow> tpath st c (k @ toks st c) (v @ val st c)"

definition cached :: "radix \<Rightarrow> string option \<Rightarrow> tok list \<Rightarrow> slot list \<Rightarrow> bool" where
  "cached st e ts vs \<longleftrightarrow>
     (\<exists>n k v. tpath st n k v \<and> (n = rc_root st \<or> ext st n = e) \<and> prefix ts k \<and> vs = take (length ts) v)"

lemma live_induct [consumes 2, case_names root child]:
  assumes "tree_inv st L pk pv" "n \<in> L" "P (rc_root st)"
    and "\<And>p c. c \<in> L \<Longrightarrow> c \<noteq> rc_root st \<Longrightarrow> parent_ok st L pk pv p c \<Longrightarrow> P p \<Longrightarrow> P c"
  shows "P n"
  using assms(2)
proof (induction "length (pk n)" arbitrary: n rule: less_induct)
  case less
  show ?case
  proof (cases "n = rc_root st")
    case False
    from tree_invD(9) [OF assms(1) less.prems False] obtain p where p: "parent_ok st L pk pv p n" ..
    moreover have "toks st n \<noteq> []" using tree_invD(8) [OF assms(1) less.prems False] by (simp add: node_ok_def)
    ultimately have "length (pk p) < length (pk n)" "p \<in> L" by (auto simp: parent_ok_def)
    with less.hyps have "P p" by blast
    with assms(4) [OF less.prems False p] show ?thesis .
  qed (use assms(3) in simp)
qed

lemma tpath_iff:
  assumes "tree_inv st L pk pv"
  shows "tpath st n k v \<longleftrightarrow> n \<in> L \<and> k = pk n \<and> v = pv n"
proof
  assume "tpath st n k v"
  then show "n \<in> L \<and> k = pk n \<and> v = pv n"
  proof (induction rule: tpath.induct)
    case tpath_root
    then show ?case using tree_invD [OF assms] by simp
  next
    case (tpath_child p k v ck c)
    with kidD(1,5) [OF assms _ tpath_child(2)] show ?case by (simp add: parent_ok_def)
  qed
next
  assume "n \<in> L \<and> k = pk n \<and> v = pv n"
  moreover have "tpath st n (pk n) (pv n)" if "n \<in> L"
    using assms that
  proof (induction rule: live_induct)
    case root
    then show ?case using tree_invD [OF assms] by (simp add: tpath_root)
  next
    case (child p c)
    then show ?case using tpath.tpath_child [of st p] by (fastforce simp: parent_ok_def)
  qed
  ultimately show "tpath st n k v" by simp
qed

lemma cached_iff:
  assumes "tree_inv st L pk pv"
  shows "cached st e ts vs \<longleftrightarrow>
    (\<exists>n\<in>L. (n = rc_root st \<or> ext st n = e) \<and> prefix ts (pk n) \<and> vs = take (length ts) (pv n))"
  unfolding cached_def tpath_iff [OF assms] by blast

lemma path_lengths:
  assumes "tree_inv st L pk pv" "n \<in> L"
  shows "length (pv n) = length (pk n) \<and> ps st dvd length (pk n)"
  using assms
proof (induction rule: live_induct)
  case root
  then show ?case using tree_invD [OF assms(1)] by simp
next
  case (child p c)
  then show ?case using tree_invD(8) [OF assms(1), of c] by (simp add: parent_ok_def node_ok_def)
qed

section \<open>Descending\<close>

definition child_of :: "radix \<Rightarrow> nat \<Rightarrow> nat \<Rightarrow> bool" where
  "child_of st n c \<longleftrightarrow> c \<in> snd ` set (kids st n)"

lemma child_ofD:
  assumes "tree_inv st L pk pv" "n \<in> L" "child_of st n c"
  shows "c \<in> L" "c \<noteq> rc_root st" "parent_ok st L pk pv n c"
  using assms kidD [OF assms(1,2)] by (auto simp: child_of_def)

lemma below_root:
  assumes "tree_inv st L pk pv" "n \<in> L"
  shows "(child_of st)\<^sup>*\<^sup>* (rc_root st) n"
  using assms
proof (induction rule: live_induct)
  case (child p c)
  then have "child_of st p c" by (force simp: parent_ok_def child_of_def)
  with child.IH show ?case by (rule rtranclp.rtrancl_into_rtrancl)
qed simp

lemma below_prefix:
  assumes "tree_inv st L pk pv" "n \<in> L" "(child_of st)\<^sup>*\<^sup>* n m"
  shows "m \<in> L \<and> prefix (pk n) (pk m) \<and> prefix (pv n) (pv m) \<and> (n \<noteq> rc_root st \<longrightarrow> ext st m = ext st n \<and> m \<noteq> rc_root st)"
  using assms(3)
proof (induction rule: rtranclp_induct)
  case base
  then show ?case using assms(2) by simp
next
  case (step y z)
  then have "y \<in> L" by simp
  from child_ofD [OF assms(1) this step(2)] step show ?case
    by (auto simp: parent_ok_def)
qed

lemma descend:
  assumes inv: "tree_inv st L pk pv" and n: "n \<in> L" and m: "(child_of st)\<^sup>*\<^sup>* n m"
    and e: "ext st m = e" and l: "ps st dvd l" "length (pk n) < l" "l \<le> length (pk m)"
    and ag: "take l (pk m) = take l (pk n @ ts)" and ts: "l \<le> length (pk n @ ts)"
  shows "\<exists>c. map_of (kids st n) (ckey (ps st) e ts) = Some c \<and> (child_of st)\<^sup>*\<^sup>* c m"
proof -
  from m l(2,3) obtain c where c: "child_of st n c" "(child_of st)\<^sup>*\<^sup>* c m"
    by (cases rule: converse_rtranclpE) auto
  note cD = child_ofD [OF inv n c(1)]
  from below_prefix [OF inv cD(1) c(2)] cD(2)
  have pm: "prefix (pk c) (pk m)" and em: "ext st c = e" using e by auto
  from tree_invD(8) [OF inv cD(1,2)] have tc: "toks st c \<noteq> []" "ps st dvd length (toks st c)"
    by (auto simp: node_ok_def)
  then have pc: "ps st \<le> length (toks st c)" by (auto dest: dvd_imp_le)
  have "ps st dvd l - length (pk n)" using l(1) path_lengths [OF inv n] by (simp add: dvd_diff_nat)
  then have pl: "ps st \<le> l - length (pk n)" using l(2) by (auto dest: dvd_imp_le)
  obtain zs where zs: "pk m = pk n @ toks st c @ zs" using pm cD(3) by (auto simp: parent_ok_def prefix_def)
  have "take (l - length (pk n)) (toks st c @ zs) = take (l - length (pk n)) ts"
    using ag l(2) by (simp add: zs take_append)
  then have "take (ps st) (take (l - length (pk n)) (toks st c @ zs)) = take (ps st) (take (l - length (pk n)) ts)"
    by simp
  then have "take (ps st) (toks st c) = take (ps st) ts" using pl pc by (simp add: min_def)
  moreover have "ts \<noteq> []" using l(2) ts by auto
  ultimately have "ckey (ps st) (ext st c) (toks st c) = ckey (ps st) e ts"
    using tc em by (simp add: ckey_eq_iff)
  moreover have "(ckey (ps st) (ext st c) (toks st c), c) \<in> set (kids st n)" using cD(3) by (simp add: parent_ok_def)
  ultimately have "map_of (kids st n) (ckey (ps st) e ts) = Some c"
    using kids_lookup [OF tree_invD(10) [OF inv n]] by simp
  with c(2) show ?thesis by blast
qed

section \<open>Comparing keys\<close>

lemma match_len_spec:
  "match_len as bs \<le> length as \<and> match_len as bs \<le> length bs
   \<and> take (match_len as bs) as = take (match_len as bs) bs
   \<and> (match_len as bs < length as \<longrightarrow> match_len as bs < length bs \<longrightarrow> as ! match_len as bs \<noteq> bs ! match_len as bs)"
  by (induction as bs rule: match_len.induct) auto

lemma match_pages_spec:
  assumes "0 < q" "q dvd m" "q dvd i" "i \<le> m" "take i s = take i t" "m \<le> length s" "m \<le> length t"
  shows "\<exists>r. match_pages q s t m i = ret r \<and> r \<le> m \<and> q dvd r \<and> take r s = take r t
             \<and> (r < m \<longrightarrow> take q (drop r s) \<noteq> take q (drop r t))"
  using assms
proof (induction "m - i" arbitrary: i rule: less_induct)
  case less
  show ?case
  proof (cases "i < m \<and> take q (drop i s) = take q (drop i t)")
    case True
    have "q dvd m - i" using less.prems by (simp add: dvd_diff_nat)
    then have "q \<le> m - i" using True by (auto dest: dvd_imp_le)
    then have le: "i + q \<le> m" using True by linarith
    have "take (i + q) s = take (i + q) t" using less.prems True by (simp add: take_add)
    with less.hyps [of "i + q"] less.prems le True
    have "\<exists>r. match_pages q s t m (i + q) = ret r \<and> r \<le> m \<and> q dvd r \<and> take r s = take r t
             \<and> (r < m \<longrightarrow> take q (drop r s) \<noteq> take q (drop r t))" by simp
    then show ?thesis using True by (simp add: match_pages.simps [of q s t m i] slice_def)
  next
    case False
    then have "match_pages q s t m i = ret i" by (auto simp: match_pages.simps [of q s t m i] slice_def)
    then show ?thesis using False less.prems by auto
  qed
qed

lemma key_match_spec:
  assumes "0 < q" "extra_key k0 = extra_key k1" "q dvd key_len k0" "q dvd key_len k1"
  shows "\<exists>r. key_match_fn q k0 k1 = ret r \<and> r \<le> key_len k0 \<and> r \<le> key_len k1 \<and> q dvd r
    \<and> take r (token_ids k0) = take r (token_ids k1)
    \<and> (r < key_len k0 \<longrightarrow> r < key_len k1 \<longrightarrow> take q (drop r (token_ids k0)) \<noteq> take q (drop r (token_ids k1)))"
proof (cases "q = 1")
  case True
  then show ?thesis using assms(2) match_len_spec [of "token_ids k0" "token_ids k1"]
    by (auto simp: key_match_fn_def key_match_page_size1_def check_extra_key_def key_len_def
        take_Suc_conv_app_nth hd_drop_conv_nth take_Suc)
next
  case False
  have "q dvd min (key_len k0) (key_len k1)" using assms by (simp add: min_def)
  from match_pages_spec [OF assms(1) this, of 0 "token_ids k0" "token_ids k1"] show ?thesis
    using assms(2) False by (auto simp: key_match_fn_def key_match_paged_def check_extra_key_def key_len_def)
qed

end
