(* ===== verification/Radix_Walk.thy ===== *)
theory Radix_Walk
  imports Radix_Paths
begin

text \<open>
  The walk down the tree that \<open>_match_prefix_helper\<close> and \<open>_insert_helper\<close> share.  \<open>at_node\<close> is the loop
  invariant: the current node lies on the path of the key, every node that agrees with the key further
  down lies below it, and all stored copies of the matched prefix have the same slots.  The lemmas are the
  two steps of the loop: on to a child that matches completely, or to a freshly split node.
\<close>

section \<open>Refining the tree\<close>

text \<open>\<open>extends\<close>: nodes may have been split, but the content is the same.\<close>

definition cache_slots :: "radix \<Rightarrow> nat set \<Rightarrow> slot multiset" where
  "cache_slots st L = (\<Sum>n\<in>L. mset (val st n))"

definition extends ::
  "radix \<Rightarrow> nat set \<Rightarrow> (nat \<Rightarrow> tok list) \<Rightarrow> (nat \<Rightarrow> slot list)
   \<Rightarrow> radix \<Rightarrow> nat set \<Rightarrow> (nat \<Rightarrow> tok list) \<Rightarrow> (nat \<Rightarrow> slot list) \<Rightarrow> bool" where
  "extends st L pk pv st' L' pk' pv' \<longleftrightarrow>
     config st' = config st \<and> counts st' = counts st \<and> L \<subseteq> L' \<and> cache_slots st' L' = cache_slots st L
     \<and> (\<forall>m\<in>L. pk' m = pk m \<and> pv' m = pv m \<and> ext st' m = ext st m)
     \<and> (\<forall>m\<in>L'. \<exists>m0\<in>L. (m = rc_root st \<or> m0 \<noteq> rc_root st \<and> ext st m0 = ext st' m)
           \<and> prefix (pk' m) (pk m0) \<and> prefix (pv' m) (pv m0))"

lemma extends_quiet:
  assumes "quiet st st'" "tree_inv st L pk pv"
  shows "extends st L pk pv st' L pk pv"
proof -
  note q = quietD(12,13) [OF assms(1) tree_invD(3) [OF assms(2)]]
  have "cache_slots st' L = cache_slots st L" unfolding cache_slots_def by (intro sum.cong) (auto simp: q)
  then show ?thesis using assms q by (auto simp: extends_def quiet_def)
qed

lemma extends_trans:
  assumes "extends st L pk pv st' L' pk' pv'" "extends st' L' pk' pv' st'' L'' pk'' pv''"
  shows "extends st L pk pv st'' L'' pk'' pv''"
proof -
  have r: "rc_root st' = rc_root st" using assms(1) by (auto simp: extends_def config_def)
  have "\<exists>m0\<in>L. (m = rc_root st \<or> m0 \<noteq> rc_root st \<and> ext st m0 = ext st'' m) \<and> prefix (pk'' m) (pk m0)
        \<and> prefix (pv'' m) (pv m0)" if "m \<in> L''" for m
  proof -
    from assms(2) that obtain m1 where 1: "m1 \<in> L'" "m = rc_root st \<or> m1 \<noteq> rc_root st \<and> ext st' m1 = ext st'' m"
      "prefix (pk'' m) (pk' m1)" "prefix (pv'' m) (pv' m1)" unfolding extends_def r by blast
    from assms(1) 1(1) obtain m0 where "m0 \<in> L" "m1 = rc_root st \<or> m0 \<noteq> rc_root st \<and> ext st m0 = ext st' m1"
      "prefix (pk' m1) (pk m0)" "prefix (pv' m1) (pv m0)" unfolding extends_def by blast
    with 1 show ?thesis by (metis prefix_order.trans)
  qed
  then show ?thesis using assms unfolding extends_def by (auto simp: r)
qed

lemma extends_split:
  assumes inv: "tree_inv st L pk pv" and sp: "split_rel st st' p c k" and par: "parent_ok st L pk pv p c"
    and c: "c \<in> L" "c \<noteq> rc_root st"
  defines "N \<equiv> length (rc_nodes st)"
  shows "extends st L pk pv st' (insert N L) (pk(N := pk p @ take k (toks st c))) (pv(N := pv p @ take k (val st c)))"
proof -
  note t = tree_invD [OF inv]
  have nN: "n \<noteq> N" "n \<le> N" if "n \<in> L" for n using t(3) [OF that] by (auto simp: N_def)
  have pL: "p \<in> L" and cp: "p \<noteq> c" using par t(8) [OF c] by (auto simp: parent_ok_def node_ok_def)
  note d = splitD [OF sp t(3) [OF c(1)] t(3) [OF pL] cp, folded N_def]
  have ext: "ext st' m = ext st m" if "m \<in> L" for m using nN [OF that] by (simp add: d)
  let ?pk = "pk(N := pk p @ take k (toks st c))" and ?pv = "pv(N := pv p @ take k (val st c))"
  have N: "prefix (?pk N) (pk c)" "prefix (?pv N) (pv c)" "ext st' N = ext st c"
    using par by (auto simp: parent_ok_def take_is_prefix d)
  have "\<exists>m0\<in>L. (m = rc_root st \<or> m0 \<noteq> rc_root st \<and> ext st m0 = ext st' m) \<and> prefix (?pk m) (pk m0) \<and> prefix (?pv m) (pv m0)"
    if "m \<in> insert N L" for m
  proof (cases "m = N")
    case True
    then show ?thesis using N c by (intro bexI [of _ c]) auto
  next
    case False
    then show ?thesis using that nN ext by (intro bexI [of _ m]) auto
  qed
  moreover have "cache_slots st' (insert N L) = cache_slots st L"
  proof -
    have fin: "finite L" using radix_finite_live [OF inv] .
    have NL: "N \<notin> L" using nN by blast
    have o: "(\<Sum>n\<in>L - {c}. mset (val st' n)) = (\<Sum>n\<in>L - {c}. mset (val st n))"
      using nN by (intro sum.cong) (auto simp: d)
    have "mset (val st' N) + mset (val st' c) = mset (val st c)"
      using nN [OF c(1)] by (simp add: d flip: mset_append)
    then show ?thesis unfolding cache_slots_def using fin NL c(1) o
      by (simp add: sum.remove [of L c] flip: add.assoc)
  qed
  ultimately show ?thesis using sp nN ext unfolding extends_def by (auto simp: split_rel_def)
qed

lemma extends_cached:
  assumes "extends st L pk pv st' L' pk' pv'" "tree_inv st L pk pv" "tree_inv st' L' pk' pv'"
  shows "cached st' e ts vs \<longleftrightarrow> cached st e ts vs"
proof
  have r: "rc_root st' = rc_root st" using assms(1) by (auto simp: extends_def config_def)
  assume "cached st' e ts vs"
  then obtain n where n: "n \<in> L'" "n = rc_root st \<or> ext st' n = e" "prefix ts (pk' n)" "vs = take (length ts) (pv' n)"
    unfolding cached_iff [OF assms(3)] r by blast
  from assms(1) n(1) obtain m where m: "m \<in> L" "n = rc_root st \<or> m \<noteq> rc_root st \<and> ext st m = ext st' n"
    "prefix (pk' n) (pk m)" "prefix (pv' n) (pv m)" unfolding extends_def by blast
  have "length (pv' n) = length (pk' n)" using path_lengths [OF assms(3) n(1)] by simp
  then have "vs = take (length ts) (pv m)"
    using n(3,4) m(4) by (auto simp: prefix_def)
  moreover have "prefix ts (pk m)" using n(3) m(3) by (rule prefix_order.trans)
  moreover have "ts = [] \<and> vs = []" if "n = rc_root st"
    using n that tree_invD(6) [OF assms(3)] by (simp add: r)
  ultimately show "cached st e ts vs"
    unfolding cached_iff [OF assms(2)] using m n(2) tree_invD(2,6,7) [OF assms(2)] by (cases "n = rc_root st") auto
next
  have r: "rc_root st' = rc_root st" using assms(1) by (auto simp: extends_def config_def)
  assume "cached st e ts vs"
  then show "cached st' e ts vs"
    using assms(1) unfolding cached_iff [OF assms(2)] cached_iff [OF assms(3)] r by (fastforce simp: extends_def)
qed

section \<open>The loop invariant\<close>

definition covers :: "radix \<Rightarrow> nat set \<Rightarrow> (nat \<Rightarrow> tok list) \<Rightarrow> string option \<Rightarrow> tok list \<Rightarrow> nat \<Rightarrow> nat \<Rightarrow> bool" where
  "covers st L pk e X l m \<longleftrightarrow> m \<in> L \<and> (m = rc_root st \<or> ext st m = e)
     \<and> l \<le> length (pk m) \<and> l \<le> length X \<and> ps st dvd l \<and> take l (pk m) = take l X"

definition at_node ::
  "radix \<Rightarrow> nat set \<Rightarrow> (nat \<Rightarrow> tok list) \<Rightarrow> (nat \<Rightarrow> slot list) \<Rightarrow> string option \<Rightarrow> tok list \<Rightarrow> nat \<Rightarrow> bool" where
  "at_node st L pk pv e X n \<longleftrightarrow> n \<in> L \<and> (n = rc_root st \<or> ext st n = e) \<and> prefix (pk n) X
     \<and> (\<forall>m l. covers st L pk e X l m \<longrightarrow>
          (length (pk n) < l \<longrightarrow> (child_of st)\<^sup>*\<^sup>* n m) \<and> (l \<le> length (pk n) \<longrightarrow> take l (pv m) = take l (pv n)))"

lemma at_root:
  assumes "tree_inv st L pk pv"
  shows "at_node st L pk pv e X (rc_root st)"
  using tree_invD [OF assms] below_root [OF assms] by (auto simp: at_node_def covers_def)

lemma quiet_below:
  assumes "quiet st st'" "tree_inv st L pk pv" "n \<in> L" "(child_of st)\<^sup>*\<^sup>* n m"
  shows "(child_of st')\<^sup>*\<^sup>* n m"
  using assms(4)
proof (induction rule: rtranclp_induct)
  case (step y z)
  have "y \<in> L" using below_prefix [OF assms(2,3) step(1)] by simp
  then have "kids st' y = kids st y" using quietD(10) [OF assms(1) tree_invD(3) [OF assms(2)]] by blast
  with step(2) have "child_of st' y z" by (simp add: child_of_def)
  with step(3) show ?case by (rule rtranclp.rtrancl_into_rtrancl)
qed simp

lemma quiet_at_node:
  assumes "quiet st st'" "tree_inv st L pk pv" "at_node st L pk pv e X n"
  shows "at_node st' L pk pv e X n"
proof -
  note q = quietD [OF assms(1)]
  have l: "m < length (rc_nodes st)" if "m \<in> L" for m using tree_invD(3) [OF assms(2) that] .
  have "covers st' L pk e X k m \<longleftrightarrow> covers st L pk e X k m" for k m
    using l [of m] by (auto simp: covers_def q)
  moreover have n: "n \<in> L" using assms(3) by (simp add: at_node_def)
  ultimately show ?thesis using assms(3) quiet_below [OF assms(1,2) n] l [OF n]
    by (auto simp: at_node_def q)
qed

text \<open>The child that the code looks up.\<close>

lemma lookup_child:
  assumes inv: "tree_inv st L pk pv" and n: "n \<in> L" and ts: "ts \<noteq> []"
    and c: "map_of (kids st n) (ckey (ps st) e ts) = Some c"
  shows "c \<in> L" "c \<noteq> rc_root st" "parent_ok st L pk pv n c" "ext st c = e" "take (ps st) (toks st c) = take (ps st) ts"
    "toks st c \<noteq> []" "c < length (rc_nodes st)" "ps st dvd length (toks st c)" "n_value (node st c) = Some (val st c)"
proof -
  have k: "(ckey (ps st) e ts, c) \<in> set (kids st n)" using c kids_lookup [OF tree_invD(10) [OF inv n]] by simp
  note kd = kidD [OF inv n k]
  then show "c \<in> L" "c \<noteq> rc_root st" "parent_ok st L pk pv n c" by simp_all
  from tree_invD(8) [OF inv kd(1,2)] show tc: "toks st c \<noteq> []" "ps st dvd length (toks st c)"
    and "n_value (node st c) = Some (val st c)" by (auto simp: node_ok_def)
  from kd(4) tc(1) ts show "ext st c = e" "take (ps st) (toks st c) = take (ps st) ts" by (auto simp: ckey_eq_iff)
  show "c < length (rc_nodes st)" using tree_invD(3) [OF inv kd(1)] .
qed

lemma below_child:
  assumes inv: "tree_inv st L pk pv" and at: "at_node st L pk pv e X n" and X: "X = pk n @ ts"
    and c: "map_of (kids st n) (ckey (ps st) e ts) = Some c"
    and m: "covers st L pk e X l m" "length (pk n) < l"
  shows "(child_of st)\<^sup>*\<^sup>* c m"
proof -
  have n: "n \<in> L" "(child_of st)\<^sup>*\<^sup>* n m" using at m by (auto simp: at_node_def)
  have "m \<noteq> rc_root st" using m tree_invD(6) [OF inv] by (auto simp: covers_def)
  then have "ext st m = e" using m by (simp add: covers_def)
  moreover have "ps st dvd l" "l \<le> length (pk m)" "take l (pk m) = take l (pk n @ ts)" "l \<le> length (pk n @ ts)"
    using m(1) X by (auto simp: covers_def)
  ultimately show ?thesis using descend [OF inv n _ _ m(2)] c by fastforce
qed

lemma advance_full:
  assumes inv: "tree_inv st L pk pv" and at: "at_node st L pk pv e X n" and X: "X = pk n @ ts" "ts \<noteq> []"
    and c: "map_of (kids st n) (ckey (ps st) e ts) = Some c"
    and r: "r = length (toks st c)" "take r ts = toks st c"
  shows "at_node st L pk pv e X c" and "X = pk c @ drop r ts" and "pv c = pv n @ val st c"
proof -
  have n: "n \<in> L" using at by (simp add: at_node_def)
  note lc = lookup_child [OF inv n X(2) c]
  have pc: "pk c = pk n @ toks st c" "pv c = pv n @ val st c" using lc(3) by (auto simp: parent_ok_def)
  then show "pv c = pv n @ val st c" by simp
  show X': "X = pk c @ drop r ts" using X r pc by (metis append_assoc append_take_drop_id)
  have bel: "(child_of st)\<^sup>*\<^sup>* c m" if "covers st L pk e X l m" "length (pk n) < l" for m l
    using below_child [OF inv at X(1) c that] .
  have "take l (pv m) = take l (pv c)" if m: "covers st L pk e X l m" and l: "l \<le> length (pk c)" for m l
  proof (cases "length (pk n) < l")
    case True
    have "prefix (pv c) (pv m)" using below_prefix [OF inv lc(1) bel [OF m True]] by simp
    moreover have "l \<le> length (pv c)" using l path_lengths [OF inv lc(1)] by simp
    ultimately show ?thesis by (auto simp: prefix_def)
  next
    case False
    then have "take l (pv m) = take l (pv n)" using at m by (auto simp: at_node_def)
    moreover have "l \<le> length (pv n)" using False path_lengths [OF inv n] by simp
    ultimately show ?thesis by (simp add: pc)
  qed
  then show "at_node st L pk pv e X c"
    using lc(1,4) X' bel pc by (auto simp: at_node_def)
qed

text \<open>A node that agrees with the key cannot agree beyond the first page that differs.\<close>

lemma mismatch_bound:
  assumes inv: "tree_inv st L pk pv" and at: "at_node st L pk pv e X n" and X: "X = pk n @ ts" "ts \<noteq> []"
    and c: "map_of (kids st n) (ckey (ps st) e ts) = Some c"
    and r: "r < length (toks st c)" "ps st dvd r"
    and ne: "r < length ts \<Longrightarrow> take (ps st) (drop r (toks st c)) \<noteq> take (ps st) (drop r ts)"
    and m: "covers st L pk e X l m"
  shows "l \<le> length (pk n) + r"
proof (rule ccontr)
  assume "\<not> l \<le> length (pk n) + r"
  then have l: "length (pk n) < l" "length (pk n) + r < l" by auto
  have n: "n \<in> L" using at by (simp add: at_node_def)
  note lc = lookup_child [OF inv n X(2) c]
  from below_prefix [OF inv lc(1) below_child [OF inv at X(1) c m l(1)]] lc(3)
  obtain zs where zs: "pk m = pk n @ toks st c @ zs" by (auto simp: parent_ok_def prefix_def)
  define j where "j = l - length (pk n)"
  have "ps st dvd j" using m path_lengths [OF inv n] by (simp add: covers_def j_def dvd_diff_nat)
  then have "ps st dvd j - r" using r(2) by (simp add: dvd_diff_nat)
  then have j: "r + ps st \<le> j" using l(2) by (auto simp: j_def dest!: dvd_imp_le)
  have "ps st dvd length (toks st c) - r" using lc(8) r(2) by (simp add: dvd_diff_nat)
  then have tc: "r + ps st \<le> length (toks st c)" using r(1) by (auto dest!: dvd_imp_le)
  have "take j (toks st c @ zs) = take j ts"
    using m l(1) by (simp add: covers_def X zs j_def take_append)
  then have "take (ps st) (drop r (take j (toks st c @ zs))) = take (ps st) (drop r (take j ts))" by (rule arg_cong)
  moreover have tj: "take (ps st) (drop r (take j ys)) = take (ps st) (drop r ys)" for ys :: "tok list"
    using j by (simp add: drop_take min_def)
  ultimately have "take (ps st) (drop r (toks st c @ zs)) = take (ps st) (drop r ts)" unfolding tj by blast
  then have "take (ps st) (drop r (toks st c)) = take (ps st) (drop r ts)" using tc by simp
  moreover have "r < length ts" using m l by (simp add: covers_def X)
  ultimately show False using ne by blast
qed

lemma advance_split:
  assumes inv: "tree_inv st L pk pv" and at: "at_node st L pk pv e X n" and X: "X = pk n @ ts" "ts \<noteq> []"
    and c: "map_of (kids st n) (ckey (ps st) e ts) = Some c"
    and r: "r < length (toks st c)" "ps st dvd r" "r \<le> length ts" "take r (toks st c) = take r ts"
    and ne: "r < length ts \<Longrightarrow> take (ps st) (drop r (toks st c)) \<noteq> take (ps st) (drop r ts)"
    and sp: "split_rel st st' n c r"
  defines "N \<equiv> length (rc_nodes st)"
  defines "pk' \<equiv> pk(N := pk n @ take r (toks st c))" and "pv' \<equiv> pv(N := pv n @ take r (val st c))"
  shows "at_node st' (insert N L) pk' pv' e X N"
    and "X = pk' N @ drop r ts" and "covers st' (insert N L) pk' e X l m \<Longrightarrow> l \<le> length (pk' N)"
proof -
  note t = tree_invD [OF inv]
  have n: "n \<in> L" using at by (simp add: at_node_def)
  note lc = lookup_child [OF inv n X(2) c]
  have nc: "n \<noteq> c" using lc(3,6) by (auto simp: parent_ok_def)
  note d = splitD [OF sp lc(7) t(3) [OF n] nc, folded N_def]
  have nN: "x \<noteq> N" "x \<le> N" if "x \<in> L" for x using t(3) [OF that] by (auto simp: N_def)
  have pc: "pk c = pk n @ toks st c" "pv c = pv n @ val st c" using lc(3) by (auto simp: parent_ok_def)
  have lenv: "length (pv n) = length (pk n)" "length (val st c) = length (toks st c)"
    using path_lengths [OF inv n] tree_invD(8) [OF inv lc(1,2)] by (auto simp: node_ok_def)
  have lN: "length (pk' N) = length (pk n) + r" "pv' N = take (length (pk n) + r) (pv c)"
    using r(1) lenv by (auto simp: pk'_def pv'_def pc)
  show X': "X = pk' N @ drop r ts" using X r(4) by (simp add: pk'_def)
  have old: "covers st L pk e X l m" if "covers st' (insert N L) pk' e X l m" "m \<noteq> N" for l m
  proof -
    have "m \<in> L" using that by (simp add: covers_def)
    then show ?thesis using that nN by (auto simp: covers_def pk'_def d split: if_splits)
  qed
  have bound: "l \<le> length (pk n) + r" if "covers st L pk e X l m" for l m
    using mismatch_bound [OF inv at X c r(1,2) _ that] ne by blast
  show bd: "l \<le> length (pk' N)" if "covers st' (insert N L) pk' e X l m" for l m
  proof (cases "m = N")
    case False
    then show ?thesis using bound [OF old [OF that False]] by (simp add: lN)
  qed (use that in \<open>simp add: covers_def\<close>)
  have "take l (pv' m) = take l (pv' N)" if m: "covers st' (insert N L) pk' e X l m" for l m
  proof (cases "m = N")
    case False
    note o = old [OF m False]
    have ll: "l \<le> length (pk n) + r" using bound [OF o] .
    have pvm: "pv' m = pv m" using False by (simp add: pv'_def)
    show ?thesis
    proof (cases "length (pk n) < l")
      case True
      have "prefix (pv c) (pv m)" using below_prefix [OF inv lc(1) below_child [OF inv at X(1) c o True]] by simp
      then have "take l (pv m) = take l (pv c)" using ll r(1) lenv by (auto simp: prefix_def pc)
      then show ?thesis using ll by (simp add: pvm lN(2) min_def)
    next
      case f: False
      then have "take l (pv m) = take l (pv n)" using at o by (auto simp: at_node_def)
      then show ?thesis using f lenv by (simp add: pvm lN(2) pc min_def)
    qed
  qed simp
  moreover have "ext st' N = e" using lc(4) by (simp add: d)
  ultimately show "at_node st' (insert N L) pk' pv' e X N"
    unfolding at_node_def using bd X' by (auto simp: not_le [symmetric] intro: prefixI)
qed

end
