(* ===== verification/Radix_Match.thy ===== *)
theory Radix_Match
  imports Radix_Walk
begin

text \<open>
  \<open>match_prefix\<close>: it always returns, keeps the invariant and the content, and finds the longest cached
  prefix.
\<close>

section \<open>One iteration of the walk\<close>

lemma value_ofI: "n_value x = Some v \<Longrightarrow> value_of x = ret v"
  by (simp add: value_of_def)

lemma walk_step:
  fixes now :: int
  assumes inv: "radix_inv st L pk pv H" and at: "at_node st L pk pv (extra_key key) X n"
    and X: "X = pk n @ token_ids key" "token_ids key \<noteq> []" and al: "ps st dvd key_len key"
    and c: "map_of (kids st n) (ckey (ps st) (extra_key key) (token_ids key)) = Some c"
  defines "s1 \<equiv> touch st c now"
  obtains r where "key_match_fn (ps s1) (n_key (node s1 c)) key = ret r" "0 < r" "r \<le> key_len key" "ps st dvd r"
      "r = key_len (n_key (node s1 c))" "radix_inv s1 L pk pv H" "extends st L pk pv s1 L pk pv"
      "at_node s1 L pk pv (extra_key key) X c" "X = pk c @ drop r (token_ids key)"
      "n_value (node s1 c) = Some (val s1 c)" "pv c = pv n @ val s1 c"
  | r N s2 L2 pk2 pv2 where "key_match_fn (ps s1) (n_key (node s1 c)) key = ret r" "0 < r" "r \<le> key_len key"
      "ps st dvd r" "r < key_len (n_key (node s1 c))" "split_node env s1 (n_key (node s1 c)) c r = ret (N, s2)"
      "radix_inv s2 L2 pk2 pv2 H" "extends st L pk pv s2 L2 pk2 pv2"
      "at_node s2 L2 pk2 pv2 (extra_key key) X N" "X = pk2 N @ drop r (token_ids key)"
      "n_value (node s2 N) = Some (val s2 N)" "pv2 N = pv n @ val s2 N"
      "\<And>m l. covers s2 L2 pk2 (extra_key key) X l m \<Longrightarrow> l \<le> length (pk2 N)"
proof -
  let ?e = "extra_key key" and ?ts = "token_ids key"
  have ti0: "tree_inv st L pk pv" using inv by (simp add: radix_inv_def)
  have n: "n \<in> L" using at by (simp add: at_node_def)
  have cl: "c < length (rc_nodes st)" using lookup_child(7) [OF ti0 n X(2) c] .
  have q: "quiet st s1" unfolding s1_def using cl by simp
  note qd = quietD [OF q]
  have inv1: "radix_inv s1 L pk pv H" using quiet_radix_inv [OF q inv] .
  then have ti: "tree_inv s1 L pk pv" by (simp add: radix_inv_def)
  have at1: "at_node s1 L pk pv ?e X n" using quiet_at_node [OF q ti0 at] .
  have c1: "map_of (kids s1 n) (ckey (ps s1) ?e ?ts) = Some c"
    using c tree_invD(3) [OF ti0 n] by (simp add: qd)
  note lc = lookup_child [OF ti n X(2) c1]
  note ex = extends_quiet [OF q ti0]
  from key_match_spec [OF tree_invD(1) [OF ti], of "n_key (node s1 c)" key] lc(4,8) al qd(3)
  obtain r where r: "key_match_fn (ps s1) (n_key (node s1 c)) key = ret r" "r \<le> length (toks s1 c)" "r \<le> length ?ts"
    "ps s1 dvd r" "take r (toks s1 c) = take r ?ts"
    "r < length (toks s1 c) \<longrightarrow> r < length ?ts \<longrightarrow> take (ps s1) (drop r (toks s1 c)) \<noteq> take (ps s1) (drop r ?ts)"
    by (auto simp: key_len_def)
  have r0: "0 < r"
  proof (rule ccontr)
    assume "\<not> 0 < r"
    then show False using r(6) lc(5,6) X(2) by auto
  qed
  show thesis
  proof (cases "r < length (toks s1 c)")
    case False
    then have full: "r = length (toks s1 c)" using r(2) by simp
    then have "take r ?ts = toks s1 c" using r(5) by simp
    note adv = advance_full [OF ti at1 X c1 full this]
    show thesis
      using that(1) [OF r(1) r0 _ _ _ inv1 ex adv(1,2) lc(9) adv(3)] r(3,4) full by (simp add: key_len_def qd)
  next
    case True
    have nl: "n < length (rc_nodes s1)" and ncne: "n \<noteq> c" and par: "n_parent (node s1 c) = Some n"
      using tree_invD(3) [OF ti n] lc(3,6) by (auto simp: parent_ok_def)
    from split_node_eq [OF lc(7) nl ncne par True lc(9), of env] obtain s2 where
      s2: "split_node env s1 (n_key (node s1 c)) c r = ret (length (rc_nodes s1), s2)" "split_rel s1 s2 n c r" by blast
    define N where "N = length (rc_nodes s1)"
    note d = splitD [OF s2(2) lc(7) nl ncne, folded N_def]
    note inv2 = split_inv [OF inv1 s2(2) lc(3,1,2) r0 True r(4), folded N_def]
    note ex2 = extends_trans [OF ex extends_split [OF ti s2(2) lc(3,1,2)], folded N_def]
    note adv = advance_split [OF ti at1 X c1 True r(4,3,5) _ s2(2), folded N_def]
    have ne: "take (ps s1) (drop r (toks s1 c)) \<noteq> take (ps s1) (drop r ?ts)" if "r < length ?ts" using r(6) True that by blast
    define PK PV where "PK = pk(N := pk n @ take r (toks s1 c))" and "PV = pv(N := pv n @ take r (val s1 c))"
    have bd: "\<And>m l. covers s2 (insert N L) PK ?e X l m \<Longrightarrow> l \<le> length (PK N)"
      unfolding PK_def by (rule adv(3) [OF ne])
    have vN: "n_value (node s2 N) = Some (val s2 N)" "PV N = pv n @ val s2 N" by (simp_all add: d PV_def)
    show thesis
      using that(2) [OF r(1) r0 _ _ _ s2(1) [folded N_def] inv2 [folded PK_def PV_def] ex2 [folded PK_def PV_def]
          adv(1) [OF ne, folded PK_def PV_def] adv(2) [OF ne, folded PK_def] vN bd] r(3,4) True
      by (simp add: key_len_def qd)
  qed
qed

section \<open>The loop\<close>

lemma no_deeper:
  assumes "tree_inv st L pk pv" "at_node st L pk pv e X n" "X = pk n @ ts"
    and "ts = [] \<or> map_of (kids st n) (ckey (ps st) e ts) = None"
    and m: "covers st L pk e X l m"
  shows "l \<le> length (pk n)"
proof (rule ccontr)
  assume "\<not> l \<le> length (pk n)"
  then have l: "length (pk n) < l" by simp
  have n: "n \<in> L" "(child_of st)\<^sup>*\<^sup>* n m" using assms l by (auto simp: at_node_def)
  have "m \<noteq> rc_root st" using m l tree_invD(6) [OF assms(1)] by (auto simp: covers_def)
  then have "ext st m = e" using m by (simp add: covers_def)
  moreover have "ps st dvd l" "l \<le> length (pk m)" "take l (pk m) = take l (pk n @ ts)" "l \<le> length (pk n @ ts)"
    using m assms(3) by (auto simp: covers_def)
  ultimately show False using descend [OF assms(1) n _ _ l, of e ts] assms(4) l by auto
qed

lemma match_loop_spec:
  assumes "radix_inv st L pk pv H" "at_node st L pk pv (extra_key key) X n" "X = pk n @ token_ids key"
    "ps st dvd key_len key" "token_ids key \<noteq> [] \<longrightarrow> ck = ckey (ps st) (extra_key key) (token_ids key)"
  shows "\<exists>st' L' pk' pv' n' vs'. match_loop env now st n key ck vs = ret (st', vs @ vs', n')
    \<and> radix_inv st' L' pk' pv' H \<and> extends st L pk pv st' L' pk' pv' \<and> at_node st' L' pk' pv' (extra_key key) X n'
    \<and> pv' n' = pv n @ concat vs' \<and> (\<forall>m l. covers st' L' pk' (extra_key key) X l m \<longrightarrow> l \<le> length (pk' n'))"
  using assms
proof (induction "key_len key" arbitrary: st L pk pv n key ck vs rule: less_induct)
  case less
  note inv = less.prems(1) and at = less.prems(2) and X = less.prems(3)
  have ti: "tree_inv st L pk pv" using inv by (simp add: radix_inv_def)
  show ?case
  proof (cases "token_ids key = [] \<or> map_of (kids st n) ck = None")
    case True
    then have "match_loop env now st n key ck vs = ret (st, vs, n)"
      by (subst match_loop.simps) (auto simp: key_len_def split: option.splits)
    moreover have "token_ids key = [] \<or> map_of (kids st n) (ckey (ps st) (extra_key key) (token_ids key)) = None"
      using True less.prems(5) by auto
    moreover have "extends st L pk pv st L pk pv" using extends_quiet [OF quiet_refl ti] .
    ultimately show ?thesis using inv at no_deeper [OF ti at X]
      by (intro exI [of _ st] exI [of _ L] exI [of _ pk] exI [of _ pv] exI [of _ n] exI [of _ "[]"]) auto
  next
    case False
    then obtain c where c: "map_of (kids st n) ck = Some c" and ne: "token_ids key \<noteq> []" by auto
    define s1 where "s1 = touch st c now"
    have c': "map_of (kids st n) (ckey (ps st) (extra_key key) (token_ids key)) = Some c" using c ne less.prems(5) by simp
    have kl: "key_len key \<noteq> 0" using ne by (simp add: key_len_def)
    have unf: "match_loop env now st n key ck vs =
        rbind (key_match_fn (ps s1) (n_key (node s1 c)) key) (\<lambda>plen.
            if plen < key_len (n_key (node s1 c))
            then rbind (split_node env s1 (n_key (node s1 c)) c plen) (\<lambda>(new, st).
                 rbind (value_of (node st new)) (\<lambda>v. ret (st, vs @ [v], new)))
            else rbind (value_of (node s1 c)) (\<lambda>v.
                 rbind (next_child_key (ps s1) (key_drop plen key) ck) (\<lambda>ck.
                 match_loop env now s1 c (key_drop plen key) ck (vs @ [v]))))"
      unfolding s1_def by (subst match_loop.simps) (simp add: c kl Let_def)
    from walk_step [OF inv at X ne less.prems(4) c', where now = now and env = env, folded s1_def] show ?thesis
    proof cases
      case (2 r N s2 L2 pk2 pv2)
      have "match_loop env now st n key ck vs = ret (s2, vs @ [val s2 N], N)"
        using 2(1,5,6) value_ofI [OF 2(11)] by (simp add: unf)
      then show ?thesis using 2(7-13) by (intro exI [of _ s2] exI [of _ L2] exI [of _ pk2] exI [of _ pv2] exI [of _ N]
            exI [of _ "[val s2 N]"]) auto
    next
      case (1 r)
      define key' where "key' = key_drop r key"
      have pse: "ps s1 = ps st" using 1(7) by (auto simp: extends_def config_def)
      obtain ck' where ck': "next_child_key (ps s1) key' ck = ret ck'"
          "token_ids key' \<noteq> [] \<longrightarrow> ck' = ckey (ps s1) (extra_key key') (token_ids key')"
        by (cases "token_ids key' = []") (auto simp: next_child_key_def key_len_def get_child_key_ckey)
      have ek: "extra_key key' = extra_key key" by (simp add: key'_def)
      have lt: "key_len key' < key_len key" using 1(2,3) by (simp add: key'_def key_len_def)
      have dv: "ps s1 dvd key_len key'" using 1(4) less.prems(4) pse by (simp add: key'_def key_len_def dvd_diff_nat)
      have "X = pk c @ token_ids key'" using 1(9) by (simp add: key'_def)
      from less.hyps [OF lt 1(6) _ this dv ck'(2), of "vs @ [val s1 c]"] 1(8) ek
      obtain s2 L2 pk2 pv2 n2 vs2 where ih: "match_loop env now s1 c key' ck' (vs @ [val s1 c]) = ret (s2, (vs @ [val s1 c]) @ vs2, n2)"
        "radix_inv s2 L2 pk2 pv2 H" "extends s1 L pk pv s2 L2 pk2 pv2" "at_node s2 L2 pk2 pv2 (extra_key key) X n2"
        "pv2 n2 = pv c @ concat vs2" "\<forall>m l. covers s2 L2 pk2 (extra_key key) X l m \<longrightarrow> l \<le> length (pk2 n2)" by auto
      have "match_loop env now st n key ck vs = ret (s2, vs @ (val s1 c # vs2), n2)"
        using 1(1,5) ck' ih(1) value_ofI [OF 1(10)] by (simp add: unf key'_def)
      moreover have "extends st L pk pv s2 L2 pk2 pv2" using extends_trans [OF 1(7) ih(3)] .
      moreover have "pv2 n2 = pv n @ concat (val s1 c # vs2)" using ih(5) 1(11) by simp
      ultimately show ?thesis using ih(2,4,6) by blast
    qed
  qed
qed

section \<open>The whole method\<close>

text \<open>The key that is looked up: converted to bigrams if need be, cut to whole pages.\<close>

definition lookup_key :: "radix \<Rightarrow> radix_key \<Rightarrow> tok list" where
  "lookup_key st key = page_align_keys (token_ids (fst (maybe_bigram_convert (rc_is_eagle st) key None))) (ps st)"

lemma maybe_bigram_extra [simp]: "extra_key (fst (maybe_bigram_convert b key v)) = extra_key key"
  by (simp add: maybe_bigram_convert_def Let_def)

lemma page_align_dvd: "0 < q \<Longrightarrow> q dvd length (page_align_keys xs q)"
  using div_times_less_eq_dividend [of "length xs" q] by (auto simp: page_align_keys_def min_absorb2)

lemma helper_start:
  fixes env :: rt_env
  assumes "radix_inv st L pk pv H"
  defines "s1 \<equiv> touch (snd (read_clock env st)) (rc_root st) (fst (read_clock env st))"
  shows "radix_inv s1 L pk pv H" "extends st L pk pv s1 L pk pv" "quiet st s1"
proof -
  have ti: "tree_inv st L pk pv" using assms(1) by (simp add: radix_inv_def)
  have "length (rc_nodes (snd (read_clock env st))) = length (rc_nodes st)" by (simp add: read_clock_def)
  then show q: "quiet st s1"
    unfolding s1_def using tree_invD(2,3) [OF ti]
    by (intro quiet_trans [OF quiet_read_clock quiet_touch]) auto
  then show "radix_inv s1 L pk pv H" "extends st L pk pv s1 L pk pv"
    using quiet_radix_inv assms(1) extends_quiet ti by blast+
qed

lemma match_prefix_spec:
  fixes key :: radix_key
  assumes inv: "radix_inv st L pk pv H" and en: "\<not> rc_disable st"
  defines "K \<equiv> lookup_key st key"
  shows "\<exists>st' L' pk' pv' n. match_prefix env st key = ret (st', pv' n, n)
    \<and> radix_inv st' L' pk' pv' H \<and> extends st L pk pv st' L' pk' pv' \<and> at_node st' L' pk' pv' (extra_key key) K n
    \<and> (\<forall>m l. covers st' L' pk' (extra_key key) K l m \<longrightarrow> l \<le> length (pk' n))"
proof -
  have ti: "tree_inv st L pk pv" using inv by (simp add: radix_inv_def)
  note t = tree_invD [OF ti]
  define k where "k = fst (maybe_bigram_convert (rc_is_eagle st) key None)"
  define k' where "k' = (if ps st \<noteq> 1 then key_take (key_len k div ps st * ps st) k else k)"
  have K: "token_ids k' = K" "extra_key k' = extra_key key"
    by (auto simp: k'_def K_def lookup_key_def k_def page_align_keys_def key_len_def)
  show ?thesis
  proof (cases "K = []")
    case True
    have "match_prefix env st key = ret (st, [], rc_root st)"
      using True t(1) K(1) unfolding match_prefix_def k_def [symmetric] Let_def k'_def [symmetric]
      by (auto simp: key_len_def)
    moreover have "at_node st L pk pv (extra_key key) K (rc_root st)" using at_root [OF ti] .
    moreover have "l \<le> length (pk (rc_root st))" if "covers st L pk (extra_key key) K l m" for l m
      using that True by (simp add: covers_def)
    moreover have "extends st L pk pv st L pk pv" using extends_quiet [OF quiet_refl ti] .
    moreover have "pv (rc_root st) = []" using t(7) .
    ultimately show ?thesis using inv
      by (intro exI [of _ st] exI [of _ L] exI [of _ pk] exI [of _ pv] exI [of _ "rc_root st"]) simp
  next
    case False
    then have "key_len k \<noteq> 0" using K(1) by (auto simp: k'_def key_len_def split: if_splits)
    define s1 where "s1 = touch (snd (read_clock env st)) (rc_root st) (fst (read_clock env st))"
    note hs = helper_start [OF inv, of env, folded s1_def]
    have r1: "rc_root s1 = rc_root st" "ps s1 = ps st" using quietD [OF hs(3)] by auto
    have ti1: "tree_inv s1 L pk pv" using hs(1) by (simp add: radix_inv_def)
    define ck where "ck = ckey (ps s1) (extra_key k') (token_ids k')"
    have gck: "get_child_key (ps s1) k' = ret ck" using False K by (simp add: ck_def get_child_key_ckey)
    have "match_prefix env st key = rbind (match_prefix_helper env st (rc_root st) k') (\<lambda>(st, val, last_node).
             ret (st, concat val, last_node))"
      using False K(1) \<open>key_len k \<noteq> 0\<close> en t(1)
      unfolding match_prefix_def k_def [symmetric] Let_def k'_def [symmetric] by (simp add: key_len_def)
    also have "match_prefix_helper env st (rc_root st) k'
      = match_loop env (fst (read_clock env st)) s1 (rc_root st) k' ck []"
      using gck by (simp add: match_prefix_helper_def s1_def case_prod_beta Let_def)
    finally have eq: "match_prefix env st key =
      rbind (match_loop env (fst (read_clock env st)) s1 (rc_root st) k' ck []) (\<lambda>(st, val, last_node).
             ret (st, concat val, last_node))" .
    have "at_node s1 L pk pv (extra_key k') K (rc_root st)" using at_root [OF ti1] r1 by simp
    moreover have "K = pk (rc_root st) @ token_ids k'" using K t(6) by simp
    moreover have "ps s1 dvd key_len k'"
      using page_align_dvd [OF t(1)] K(1) r1 by (simp add: key_len_def K_def lookup_key_def)
    ultimately obtain st' L' pk' pv' n' vs' where *:
      "match_loop env (fst (read_clock env st)) s1 (rc_root st) k' ck [] = ret (st', [] @ vs', n')"
      "radix_inv st' L' pk' pv' H" "extends s1 L pk pv st' L' pk' pv'" "at_node st' L' pk' pv' (extra_key k') K n'"
      "pv' n' = pv (rc_root st) @ concat vs'" "\<forall>m l. covers st' L' pk' (extra_key k') K l m \<longrightarrow> l \<le> length (pk' n')"
      using match_loop_spec [OF hs(1), of k' K "rc_root st" ck env "fst (read_clock env st)" "[]"]
      unfolding ck_def by blast
    then have "match_prefix env st key = ret (st', pv' n', n')" using t(7) by (simp add: eq)
    then show ?thesis using *(2,4,6) extends_trans [OF hs(2) *(3)] unfolding K(2) by blast
  qed
qed

text \<open>In terms of the content only.\<close>

definition radix_ok :: "radix \<Rightarrow> nat multiset \<Rightarrow> bool" where
  "radix_ok st H \<longleftrightarrow> (\<exists>L pk pv. radix_inv st L pk pv H)"

lemma at_node_cached:
  assumes inv: "tree_inv st L pk pv" and at: "at_node st L pk pv e X n"
    and mx: "\<forall>m l. covers st L pk e X l m \<longrightarrow> l \<le> length (pk n)"
    and c: "cached st e (take l X) ws" "ps st dvd l" "l \<le> length X"
  shows "l \<le> length (pv n) \<and> ws = take l (pv n)"
proof -
  from c(1) obtain m where m: "m \<in> L" "m = rc_root st \<or> ext st m = e" "prefix (take l X) (pk m)"
    "ws = take (length (take l X)) (pv m)" unfolding cached_iff [OF inv] by blast
  have "take l (pk m) = take l X" "l \<le> length (pk m)" using m(3) c(3) by (auto simp: prefix_def)
  then have cov: "covers st L pk e X l m" using m c by (simp add: covers_def)
  then have "l \<le> length (pk n)" "take l (pv m) = take l (pv n)" using mx at by (auto simp: at_node_def)
  then show ?thesis using m(4) c(3) path_lengths [OF inv] at by (simp add: at_node_def min_def)
qed

lemma match_prefix_longest_cached:
  fixes key :: radix_key
  assumes ok: "radix_ok st H" and en: "\<not> rc_disable st"
  defines "K \<equiv> lookup_key st key"
  shows "\<exists>st' vs n. match_prefix env st key = ret (st', vs, n) \<and> radix_ok st' H \<and> config st' = config st
    \<and> length vs \<le> length K \<and> tpath st' n (take (length vs) K) vs \<and> cached st (extra_key key) (take (length vs) K) vs
    \<and> (\<forall>l ws. ps st dvd l \<and> l \<le> length K \<and> cached st (extra_key key) (take l K) ws \<longrightarrow> l \<le> length vs \<and> ws = take l vs)
    \<and> (\<forall>e ts ws. cached st' e ts ws \<longleftrightarrow> cached st e ts ws)"
proof -
  from ok obtain L pk pv where inv: "radix_inv st L pk pv H" by (auto simp: radix_ok_def)
  then have ti: "tree_inv st L pk pv" by (simp add: radix_inv_def)
  from match_prefix_spec [OF inv en, where key = key and env = env, folded K_def] obtain st' L' pk' pv' n where *:
    "match_prefix env st key = ret (st', pv' n, n)" "radix_inv st' L' pk' pv' H" "extends st L pk pv st' L' pk' pv'"
    "at_node st' L' pk' pv' (extra_key key) K n" "\<forall>m l. covers st' L' pk' (extra_key key) K l m \<longrightarrow> l \<le> length (pk' n)"
    by blast
  have ti': "tree_inv st' L' pk' pv'" using *(2) by (simp add: radix_inv_def)
  have cf: "config st' = config st" using *(3) by (simp add: extends_def)
  then have p: "ps st' = ps st" by (simp add: config_def)
  have n: "n \<in> L'" "prefix (pk' n) K" "n = rc_root st' \<or> ext st' n = extra_key key" using *(4) by (auto simp: at_node_def)
  have ln: "length (pv' n) = length (pk' n)" using path_lengths [OF ti' n(1)] by simp
  then have tk: "take (length (pv' n)) K = pk' n" using n(2) by (auto simp: prefix_def)
  have tp: "tpath st' n (take (length (pv' n)) K) (pv' n)" using n(1) tk by (simp add: tpath_iff [OF ti'])
  have ca: "cached st' e ts ws \<longleftrightarrow> cached st e ts ws" for e ts ws using extends_cached [OF *(3) ti ti'] .
  have "cached st' (extra_key key) (take (length (pv' n)) K) (pv' n)"
    unfolding cached_def using tp n(3) ln tk
    by (intro exI [of _ n] exI [of _ "pk' n"] exI [of _ "pv' n"]) auto
  moreover have "length (pv' n) \<le> length K" using ln n(2) by (auto dest: prefix_length_le)
  moreover have "l \<le> length (pv' n) \<and> ws = take l (pv' n)"
    if "ps st dvd l" "l \<le> length K" "cached st (extra_key key) (take l K) ws" for l ws
    using at_node_cached [OF ti' *(4,5), of l ws] that by (simp add: ca p)
  ultimately show ?thesis using *(1,2) tp cf ca
    by (intro exI [of _ st'] exI [of _ "pv' n"] exI [of _ n]) (auto simp: radix_ok_def)
qed

end
