(* ===== verification/Radix_Hash.thy ===== *)
theory Radix_Hash
  imports Radix_Inv
begin

text \<open>
  The page hashes: on tokens that fit 32 bits, and with a digest function that returns 64 hexadecimal
  digits, hashing never fails and gives one digest per page; the event ids fit a signed 64-bit integer.
\<close>

definition sha_ok :: "rt_env \<Rightarrow> bool" where
  "sha_ok env \<longleftrightarrow> (\<forall>bs. digest (sha256_hex env bs))"

fun tok_ok :: "tok \<Rightarrow> bool" where
  "tok_ok (Tok t) \<longleftrightarrow> 0 \<le> t \<and> t < 2 ^ 32"
| "tok_ok (Bigram a b) \<longleftrightarrow> 0 \<le> a \<and> a < 2 ^ 32 \<and> 0 \<le> b \<and> b < 2 ^ 32"

lemma bytes_fromhex_ok: "even (length h) \<Longrightarrow> \<forall>c\<in>set h. hex_val c \<noteq> None \<Longrightarrow> \<exists>bs. bytes_fromhex h = ret bs"
proof (induction h rule: bytes_fromhex.induct)
  case (3 c d s)
  then obtain a b where ab: "hex_val c = Some a" "hex_val d = Some b" by auto
  have "\<exists>bs. bytes_fromhex s = ret bs" by (rule "3.IH" [of "Some a" "Some b"]) (use ab "3.prems" in auto)
  then obtain bs where "bytes_fromhex s = ret bs" ..
  with ab show ?case by simp
qed auto

lemma int_hex_from_ok:
  assumes "\<forall>c\<in>set h. hex_val c \<noteq> None" "0 \<le> a"
  shows "\<exists>i. int_hex_from a h = ret i \<and> 0 \<le> i \<and> i < (a + 1) * 16 ^ length h"
  using assms
proof (induction h arbitrary: a)
  case (Cons c h)
  then obtain x where x: "hex_val c = Some x" by auto
  then have "x < 16" by (auto simp: hex_val_def Let_def split: if_splits)
  from Cons.IH [of "16 * a + int x"] Cons.prems obtain i where
    i: "int_hex_from (16 * a + int x) h = ret i" "0 \<le> i" "i < (16 * a + int x + 1) * 16 ^ length h" by auto
  have "16 * a + int x + 1 \<le> (a + 1) * 16" using \<open>x < 16\<close> by simp
  then have "(16 * a + int x + 1) * 16 ^ length h \<le> (a + 1) * 16 * 16 ^ length h" by (rule mult_right_mono) simp
  then have "i < (a + 1) * 16 * 16 ^ length h" using i(3) by linarith
  then have "i < (a + 1) * 16 ^ length (c # h)" by (simp add: algebra_simps)
  then show ?case using x i by simp
qed simp

lemma hash_str_to_int64_ok:
  assumes "digest h"
  shows "\<exists>i. hash_str_to_int64 h = ret i \<and> - (2 ^ 63) \<le> i \<and> i < 2 ^ 63"
proof -
  have "length (take 16 h) = 16" "\<forall>c\<in>set (take 16 h). hex_val c \<noteq> None"
    using assms by (auto simp: digest_def dest: in_set_takeD)
  with int_hex_from_ok [of "take 16 h" 0] obtain i where
    i: "int_hex_from 0 (take 16 h) = ret i" "0 \<le> i" "i < 16 ^ 16" by auto
  moreover have "take 16 h \<noteq> []" using \<open>length (take 16 h) = 16\<close> by auto
  ultimately show ?thesis by (auto simp: hash_str_to_int64_def int_hex_def)
qed

lemma toks_bytes_ok: "\<forall>t\<in>set ts. tok_ok t \<Longrightarrow> \<exists>bs. toks_bytes ts = ret bs"
proof (induction ts)
  case (Cons t ts)
  have "\<exists>bs. tok_bytes t = ret bs" using Cons.prems by (cases t) (auto simp: to_bytes4_def)
  then show ?case using Cons by auto
qed simp

lemma get_hash_str_ok:
  assumes "sha_ok env" "\<forall>t\<in>set ts. tok_ok t" "prior = None \<or> digest (the prior)"
  shows "\<exists>h. get_hash_str (sha256_hex env) ts prior = ret h \<and> digest h"
proof -
  have "\<exists>bs. (case prior of None \<Rightarrow> ret [] | Some h \<Rightarrow> if h = [] then ret [] else bytes_fromhex h) = ret bs"
    using assms(3) bytes_fromhex_ok by (auto simp: digest_def split: option.splits)
  then show ?thesis using toks_bytes_ok [OF assms(2)] assms(1) by (auto simp: get_hash_str_def sha_ok_def)
qed

lemma chain_hashes_ok:
  assumes "sha_ok env" "\<forall>p\<in>set pgs. p \<noteq> [] \<and> (\<forall>t\<in>set p. tok_ok t)" "prior = None \<or> digest (the prior)"
  shows "\<exists>hs. chain_hashes (sha256_hex env) prior pgs = ret hs \<and> length hs = length pgs \<and> (\<forall>h\<in>set hs. digest h)"
  using assms(2,3)
proof (induction pgs arbitrary: prior)
  case (Cons p pgs)
  from get_hash_str_ok [OF assms(1), of p prior] Cons.prems
  obtain h where h: "get_hash_str (sha256_hex env) p prior = ret h" "digest h" by auto
  with Cons.IH [of "Some h"] Cons.prems show ?case by auto
qed simp

lemma pages_aligned:
  assumes "0 < q" "q dvd length xs"
  shows "length (pages q xs) * q = length xs" and "\<forall>p\<in>set (pages q xs). length p = q \<and> set p \<subseteq> set xs"
proof -
  obtain n where n: "length xs = q * n" using assms(2) by (auto elim: dvdE)
  have e: "q * n + q - 1 = (q - 1) + q * n" using assms(1) by simp
  have "(q * n + q - 1) div q = n" unfolding e using assms(1) by (subst div_mult_self2) auto
  then have len: "length (pages q xs) = n" by (simp add: pages_def n)
  then show "length (pages q xs) * q = length xs" by (simp add: n)
  have "length (slice xs (i * q) (i * q + q)) = q \<and> set (slice xs (i * q) (i * q + q)) \<subseteq> set xs" if "i < n" for i
  proof -
    have "Suc i * q \<le> n * q" using that by (intro mult_le_mono1) simp
    then show ?thesis by (auto simp: slice_def n algebra_simps dest: in_set_takeD in_set_dropD)
  qed
  then show "\<forall>p\<in>set (pages q xs). length p = q \<and> set p \<subseteq> set xs"
    using len by (auto simp: pages_def)
qed

lemma stored_events_ok: "\<forall>h\<in>set (map snd pgs). digest h \<Longrightarrow> \<exists>es. stored_events parent pgs = ret es"
proof (induction pgs arbitrary: parent)
  case (Cons p pgs)
  obtain q h where [simp]: "p = (q, h)" by (cases p)
  from hash_str_to_int64_ok [of h] Cons.prems obtain i where "hash_str_to_int64 h = ret i" by auto
  with Cons.IH [of "Some i"] Cons.prems show ?case by auto
qed simp

lemma removed_events_ok: "\<forall>h\<in>set hs. digest h \<Longrightarrow> \<exists>es. removed_events hs = ret es"
proof (induction hs)
  case (Cons h hs)
  with hash_str_to_int64_ok [of h] show ?case by auto
qed simp

text \<open>The hashes of a node: set already, or computed from the parent's last hash.\<close>

lemma node_hashes_set:
  assumes "hash_ok st i" "0 < ps st" "i < length (rc_nodes st)" "ps st dvd length (toks st i)"
  shows "\<exists>st' hs. node_hashes env st i = ret (st', hs) \<and> quiet st st' \<and> n_hash_value (node st i) = Some hs
     \<and> (\<forall>h\<in>set hs. digest h)"
proof -
  from assms(1) obtain hs where hs: "n_hash_value (node st i) = Some hs" "length hs * ps st = length (toks st i)"
    "\<forall>h\<in>set hs. digest h" by (auto simp: hash_ok_def)
  define s1 where "s1 = upd st i (\<lambda>x. x\<lparr>n_hash_value := Some hs\<rparr>)"
  have q: "quiet st s1" unfolding s1_def using assms(3) hs(1)
    by (auto simp: quiet_def shape_def config_def counts_def)
  have "length hs * ps st = length (pages (ps st) (toks st i)) * ps st"
    using pages_aligned(1) [OF assms(2,4)] hs(2) by simp
  then have "length hs = length (pages (ps st) (toks st i))" using assms(2) by simp
  then have "node_hashes env st i = ret (s1, hs)"
    using hs(1) assms(2) quietD(3,12) [OF q] assms(3) by (simp add: node_hashes_def Let_def s1_def [symmetric])
  then show ?thesis using q hs by blast
qed

lemma node_hashes_new:
  assumes "sha_ok env" "\<forall>t\<in>set (toks st i). tok_ok t" "0 < ps st" "i < length (rc_nodes st)"
    "ps st dvd length (toks st i)" "n_hash_value (node st i) = None" "n_parent (node st i) = Some p" "hash_ok st p"
  shows "\<exists>hs. node_hashes env st i = ret (upd st i (\<lambda>x. x\<lparr>n_hash_value := Some hs\<rparr>), hs)
     \<and> length hs * ps st = length (toks st i) \<and> (\<forall>h\<in>set hs. digest h)"
proof -
  from assms(8) obtain ph where ph: "n_hash_value (node st p) = Some ph" "\<forall>h\<in>set ph. digest h" by (auto simp: hash_ok_def)
  define prior where "prior = (if key_len (n_key (node st p)) > 0 \<and> length ph > 0 then Some (last ph) else None)"
  have pr: "prior = None \<or> digest (the prior)" using ph by (auto simp: prior_def)
  note pg = pages_aligned [OF assms(3,5)]
  have "\<forall>p\<in>set (pages (ps st) (toks st i)). p \<noteq> [] \<and> (\<forall>t\<in>set p. tok_ok t)"
    using pg(2) assms(2,3) by (metis length_0_conv less_irrefl subsetD)
  from chain_hashes_ok [OF assms(1) this pr] obtain hs where
    hs: "chain_hashes (sha256_hex env) prior (pages (ps st) (toks st i)) = ret hs"
    "length hs = length (pages (ps st) (toks st i))" "\<forall>h\<in>set hs. digest h" by auto
  have "compute_node_hash_values (sha256_hex env) (rc_nodes st) i (ps st) = ret hs"
    using hs(1) assms(3,7) ph(1) by (simp add: compute_node_hash_values_def prior_def node_def)
  then have "node_hashes env st i = ret (upd st i (\<lambda>x. x\<lparr>n_hash_value := Some hs\<rparr>), hs)"
    using assms(3,4,6) hs(2) by (simp add: node_hashes_def Let_def)
  then show ?thesis using hs(2,3) pg(1) by auto
qed

end
