(* ===== verification/Radix_Insert.thy ===== *)
theory Radix_Insert
  imports Radix_Match Radix_Hash
begin

text \<open>
  \<open>insert\<close>: the walk, the new leaf and its events.  Inserting always returns, keeps the invariant, and adds
  exactly the prefixes of the key to the content; the part that was cached before keeps its slots.
\<close>

section \<open>The walk\<close>

lemma insert_loop_spec:
  assumes "radix_inv st L pk pv H" "at_node st L pk pv (extra_key key) X n" "X = pk n @ token_ids key"
    "ps st dvd key_len key" "token_ids key \<noteq> [] \<longrightarrow> ck = ckey (ps st) (extra_key key) (token_ids key)"
  shows "\<exists>st' L' pk' pv' n' key' ck'. insert_loop env now prio chunked st n key ck v tot
      = ret (st', n', key', ck', drop (key_len key - key_len key') v, tot + (key_len key - key_len key'))
    \<and> radix_inv st' L' pk' pv' H \<and> extends st L pk pv st' L' pk' pv' \<and> at_node st' L' pk' pv' (extra_key key) X n'
    \<and> X = pk' n' @ token_ids key' \<and> extra_key key' = extra_key key \<and> ps st dvd key_len key' \<and> key_len key' \<le> key_len key
    \<and> (token_ids key' \<noteq> [] \<longrightarrow> ck' = ckey (ps st) (extra_key key) (token_ids key') \<and> map_of (kids st' n') ck' = None)"
  using assms
proof (induction "key_len key" arbitrary: st L pk pv n key ck v tot rule: less_induct)
  case less
  note inv = less.prems(1) and at = less.prems(2) and X = less.prems(3)
  have ti: "tree_inv st L pk pv" using inv by (simp add: radix_inv_def)
  show ?case
  proof (cases "token_ids key = [] \<or> map_of (kids st n) ck = None")
    case True
    then have "insert_loop env now prio chunked st n key ck v tot = ret (st, n, key, ck, v, tot)"
      by (subst insert_loop.simps) (auto simp: key_len_def split: option.splits)
    moreover have "extends st L pk pv st L pk pv" using extends_quiet [OF quiet_refl ti] .
    ultimately show ?thesis using inv at X less.prems(4,5) True
      by (intro exI [of _ st] exI [of _ L] exI [of _ pk] exI [of _ pv] exI [of _ n] exI [of _ key] exI [of _ ck]) auto
  next
    case False
    then obtain c where c: "map_of (kids st n) ck = Some c" and ne: "token_ids key \<noteq> []" by auto
    define s1 where "s1 = touch st c now"
    have c': "map_of (kids st n) (ckey (ps st) (extra_key key) (token_ids key)) = Some c" using c ne less.prems(5) by simp
    have kl: "key_len key \<noteq> 0" using ne by (simp add: key_len_def)
    have unf: "insert_loop env now prio chunked st n key ck v tot =
        rbind (key_match_fn (ps s1) (n_key (node s1 c)) key) (\<lambda>plen.
            rbind (if plen < key_len (n_key (node s1 c))
                   then split_node env s1 (n_key (node s1 c)) c plen
                   else ret (c, s1)) (\<lambda>(nxt, st).
            let st = inc_hit_count (raise_priority st nxt prio) nxt chunked in
            rbind (next_child_key (ps st) (key_drop plen key) ck) (\<lambda>ck.
            insert_loop env now prio chunked st nxt (key_drop plen key) ck (drop plen v) (tot + plen))))"
      unfolding s1_def by (subst insert_loop.simps) (simp add: c kl Let_def)
    obtain r s2 L2 pk2 pv2 m where
      m: "key_match_fn (ps s1) (n_key (node s1 c)) key = ret r" "0 < r" "r \<le> key_len key" "ps st dvd r"
      "(if r < key_len (n_key (node s1 c)) then split_node env s1 (n_key (node s1 c)) c r else ret (c, s1)) = ret (m, s2)"
      "radix_inv s2 L2 pk2 pv2 H" "extends st L pk pv s2 L2 pk2 pv2" "at_node s2 L2 pk2 pv2 (extra_key key) X m"
      "X = pk2 m @ drop r (token_ids key)"
    proof (rule walk_step [OF inv at X ne less.prems(4) c', where now = now and env = env, folded s1_def])
      fix r
      assume *: "key_match_fn (ps s1) (n_key (node s1 c)) key = ret r" "0 < r" "r \<le> key_len key" "ps st dvd r"
        "r = key_len (n_key (node s1 c))" "radix_inv s1 L pk pv H" "extends st L pk pv s1 L pk pv"
        "at_node s1 L pk pv (extra_key key) X c" "X = pk c @ drop r (token_ids key)"
      show thesis using that [OF *(1-4) _ *(6-9)] *(5) by simp
    next
      fix r N s2 L2 pk2 pv2
      assume *: "key_match_fn (ps s1) (n_key (node s1 c)) key = ret r" "0 < r" "r \<le> key_len key" "ps st dvd r"
        "r < key_len (n_key (node s1 c))" "split_node env s1 (n_key (node s1 c)) c r = ret (N, s2)"
        "radix_inv s2 L2 pk2 pv2 H" "extends st L pk pv s2 L2 pk2 pv2" "at_node s2 L2 pk2 pv2 (extra_key key) X N"
        "X = pk2 N @ drop r (token_ids key)"
      show thesis using that [OF *(1-4) _ *(7-10)] *(5,6) by simp
    qed
    define s3 where "s3 = inc_hit_count (raise_priority s2 m prio) m chunked"
    have ti2: "tree_inv s2 L2 pk2 pv2" using m(6) by (simp add: radix_inv_def)
    have "m < length (rc_nodes s2)" using m(8) tree_invD(3) [OF ti2] by (simp add: at_node_def)
    then have q: "quiet s2 s3" unfolding s3_def
      by (intro quiet_trans [OF quiet_raise_priority quiet_inc_hit_count]) (auto simp: raise_priority_def)
    define key' where "key' = key_drop r key"
    have pse: "ps s3 = ps st" using m(7) quietD(3) [OF q] by (auto simp: extends_def config_def)
    obtain ck' where ck': "next_child_key (ps s3) key' ck = ret ck'"
        "token_ids key' \<noteq> [] \<longrightarrow> ck' = ckey (ps s3) (extra_key key') (token_ids key')"
      by (cases "token_ids key' = []") (auto simp: next_child_key_def key_len_def get_child_key_ckey)
    have ek: "extra_key key' = extra_key key" by (simp add: key'_def)
    have kl': "key_len key' = key_len key - r" by (simp add: key'_def key_len_def)
    then have lt: "key_len key' < key_len key" using m(2,3) by simp
    have dv: "ps s3 dvd key_len key'" using m(4) less.prems(4) by (simp add: kl' pse dvd_diff_nat)
    have X': "X = pk2 m @ token_ids key'" using m(9) by (simp add: key'_def)
    have at3: "at_node s3 L2 pk2 pv2 (extra_key key') X m" using quiet_at_node [OF q ti2 m(8)] ek by simp
    from less.hyps [OF lt quiet_radix_inv [OF q m(6)] at3 X' dv ck'(2), of "drop r v" "tot + r"]
    obtain s4 L4 pk4 pv4 n4 key4 ck4 where ih:
      "insert_loop env now prio chunked s3 m key' ck' (drop r v) (tot + r)
        = ret (s4, n4, key4, ck4, drop (key_len key' - key_len key4) (drop r v), tot + r + (key_len key' - key_len key4))"
      "radix_inv s4 L4 pk4 pv4 H" "extends s3 L2 pk2 pv2 s4 L4 pk4 pv4" "at_node s4 L4 pk4 pv4 (extra_key key) X n4"
      "X = pk4 n4 @ token_ids key4" "extra_key key4 = extra_key key" "ps st dvd key_len key4" "key_len key4 \<le> key_len key'"
      "token_ids key4 \<noteq> [] \<longrightarrow> ck4 = ckey (ps st) (extra_key key) (token_ids key4) \<and> map_of (kids s4 n4) ck4 = None"
      unfolding ek pse by blast
    have "key_len key' - key_len key4 + r = key_len key - key_len key4" using ih(8) kl' m(3) by simp
    then have "insert_loop env now prio chunked st n key ck v tot
        = ret (s4, n4, key4, ck4, drop (key_len key - key_len key4) v, tot + (key_len key - key_len key4))"
      using m(1,5) ck'(1) ih(1) by (simp add: unf s3_def [symmetric] key'_def [symmetric] Let_def add.assoc add.commute [of r])
    moreover have "extends st L pk pv s4 L4 pk4 pv4"
      using extends_trans [OF extends_trans [OF m(7) extends_quiet [OF q ti2]] ih(3)] .
    moreover have "key_len key4 \<le> key_len key" using ih(8) lt by simp
    ultimately show ?thesis using ih by blast
  qed
qed

section \<open>The new leaf\<close>

text \<open>\<open>add_leaf\<close>: the state after the new node has been linked, before its events are recorded.\<close>

definition add_leaf :: "rt_env \<Rightarrow> radix \<Rightarrow> nat \<Rightarrow> radix_key \<Rightarrow> child_key \<Rightarrow> slot list \<Rightarrow> int \<Rightarrow> bool \<Rightarrow> radix" where
  "add_leaf env st i key ck v prio chunked =
     (let (new, st) = new_node env st prio;
          st = upd st new (\<lambda>x. x\<lparr>n_parent := Some i, n_key := key, n_value := Some v\<rparr>);
          st = inc_hit_count st new chunked;
          st = upd st i (\<lambda>x. x\<lparr>n_children := AList.update ck new (n_children x)\<rparr>);
          st = st\<lparr>rc_evictable_size := rc_evictable_size st + int (key_len key)\<rparr>
      in update_leaf_status (update_leaf_status st i) new)"

definition leaf_rel :: "radix \<Rightarrow> radix \<Rightarrow> nat \<Rightarrow> radix_key \<Rightarrow> slot list \<Rightarrow> bool" where
  "leaf_rel st st' i key v \<longleftrightarrow> config st' = config st
     \<and> counts st' = (insert (length (rc_nodes st)) (rc_evictable_leaves st - {i}),
                     rc_evictable_size st + int (key_len key), rc_protected_size st)
     \<and> length (rc_nodes st') = Suc (length (rc_nodes st))
     \<and> (\<forall>j<length (rc_nodes st). j \<noteq> i \<longrightarrow> shape (node st' j) = shape (node st j))
     \<and> shape (node st' i) = (kids st i @ [(ckey (ps st) (extra_key key) (token_ids key), length (rc_nodes st))],
          n_parent (node st i), n_key (node st i), n_value (node st i), lock st i, n_hash_value (node st i))
     \<and> shape (node st' (length (rc_nodes st))) = ([], Some i, key, Some v, 0, None)"

lemma add_leaf_rel:
  assumes "i < length (rc_nodes st)" "map_of (kids st i) (ckey (ps st) (extra_key key) (token_ids key)) = None"
    "n_value (node st i) \<noteq> None"
  shows "leaf_rel st (add_leaf env st i key (ckey (ps st) (extra_key key) (token_ids key)) v prio chunked) i key v"
proof -
  let ?ck = "ckey (ps st) (extra_key key) (token_ids key)"
  define s1 where "s1 = snd (new_node env st prio)"
  define N where "N = length (rc_nodes st)"
  define s2 where "s2 = inc_hit_count (upd s1 N (\<lambda>x. x\<lparr>n_parent := Some i, n_key := key, n_value := Some v\<rparr>)) N chunked"
  define s3 where "s3 = upd s2 i (\<lambda>x. x\<lparr>n_children := AList.update ?ck N (n_children x)\<rparr>)"
  define s4 where "s4 = s3\<lparr>rc_evictable_size := rc_evictable_size s3 + int (key_len key)\<rparr>"
  have nn: "new_node env st prio = (N, s1)" by (simp add: s1_def N_def new_node_eq)
  have iN: "i \<noteq> N" "i < Suc N" using assms(1) by (auto simp: N_def)
  have s1: "config s1 = config st" "counts s1 = counts st" "length (rc_nodes s1) = Suc N"
    "\<forall>j<N. node s1 j = node st j" "shape (node s1 N) = ([], None, RadixKey [] None False, None, 0, None)"
    by (simp_all add: s1_def new_node_eq config_def counts_def N_def shape_def TreeNode_def)
  have s2: "config s2 = config st" "counts s2 = counts st" "length (rc_nodes s2) = Suc N"
    "\<forall>j<N. node s2 j = node st j" "shape (node s2 N) = ([], Some i, key, Some v, 0, None)"
    using s1 by (auto simp: s2_def inc_hit_count_def shape_def config_def counts_def)
  have upd: "AList.update ?ck N (kids st i) = kids st i @ [(?ck, N)]"
    using assms(2) by (intro alist_update_new) (simp add: map_of_eq_None_iff)
  have s3: "config s4 = config st" "counts s4 = (rc_evictable_leaves st, rc_evictable_size st + int (key_len key), rc_protected_size st)"
    "length (rc_nodes s4) = Suc N" "\<forall>j<N. j \<noteq> i \<longrightarrow> node s4 j = node st j" "shape (node s4 N) = ([], Some i, key, Some v, 0, None)"
    "shape (node s4 i) = (kids st i @ [(?ck, N)], n_parent (node st i), n_key (node st i), n_value (node st i), lock st i, n_hash_value (node st i))"
    using s2 iN assms(1) upd
    by (auto simp: s4_def s3_def shape_def config_def counts_def node_def upd_def N_def nth_list_update)
  have nodes: "node (update_leaf_status s j) n = node s n" "config (update_leaf_status s j) = config s"
    "length (rc_nodes (update_leaf_status s j)) = length (rc_nodes s)" for s j n
    by (auto simp: update_leaf_status_def node_def config_def)
  have l1: "counts (update_leaf_status s4 i) = (rc_evictable_leaves st - {i}, rc_evictable_size st + int (key_len key), rc_protected_size st)"
  proof -
    have "\<not> evicted (node s4 N)" using s3(5) by (simp add: shape_def evicted_def)
    moreover have "N \<in> set (map snd (kids s4 i))" using s3(6) by (simp add: shape_def)
    ultimately have "\<exists>c\<in>set (map snd (kids s4 i)). \<not> evicted (node s4 c)" by blast
    then show ?thesis using s3(2) unfolding update_leaf_status_def by (simp add: counts_def)
  qed
  have "counts (update_leaf_status (update_leaf_status s4 i) N)
      = (insert N (rc_evictable_leaves st - {i}), rc_evictable_size st + int (key_len key), rc_protected_size st)"
    using l1 s3(5) unfolding update_leaf_status_def [of "update_leaf_status s4 i"]
    by (simp add: nodes counts_def shape_def evicted_def)
  moreover have "add_leaf env st i key ?ck v prio chunked = update_leaf_status (update_leaf_status s4 i) N"
    by (simp add: add_leaf_def nn s2_def s3_def s4_def Let_def)
  ultimately show ?thesis using s3 unfolding leaf_rel_def by (simp add: nodes N_def)
qed

lemma leafD:
  assumes "leaf_rel st st' i key v" "i < length (rc_nodes st)"
  defines "N \<equiv> length (rc_nodes st)"
  shows "rc_root st' = rc_root st" "ps st' = ps st" "rc_events st' = rc_events st"
    "rc_evictable_leaves st' = insert N (rc_evictable_leaves st - {i})"
    "rc_evictable_size st' = rc_evictable_size st + int (key_len key)" "rc_protected_size st' = rc_protected_size st"
    "length (rc_nodes st') = Suc N"
    "j \<le> N \<Longrightarrow> kids st' j = (if j = N then [] else if j = i then kids st i @ [(ckey (ps st) (extra_key key) (token_ids key), N)] else kids st j)"
    "j \<le> N \<Longrightarrow> n_parent (node st' j) = (if j = N then Some i else n_parent (node st j))"
    "j \<le> N \<Longrightarrow> n_key (node st' j) = (if j = N then key else n_key (node st j))"
    "j \<le> N \<Longrightarrow> n_value (node st' j) = (if j = N then Some v else n_value (node st j))"
    "j \<le> N \<Longrightarrow> lock st' j = (if j = N then 0 else lock st j)"
    "j \<le> N \<Longrightarrow> n_hash_value (node st' j) = (if j = N then None else n_hash_value (node st j))"
proof -
  have *: "j = N \<or> j = i \<or> (j < N \<and> j \<noteq> i)" if "j \<le> N" using that by auto
  show "rc_root st' = rc_root st" "ps st' = ps st" "rc_events st' = rc_events st"
    "rc_evictable_leaves st' = insert N (rc_evictable_leaves st - {i})"
    "rc_evictable_size st' = rc_evictable_size st + int (key_len key)" "rc_protected_size st' = rc_protected_size st"
    "length (rc_nodes st') = Suc N"
    using assms by (auto simp: leaf_rel_def config_def counts_def)
  show "j \<le> N \<Longrightarrow> kids st' j = (if j = N then [] else if j = i then kids st i @ [(ckey (ps st) (extra_key key) (token_ids key), N)] else kids st j)"
    "j \<le> N \<Longrightarrow> n_parent (node st' j) = (if j = N then Some i else n_parent (node st j))"
    "j \<le> N \<Longrightarrow> n_key (node st' j) = (if j = N then key else n_key (node st j))"
    "j \<le> N \<Longrightarrow> n_value (node st' j) = (if j = N then Some v else n_value (node st j))"
    "j \<le> N \<Longrightarrow> lock st' j = (if j = N then 0 else lock st j)"
    "j \<le> N \<Longrightarrow> n_hash_value (node st' j) = (if j = N then None else n_hash_value (node st j))"
    using assms(1,2) * by (auto simp: leaf_rel_def shape_def N_def)
qed

lemma leaf_tree_inv:
  assumes inv: "tree_inv st L pk pv" and lr: "leaf_rel st st' i key v" and i: "i \<in> L" "i = rc_root st \<or> ext st i = extra_key key"
    and ts: "token_ids key \<noteq> []" "ps st dvd key_len key" "length v = key_len key"
    and none: "map_of (kids st i) (ckey (ps st) (extra_key key) (token_ids key)) = None"
  defines "N \<equiv> length (rc_nodes st)"
  shows "tree_inv st' (insert N L) (pk(N := pk i @ token_ids key)) (pv(N := pv i @ v))" (is "tree_inv st' ?L ?pk ?pv")
proof -
  note t = tree_invD [OF inv]
  have nN: "n \<noteq> N" "n \<le> N" "n < N" if "n \<in> L" for n using t(3) [OF that] by (auto simp: N_def)
  note d = leafD [OF lr t(3) [OF i(1)], folded N_def]
  have rN: "rc_root st \<noteq> N" using nN t(2) by auto
  have nodes: "node_ok st' n" if "n \<in> ?L" "n \<noteq> rc_root st" for n
    using that t(8) [of n] nN ts by (cases "n = N") (auto simp: node_ok_def d key_len_def)
  have parN: "parent_ok st' ?L ?pk ?pv i N" using i nN by (auto simp: parent_ok_def d)
  have paro: "\<exists>q. parent_ok st' ?L ?pk ?pv q n" if n: "n \<in> L" "n \<noteq> rc_root st" for n
  proof -
    from t(9) [OF n] obtain q where q: "parent_ok st L pk pv q n" ..
    then have "q \<in> L" by (simp add: parent_ok_def)
    then have "parent_ok st' ?L ?pk ?pv q n" using q n nN by (auto simp: parent_ok_def d)
    then show ?thesis ..
  qed
  have kidso: "kids_ok st' ?L n" if n: "n \<in> L" for n
  proof (rule kids_okI)
    show "distinct (map fst (kids st' n))" using t(10) [OF n] none nN [OF n]
      by (auto simp: kids_ok_def d map_of_eq_None_iff)
    fix k' c' assume "(k', c') \<in> set (kids st' n)"
    then consider "(k', c') \<in> set (kids st n)" | "n = i" "k' = ckey (ps st) (extra_key key) (token_ids key)" "c' = N"
      using nN [OF n] by (auto simp: d split: if_splits)
    then show "c' \<in> ?L \<and> c' \<noteq> rc_root st' \<and> n_parent (node st' c') = Some n \<and> k' = ckey (ps st') (ext st' c') (toks st' c')"
    proof cases
      case 1
      from kidD(1-4) [OF inv n 1] nN show ?thesis by (simp add: d)
    qed (use rN in \<open>simp add: d\<close>)
  qed
  have kidsN: "kids_ok st' ?L N" by (simp add: kids_ok_def d)
  show ?thesis unfolding tree_inv_def
    using t(1,2,4-7) nN rN nodes parN paro kidso kidsN by (auto simp: d intro: less_SucI)
qed

lemma leaf_rest_inv:
  assumes inv: "radix_inv st L pk pv H" and lr: "leaf_rel st st' i key v" and i: "i \<in> L"
  defines "N \<equiv> length (rc_nodes st)"
  shows "lock_inv st' (insert N L) H" "size_inv st' (insert N L)" "leaf_inv st' (insert N L)"
    "rc_events st \<Longrightarrow> n \<in> L \<Longrightarrow> hash_ok st' n"
proof -
  have ti: "tree_inv st L pk pv" and li: "lock_inv st L H" and si: "size_inv st L" and le: "leaf_inv st L"
    and hi: "hash_inv st L" using inv by (auto simp: radix_inv_def)
  note t = tree_invD [OF ti]
  have nN: "n \<noteq> N" "n \<le> N" "n < N" if "n \<in> L" for n using t(3) [OF that] by (auto simp: N_def)
  note d = leafD [OF lr t(3) [OF i], folded N_def]
  have rN: "rc_root st \<noteq> N" using nN t(2) by auto
  have HN: "count H N = 0" using li nN by (auto simp: lock_inv_def count_eq_zero_iff)
  have lk: "(\<Sum>x\<leftarrow>map snd (kids st' n). lock st' x) = (\<Sum>x\<leftarrow>map snd (kids st n). lock st x)" if n: "n \<in> L" for n
  proof -
    have "map (lock st') (map snd (kids st n)) = map (lock st) (map snd (kids st n))"
      using kidD(1) [OF ti n] nN by (auto simp: d)
    then have "(\<Sum>x\<leftarrow>map snd (kids st n). lock st' x) = (\<Sum>x\<leftarrow>map snd (kids st n). lock st x)" by (rule arg_cong)
    then show ?thesis using nN [OF n] by (auto simp: d)
  qed
  have "lock_ok st' H n \<longleftrightarrow> lock_ok st H n" if n: "n \<in> L" for n
  proof -
    have "lock st' n = lock st n" using nN [OF n] by (simp add: d)
    then show ?thesis unfolding lock_ok_def lk [OF n] by simp
  qed
  moreover have "lock_ok st' H N" by (simp add: lock_ok_def d HN)
  ultimately show "lock_inv st' (insert N L) H" using li nN [OF t(2)] by (auto simp: lock_inv_def d)
  have fin: "finite L" using radix_finite_live [OF ti] .
  have "(\<Sum>n | n \<in> insert N L \<and> n \<noteq> rc_root st \<and> lock st' n = 0. int (length (toks st' n)))
    = int (key_len key) + (\<Sum>n | n \<in> L \<and> n \<noteq> rc_root st \<and> lock st n = 0. int (length (toks st n)))"
  proof -
    have "{n. n \<in> insert N L \<and> n \<noteq> rc_root st \<and> lock st' n = 0} = insert N {n. n \<in> L \<and> n \<noteq> rc_root st \<and> lock st n = 0}"
      using nN rN by (auto simp: d)
    moreover have "N \<notin> {n. n \<in> L \<and> n \<noteq> rc_root st \<and> lock st n = 0}" using nN by auto
    moreover have "(\<Sum>n | n \<in> L \<and> n \<noteq> rc_root st \<and> lock st n = 0. int (length (toks st' n)))
        = (\<Sum>n | n \<in> L \<and> n \<noteq> rc_root st \<and> lock st n = 0. int (length (toks st n)))"
      using nN by (intro sum.cong) (auto simp: d)
    ultimately show ?thesis using fin by (simp add: d key_len_def)
  qed
  moreover have "(\<Sum>n | n \<in> insert N L \<and> n \<noteq> rc_root st \<and> lock st' n \<noteq> 0. int (length (toks st' n)))
    = (\<Sum>n | n \<in> L \<and> n \<noteq> rc_root st \<and> lock st n \<noteq> 0. int (length (toks st n)))"
    using nN by (intro sum.cong) (auto simp: d)
  ultimately show "size_inv st' (insert N L)" using si by (simp add: size_inv_def d)
  show "leaf_inv st' (insert N L)" using le nN rN by (auto simp: leaf_inv_def d split: if_splits)
  show "hash_ok st' n" if "rc_events st" "n \<in> L" using hi that nN by (simp add: hash_inv_def hash_ok_def d)
qed

section \<open>The events of the new leaf\<close>

text \<open>What the hashes need when events are on: 32-bit tokens and a digest function.\<close>

definition hashable :: "rt_env \<Rightarrow> radix \<Rightarrow> tok list \<Rightarrow> bool" where
  "hashable env st ts \<longleftrightarrow> (rc_events st \<longrightarrow> sha_ok env \<and> (\<forall>t\<in>set ts. tok_ok t))"

lemma record_store_event_ok:
  assumes ti: "tree_inv st L pk pv" and N: "N \<in> L" "N \<noteq> rc_root st" "n_hash_value (node st N) = None"
    and hs: "hashable env st (toks st N)" and old: "\<And>n. rc_events st \<Longrightarrow> n \<in> L \<Longrightarrow> n \<noteq> N \<Longrightarrow> hash_ok st n"
  shows "\<exists>st'. record_store_event env st N = ret st' \<and> calm st st' \<and> hash_inv st' L"
proof (cases "rc_events st")
  case False
  then show ?thesis by (auto simp: record_store_event_def calm_def hash_inv_def)
next
  case True
  note t = tree_invD [OF ti]
  from t(9) [OF N(1,2)] obtain p where p: "parent_ok st L pk pv p N" ..
  have Nok: "toks st N \<noteq> []" "ps st dvd length (toks st N)" using t(8) [OF N(1,2)] by (auto simp: node_ok_def)
  have pN: "p \<in> L" "p \<noteq> N" "n_parent (node st N) = Some p" using p Nok by (auto simp: parent_ok_def)
  from node_hashes_new [OF _ _ t(1) t(3) [OF N(1)] Nok(2) N(3) pN(3) old [OF True pN(1,2)], of env] hs True
  obtain hv where hv: "node_hashes env st N = ret (upd st N (\<lambda>x. x\<lparr>n_hash_value := Some hv\<rparr>), hv)"
    "length hv * ps st = length (toks st N)" "\<forall>h\<in>set hv. digest h" by (auto simp: hashable_def)
  define s1 where "s1 = upd st N (\<lambda>x. x\<lparr>n_hash_value := Some hv\<rparr>)"
  have Nl: "N < length (rc_nodes st)" and pl: "p < length (rc_nodes st)" using t(3) N pN by auto
  have c1: "calm st s1" using Nl by (auto simp: s1_def calm_def config_def counts_def)
  note q = calmD [OF c1]
  have ho: "hash_ok s1 n" if "n \<in> L" for n
    using that old [OF True that] hv Nl t(3) [OF that] by (cases "n = N") (auto simp: hash_ok_def s1_def)
  from ho [OF pN(1)] obtain hp where hp: "n_hash_value (node s1 p) = Some hp" "\<forall>h\<in>set hp. digest h"
    by (auto simp: hash_ok_def)
  have "\<exists>b. hash_str_to_int64 (last hp) = ret b" if "hp \<noteq> []" using hash_str_to_int64_ok hp(2) that by (meson last_in_set)
  then obtain par where par: "(if p = rc_root s1 then ret None
       else case n_hash_value (node s1 p) of None \<Rightarrow> ret None
       | Some ph \<Rightarrow> if length ph > 0 then rbind (hash_str_to_int64 (last ph)) (\<lambda>b. ret (Some b)) else ret None) = ret par"
    using hp(1) by (cases "p = rc_root s1"; cases "hp = []") auto
  have "\<forall>h\<in>set (map snd (zip (pages (ps s1) (toks s1 N)) hv)). digest h" using hv(3) by (auto dest: set_zip_rightD)
  from stored_events_ok [OF this] obtain es where
    es: "stored_events par (zip (pages (ps s1) (toks s1 N)) hv) = ret es" by blast
  have "record_store_event env st N = ret (s1\<lparr>rc_event_queue := rc_event_queue s1 @ es\<rparr>)"
    using True hv(1) par es pN(3) q(11) [OF Nl] by (simp add: record_store_event_def s1_def [symmetric])
  moreover have qq: "quiet s1 (s1\<lparr>rc_event_queue := rc_event_queue s1 @ es\<rparr>)" by simp
  have "calm st (s1\<lparr>rc_event_queue := rc_event_queue s1 @ es\<rparr>)"
    using c1 unfolding calm_def config_def counts_def by (simp add: node_def)
  moreover have "hash_inv (s1\<lparr>rc_event_queue := rc_event_queue s1 @ es\<rparr>) L"
    using ho by (simp add: hash_inv_def hash_ok_def node_def)
  ultimately show ?thesis by blast
qed

section \<open>The whole insertion\<close>

lemma insert_leaf_spec:
  fixes prio :: int and chunked :: bool
  assumes inv: "radix_inv s1 L pk pv H" and n: "n \<in> L" "n = rc_root s1 \<or> ext s1 n = extra_key key"
    and key: "token_ids key \<noteq> []" "ps s1 dvd key_len key" "length v = key_len key" "hashable env s1 (token_ids key)"
    and none: "map_of (kids s1 n) (ckey (ps s1) (extra_key key) (token_ids key)) = None"
  defines "N \<equiv> length (rc_nodes s1)"
  defines "s2 \<equiv> add_leaf env s1 n key (ckey (ps s1) (extra_key key) (token_ids key)) v prio chunked"
  shows "\<exists>st'. record_store_event env s2 N = ret st' \<and> config st' = config s1
     \<and> radix_inv st' (insert N L) (pk(N := pk n @ token_ids key)) (pv(N := pv n @ v)) H
     \<and> (\<forall>m\<in>L. ext st' m = ext s1 m) \<and> ext st' N = extra_key key \<and> N \<notin> L
     \<and> cache_slots st' (insert N L) = cache_slots s1 L + mset v"
proof -
  have ti: "tree_inv s1 L pk pv" using inv by (simp add: radix_inv_def)
  note t = tree_invD [OF ti]
  have nl: "n < length (rc_nodes s1)" using t(3) [OF n(1)] .
  have "n_value (node s1 n) \<noteq> None" using t(5) t(8) [OF n(1)] by (cases "n = rc_root s1") (auto simp: node_ok_def)
  from add_leaf_rel [OF nl none this, of env v prio chunked] have lr: "leaf_rel s1 s2 n key v" by (simp add: s2_def)
  note d = leafD [OF lr nl, folded N_def]
  note ti2 = leaf_tree_inv [OF ti lr n key(1,2,3) none, folded N_def]
  note rest = leaf_rest_inv [OF inv lr n(1), folded N_def]
  have nN: "m \<noteq> N" "m \<le> N" if "m \<in> L" for m using t(3) [OF that] by (auto simp: N_def)
  have "N \<noteq> rc_root s2" using nN t(2) by (auto simp: d)
  moreover have "hashable env s2 (toks s2 N)" using key(4) by (simp add: d hashable_def)
  moreover have "hash_ok s2 m" if "rc_events s2" "m \<in> insert N L" "m \<noteq> N" for m using rest(4) [of m] that by (simp add: d)
  ultimately obtain st' where st': "record_store_event env s2 N = ret st'" "calm s2 st'" "hash_inv st' (insert N L)"
    using record_store_event_ok [OF ti2, of N env] by (auto simp: d)
  note q = calmD [OF st'(2)]
  have "radix_inv st' (insert N L) (pk(N := pk n @ token_ids key)) (pv(N := pv n @ v)) H"
    using calm_tree_inv [OF st'(2) ti2] calm_rest_inv [OF st'(2) ti2 rest(1,2,3)] st'(3) by (simp add: radix_inv_def)
  moreover have "config st' = config s1" using st'(2) lr by (simp add: calm_def leaf_rel_def)
  moreover have "ext st' m = ext s1 m" if "m \<in> L" for m using nN [OF that] by (simp add: q d)
  moreover have "ext st' N = extra_key key" by (simp add: q d)
  moreover have "cache_slots st' (insert N L) = cache_slots s1 L + mset v"
  proof -
    have "val st' m = val s1 m" if "m \<in> L" for m using nN [OF that] by (simp add: q d)
    then have "(\<Sum>m\<in>L. mset (val st' m)) = (\<Sum>m\<in>L. mset (val s1 m))" by (intro sum.cong) auto
    moreover have "N \<notin> L" using nN by blast
    ultimately show ?thesis using radix_finite_live [OF ti] by (simp add: cache_slots_def q d)
  qed
  ultimately show ?thesis using st'(1) nN by blast
qed

lemma insert_helper_spec:
  fixes prio :: "int option"
  assumes inv: "radix_inv st L pk pv H" and key: "ps st dvd key_len key" "length v = key_len key"
    and hs: "hashable env st (token_ids key)"
  defines "X \<equiv> token_ids key"
  shows "\<exists>s1 L1 pk1 pv1 n st' pk' pv' N.
      insert_helper env st (rc_root st) key v prio chunked = ret (st', length (pk1 n))
    \<and> radix_inv s1 L1 pk1 pv1 H \<and> extends st L pk pv s1 L1 pk1 pv1 \<and> at_node s1 L1 pk1 pv1 (extra_key key) X n
    \<and> (\<forall>m l. covers s1 L1 pk1 (extra_key key) X l m \<longrightarrow> l \<le> length (pk1 n))
    \<and> radix_inv st' (insert N L1) pk' pv' H \<and> config st' = config st
    \<and> (\<forall>m\<in>L1. pk' m = pk1 m \<and> pv' m = pv1 m \<and> ext st' m = ext s1 m)
    \<and> pk' N = X \<and> pv' N = pv1 n @ drop (length (pk1 n)) v
    \<and> (N = rc_root st \<or> ext st' N = extra_key key)
    \<and> cache_slots st' (insert N L1) = cache_slots st L + mset (drop (length (pk1 n)) v)"
proof -
  have ti: "tree_inv st L pk pv" using inv by (simp add: radix_inv_def)
  note t = tree_invD [OF ti]
  define pr where "pr = (case prio of None \<Rightarrow> 0 | Some p \<Rightarrow> p)"
  define now where "now = fst (read_clock env st)"
  define s0 where "s0 = raise_priority (touch (snd (read_clock env st)) (rc_root st) now) (rc_root st) pr"
  note h0 = helper_start [OF inv, of env, folded now_def]
  have rl: "rc_root st < length (rc_nodes st)" using t(2,3) by blast
  have q: "quiet st s0" unfolding s0_def
    by (rule quiet_trans [OF h0(3) quiet_raise_priority]) (use rl quietD(9) [OF h0(3)] in simp)
  note inv0 = quiet_radix_inv [OF q inv] and ex0 = extends_quiet [OF q ti]
  have ti0: "tree_inv s0 L pk pv" using inv0 by (simp add: radix_inv_def)
  have at0: "at_node s0 L pk pv (extra_key key) X (rc_root st)" using at_root [OF ti0] quietD(1) [OF q] by simp
  have p0: "ps s0 = ps st" "config s0 = config st" using q by (auto simp: quiet_def config_def)
  show ?thesis
  proof (cases "X = []")
    case True
    then have "insert_helper env st (rc_root st) key v prio chunked = ret (s0, 0)"
      by (simp add: insert_helper_def s0_def now_def pr_def X_def key_len_def case_prod_beta Let_def)
    moreover have "v = []" using True key(2) by (simp add: X_def key_len_def)
    moreover have "insert (rc_root st) L = L" using t(2) by auto
    moreover have "cache_slots s0 L = cache_slots st L" using ex0 by (simp add: extends_def)
    ultimately show ?thesis using inv0 ex0 at0 t(6,7) True p0(2)
      by (intro exI [of _ s0] exI [of _ L] exI [of _ pk] exI [of _ pv] exI [of _ "rc_root st"]) (auto simp: covers_def)
  next
    case False
    define ck where "ck = ckey (ps s0) (extra_key key) X"
    have gck: "get_child_key (ps s0) key = ret ck" using False by (simp add: ck_def get_child_key_ckey X_def)
    have dv: "ps s0 dvd key_len key" using key(1) p0 by simp
    have X0: "X = pk (rc_root st) @ token_ids key" using t(6) by (simp add: X_def)
    have ckp: "token_ids key \<noteq> [] \<longrightarrow> ck = ckey (ps s0) (extra_key key) (token_ids key)" by (simp add: ck_def X_def)
    from insert_loop_spec [OF inv0 at0 X0 dv ckp, where env = env and now = now and prio = pr and chunked = chunked and v = v and tot = 0]
    obtain s1 L1 pk1 pv1 n key1 ck1 where l:
      "insert_loop env now pr chunked s0 (rc_root st) key ck v 0
         = ret (s1, n, key1, ck1, drop (key_len key - key_len key1) v, key_len key - key_len key1)"
      "radix_inv s1 L1 pk1 pv1 H" "extends s0 L pk pv s1 L1 pk1 pv1" "at_node s1 L1 pk1 pv1 (extra_key key) X n"
      "X = pk1 n @ token_ids key1" "extra_key key1 = extra_key key" "ps st dvd key_len key1" "key_len key1 \<le> key_len key"
      "token_ids key1 \<noteq> [] \<longrightarrow> ck1 = ckey (ps st) (extra_key key) (token_ids key1) \<and> map_of (kids s1 n) ck1 = None"
      unfolding p0(1) add_0 by blast
    have ti1: "tree_inv s1 L1 pk1 pv1" using l(2) by (simp add: radix_inv_def)
    have ex1: "extends st L pk pv s1 L1 pk1 pv1" using extends_trans [OF ex0 l(3)] .
    then have c1: "config s1 = config st" "ps s1 = ps st" "rc_root s1 = rc_root st" "rc_events s1 = rc_events st"
      by (auto simp: extends_def config_def)
    have cs: "cache_slots s1 L1 = cache_slots st L" using ex1 by (simp add: extends_def)
    have len: "key_len key - key_len key1 = length (pk1 n)" using arg_cong [OF l(5), of length] by (simp add: X_def key_len_def)
    have mx: "l \<le> length (pk1 n)" if "covers s1 L1 pk1 (extra_key key) X l m" for l m
      using no_deeper [OF ti1 l(4,5) _ that] l(9) c1(2) by auto
    have n1: "n \<in> L1" "n = rc_root s1 \<or> ext s1 n = extra_key key" using l(4) by (auto simp: at_node_def)
    have eq: "insert_helper env st (rc_root st) key v prio chunked =
        (if key_len key1 = 0 then ret (s1, length (pk1 n))
         else rbind (record_store_event env (add_leaf env s1 n key1 ck1 (drop (length (pk1 n)) v) pr chunked)
                (length (rc_nodes s1))) (\<lambda>st. ret (st, length (pk1 n))))"
      using False gck l(1) unfolding insert_helper_def pr_def [symmetric] now_def s0_def len
      by (simp add: X_def key_len_def case_prod_beta Let_def add_leaf_def new_node_eq now_def)
    show ?thesis
    proof (cases "token_ids key1 = []")
      case True
      then have "pk1 n = X" "length v = length (pk1 n)" using l(5) key(2) by (auto simp: X_def key_len_def)
      moreover have "insert n L1 = L1" using n1 by auto
      moreover note cs
      ultimately show ?thesis using eq l(2,4) ex1 mx n1 True c1
        by (intro exI [of _ s1] exI [of _ L1] exI [of _ pk1] exI [of _ pv1] exI [of _ n] exI [of _ s1] exI [of _ pk1] exI [of _ pv1] exI [of _ n])
          (auto simp: key_len_def)
    next
      case ne: False
      have "hashable env s1 (token_ids key1)" using hs l(5) c1(4) by (auto simp: hashable_def X_def)
      moreover have "length (drop (length (pk1 n)) v) = key_len key1" using key(2) l(8) len by simp
      moreover have "map_of (kids s1 n) (ckey (ps s1) (extra_key key1) (token_ids key1)) = None"
        using l(6,9) ne c1(2) by auto
      ultimately obtain st' where
        "record_store_event env (add_leaf env s1 n key1 ck1 (drop (length (pk1 n)) v) pr chunked) (length (rc_nodes s1)) = ret st'"
        "config st' = config s1"
        "radix_inv st' (insert (length (rc_nodes s1)) L1) (pk1(length (rc_nodes s1) := X))
           (pv1(length (rc_nodes s1) := pv1 n @ drop (length (pk1 n)) v)) H"
        "\<forall>m\<in>L1. ext st' m = ext s1 m" "ext st' (length (rc_nodes s1)) = extra_key key" "length (rc_nodes s1) \<notin> L1"
        "cache_slots st' (insert (length (rc_nodes s1)) L1) = cache_slots st L + mset (drop (length (pk1 n)) v)"
        using insert_leaf_spec [OF l(2) n1(1), of key1 "drop (length (pk1 n)) v" env, where prio = pr and chunked = chunked] n1(2) ne l(5,6,7,9) c1(2) cs by auto
      then show ?thesis using eq l(2,4) ex1 mx ne c1(1)
        by (intro exI [of _ s1] exI [of _ L1] exI [of _ pk1] exI [of _ pv1] exI [of _ n] exI [of _ st']
            exI [of _ "pk1(length (rc_nodes s1) := X)"] exI [of _ "pv1(length (rc_nodes s1) := pv1 n @ drop (length (pk1 n)) v)"]
            exI [of _ "length (rc_nodes s1)"]) (auto simp: key_len_def)
    qed
  qed
qed

section \<open>In terms of the content\<close>

lemma cached_Nil:
  assumes "tree_inv st L pk pv"
  shows "cached st e [] []"
  unfolding cached_iff [OF assms] using tree_invD(2) [OF assms] by auto

lemma rc_insert_spec:
  assumes inv: "radix_inv st L pk pv H" and en: "\<not> rc_disable st"
    and kv: "maybe_bigram_convert (rc_is_eagle st) key (Some v) = (k, Some w)"
    and al: "ps st dvd key_len k" "length w = key_len k" and hs: "hashable env st (token_ids k)"
  shows "\<exists>st' plen old L' pk' pv'. rc_insert env st key (Some v) prio chunked = ret (st', plen)
    \<and> radix_inv st' L' pk' pv' H \<and> config st' = config st \<and> L \<subseteq> L'
    \<and> cache_slots st' L' = cache_slots st L + mset (drop plen w)
    \<and> plen \<le> key_len k \<and> ps st dvd plen \<and> length old = plen \<and> cached st (extra_key k) (take plen (token_ids k)) old
    \<and> (\<forall>l ws. ps st dvd l \<and> l \<le> key_len k \<and> cached st (extra_key k) (take l (token_ids k)) ws
          \<longrightarrow> l \<le> plen \<and> ws = take l old)
    \<and> (\<forall>e ts ws. cached st' e ts ws \<longleftrightarrow> cached st e ts ws
          \<or> e = extra_key k \<and> prefix ts (token_ids k) \<and> ws = take (length ts) (old @ drop plen w))"
proof -
  let ?X = "token_ids k"
  from insert_helper_spec [OF inv al hs, of prio chunked] obtain s1 L1 pk1 pv1 n st' pk' pv' N where
    i: "insert_helper env st (rc_root st) k w prio chunked = ret (st', length (pk1 n))"
      "radix_inv s1 L1 pk1 pv1 H" "extends st L pk pv s1 L1 pk1 pv1" "at_node s1 L1 pk1 pv1 (extra_key k) ?X n"
      "\<forall>m l. covers s1 L1 pk1 (extra_key k) ?X l m \<longrightarrow> l \<le> length (pk1 n)"
      "radix_inv st' (insert N L1) pk' pv' H" "config st' = config st"
      "\<forall>m\<in>L1. pk' m = pk1 m \<and> pv' m = pv1 m \<and> ext st' m = ext s1 m"
      "pk' N = ?X" "pv' N = pv1 n @ drop (length (pk1 n)) w" "N = rc_root st \<or> ext st' N = extra_key k"
      "cache_slots st' (insert N L1) = cache_slots st L + mset (drop (length (pk1 n)) w)" by blast
  have ti: "tree_inv st L pk pv" and ti1: "tree_inv s1 L1 pk1 pv1" and ti': "tree_inv st' (insert N L1) pk' pv'"
    using inv i(2,6) by (auto simp: radix_inv_def)
  have c: "rc_root s1 = rc_root st" "ps s1 = ps st" "rc_root st' = rc_root st"
    using i(3,7) by (auto simp: extends_def config_def)
  have n: "n \<in> L1" "n = rc_root s1 \<or> ext s1 n = extra_key k" "prefix (pk1 n) ?X" using i(4) by (auto simp: at_node_def)
  have len: "length (pv1 n) = length (pk1 n)" "ps st dvd length (pk1 n)" using path_lengths [OF ti1 n(1)] c by auto
  have tk: "take (length (pk1 n)) ?X = pk1 n" using n(3) by (auto simp: prefix_def)
  note c1 = extends_cached [OF i(3) ti ti1]
  have old: "cached st (extra_key k) (take (length (pk1 n)) ?X) (pv1 n)"
    unfolding c1 [symmetric] cached_iff [OF ti1] tk using n len by auto
  have mx: "l \<le> length (pk1 n) \<and> ws = take l (pv1 n)" if "ps st dvd l" "l \<le> key_len k" "cached st (extra_key k) (take l ?X) ws" for l ws
    using at_node_cached [OF ti1 i(4,5), of l ws] that len by (simp add: c1 c key_len_def)
  have new: "cached st' e ts ws \<longleftrightarrow> cached st e ts ws
          \<or> e = extra_key k \<and> prefix ts ?X \<and> ws = take (length ts) (pv1 n @ drop (length (pk1 n)) w)" for e ts ws
  proof -
    have "cached st' e ts ws \<longleftrightarrow> cached s1 e ts ws \<or>
        (N = rc_root st \<or> ext st' N = e) \<and> prefix ts ?X \<and> ws = take (length ts) (pv' N)"
      unfolding cached_iff [OF ti'] cached_iff [OF ti1] using i(8,9) by (auto simp: c)
    also have "\<dots> \<longleftrightarrow> cached s1 e ts ws \<or> e = extra_key k \<and> prefix ts ?X \<and> ws = take (length ts) (pv' N)"
    proof (cases "N = rc_root st")
      case True
      then have "?X = []" "pv' N = []" using tree_invD(6,7) [OF ti'] i(9) c by auto
      then show ?thesis using cached_Nil [OF ti1] True by auto
    qed (use i(11) in auto)
    finally show ?thesis using c1 i(10) by simp
  qed
  have "rc_insert env st key (Some v) prio chunked = ret (st', length (pk1 n))"
    using en kv i(1) by (simp add: rc_insert_def)
  moreover have "length (pk1 n) \<le> key_len k" using n(3) by (auto simp: key_len_def dest: prefix_length_le)
  moreover have "L \<subseteq> insert N L1" using i(3) by (auto simp: extends_def)
  ultimately show ?thesis using i(6,7,12) old mx new len
    by (intro exI [of _ st'] exI [of _ "length (pk1 n)"] exI [of _ "pv1 n"] exI [of _ "insert N L1"]
        exI [of _ pk'] exI [of _ pv']) auto
qed

end
