(* ===== verification/Radix_Lock.thy ===== *)
theory Radix_Lock
  imports Radix_Walk
begin

text \<open>
  \<open>inc_lock_ref\<close> and \<open>dec_lock_ref\<close>: both walk from a node to the root.  They always return, keep the
  invariant with the node added to or removed from the held nodes, leave the content alone and report the
  change of the evictable size.
\<close>

section \<open>One node\<close>

text \<open>The body of both loops: \<open>d\<close> is 1 or -1.\<close>

definition lock_by :: "radix \<Rightarrow> nat \<Rightarrow> int \<Rightarrow> radix" where
  "lock_by st n d =
     (let len = int (key_len (n_key (node st n)));
          z = (n_lock_ref (node st n) = (if d = 1 then 0 else 1));
          st = (if z then st\<lparr>rc_evictable_size := rc_evictable_size st - d * len,
                             rc_protected_size := rc_protected_size st + d * len\<rparr> else st);
          st = upd st n (\<lambda>x. x\<lparr>n_lock_ref := n_lock_ref x + d\<rparr>)
      in update_leaf_status st n)"

definition lock_change :: "radix \<Rightarrow> nat \<Rightarrow> int \<Rightarrow> int" where
  "lock_change st n d = (if lock st n = (if d = 1 then 0 else 1) then d * int (length (toks st n)) else 0)"

lemma update_leaf_fields [simp]:
  "node (update_leaf_status st i) n = node st n" "config (update_leaf_status st i) = config st"
  "length (rc_nodes (update_leaf_status st i)) = length (rc_nodes st)"
  "rc_evictable_size (update_leaf_status st i) = rc_evictable_size st"
  "rc_protected_size (update_leaf_status st i) = rc_protected_size st"
  "rc_root (update_leaf_status st i) = rc_root st" "rc_page_size (update_leaf_status st i) = rc_page_size st"
  "rc_events (update_leaf_status st i) = rc_events st" "rc_nodes (update_leaf_status st i) = rc_nodes st"
  "rc_disable (update_leaf_status st i) = rc_disable st" "rc_is_eagle (update_leaf_status st i) = rc_is_eagle st"
  "rc_disable_finished_insert (update_leaf_status st i) = rc_disable_finished_insert st"
  "rc_strategy (update_leaf_status st i) = rc_strategy st" "rc_event_queue (update_leaf_status st i) = rc_event_queue st"
  by (auto simp: update_leaf_status_def node_def config_def)

lemma lock_by_node:
  assumes "n < length (rc_nodes st)"
  shows "node (lock_by st n d) m = (if m = n then (node st n)\<lparr>n_lock_ref := lock st n + d\<rparr> else node st m)"
    "config (lock_by st n d) = config st" "length (rc_nodes (lock_by st n d)) = length (rc_nodes st)"
    "rc_evictable_size (lock_by st n d) = rc_evictable_size st - lock_change st n d"
    "rc_protected_size (lock_by st n d) = rc_protected_size st + lock_change st n d"
  using assms by (auto simp: lock_by_def lock_change_def Let_def upd_def node_def config_def key_len_def nth_list_update)

lemma lock_by_leaves:
  assumes "n < length (rc_nodes st)" "n_value (node st n) \<noteq> None"
    "\<And>c. c \<in> set (map snd (kids st n)) \<Longrightarrow> n_value (node st c) \<noteq> None \<and> c \<noteq> n"
  shows "rc_evictable_leaves (lock_by st n d) =
    (if lock st n + d \<le> 0 \<and> kids st n = [] then insert n (rc_evictable_leaves st) else rc_evictable_leaves st - {n})"
proof -
  define s0 where "s0 = (if lock st n = (if d = 1 then 0 else 1)
      then st\<lparr>rc_evictable_size := rc_evictable_size st - d * int (key_len (n_key (node st n))),
              rc_protected_size := rc_protected_size st + d * int (key_len (n_key (node st n)))\<rparr> else st)"
  define s1 where "s1 = upd s0 n (\<lambda>x. x\<lparr>n_lock_ref := n_lock_ref x + d\<rparr>)"
  have s0: "rc_nodes s0 = rc_nodes st" "rc_evictable_leaves s0 = rc_evictable_leaves st" by (simp_all add: s0_def)
  have s1: "node s1 m = (if m = n then (node st n)\<lparr>n_lock_ref := lock st n + d\<rparr> else node st m)"
    "rc_evictable_leaves s1 = rc_evictable_leaves st" for m
    using assms(1) s0 by (auto simp: s1_def node_def upd_def)
  have "lock_by st n d = update_leaf_status s1 n" by (simp add: lock_by_def s1_def s0_def Let_def)
  moreover have "(\<exists>c\<in>set (map snd (kids s1 n)). \<not> evicted (node s1 c)) \<longleftrightarrow> kids st n \<noteq> []"
    using assms(3) by (cases "kids st n") (auto simp: evicted_def s1)
  ultimately show ?thesis using assms(2) unfolding update_leaf_status_def by (simp add: s1 evicted_def)
qed

definition pending :: "radix \<Rightarrow> nat set \<Rightarrow> nat multiset \<Rightarrow> nat \<Rightarrow> int \<Rightarrow> bool" where
  "pending st L H n d \<longleftrightarrow> set_mset H \<subseteq> L \<and> lock st (rc_root st) = 1
     \<and> (\<forall>m\<in>L. m \<noteq> rc_root st \<longrightarrow> 0 \<le> lock st m
          \<and> lock st m + (if m = n then d else 0) = int (count H m) + (\<Sum>c\<leftarrow>map snd (kids st m). lock st c))"

lemma pending_root: "pending st L H (rc_root st) d \<longleftrightarrow> lock_inv st L H"
  by (auto simp: pending_def lock_inv_def lock_ok_def)

lemma sum_list_nonneg_int: "(\<And>x. x \<in> set xs \<Longrightarrow> 0 \<le> f x) \<Longrightarrow> 0 \<le> (\<Sum>x\<leftarrow>xs. f x :: int)"
  by (induction xs) auto

lemma pending_nonneg:
  assumes "tree_inv st L pk pv" "pending st L H n d" "n \<in> L" "n \<noteq> rc_root st"
  shows "0 \<le> lock st n + d"
proof -
  have "0 \<le> (\<Sum>c\<leftarrow>map snd (kids st n). lock st c)"
    using assms(2) kidD(1,2) [OF assms(1,3)] by (intro sum_list_nonneg_int) (auto simp: pending_def)
  then show ?thesis using assms by (auto simp: pending_def)
qed

lemma sum_list_change_one:
  assumes "distinct xs" "\<And>x. x \<in> set xs \<Longrightarrow> x \<noteq> n \<Longrightarrow> f x = g x"
  shows "(\<Sum>x\<leftarrow>xs. f x :: int) = (\<Sum>x\<leftarrow>xs. g x) + (if n \<in> set xs then f n - g n else 0)"
  using assms by (induction xs) auto

lemma lock_by_pending:
  assumes ti: "tree_inv st L pk pv" and pe: "pending st L H n d" and n: "n \<in> L" "n \<noteq> rc_root st"
    and par: "parent_ok st L pk pv p n"
  shows "pending (lock_by st n d) L H p d"
proof -
  note t = tree_invD [OF ti]
  note b = lock_by_node [OF t(3) [OF n(1)], of d]
  have r: "rc_root (lock_by st n d) = rc_root st" using b(2) by (simp add: config_def)
  have ks: "kids (lock_by st n d) m = kids st m" for m by (simp add: b)
  have isp: "n \<in> set (map snd (kids st m)) \<longleftrightarrow> m = p" if m: "m \<in> L" for m
  proof
    assume "n \<in> set (map snd (kids st m))"
    then obtain k where "(k, n) \<in> set (kids st m)" by auto
    from kidD(3) [OF ti m this] par show "m = p" by (simp add: parent_ok_def)
  qed (use par in \<open>force simp: parent_ok_def\<close>)
  have sum: "(\<Sum>c\<leftarrow>map snd (kids st m). lock (lock_by st n d) c)
      = (\<Sum>c\<leftarrow>map snd (kids st m). lock st c) + (if m = p then d else 0)" if m: "m \<in> L" for m
  proof -
    have "x \<noteq> n \<Longrightarrow> lock (lock_by st n d) x = lock st x" for x by (simp add: b)
    moreover have "lock (lock_by st n d) n - lock st n = d" by (simp add: b)
    ultimately show ?thesis
      using sum_list_change_one [OF kid_once [OF ti m], of n "lock (lock_by st n d)" "lock st", unfolded isp [OF m]] by presburger
  qed
  have pn: "p \<noteq> n" using par t(8) [OF n] by (auto simp: parent_ok_def node_ok_def)
  have "0 \<le> lock (lock_by st n d) m
        \<and> lock (lock_by st n d) m + (if m = p then d else 0)
          = int (count H m) + (\<Sum>c\<leftarrow>map snd (kids st m). lock (lock_by st n d) c)"
    if m: "m \<in> L" "m \<noteq> rc_root st" for m
    unfolding sum [OF m(1)] using pe m pending_nonneg [OF ti pe n] pn by (auto simp: pending_def b)
  then show ?thesis using pe n unfolding pending_def ks r by (auto simp: b)
qed

lemma lock_by_tree_inv:
  assumes "tree_inv st L pk pv" "n \<in> L"
  shows "tree_inv (lock_by st n d) L pk pv"
proof -
  note t = tree_invD [OF assms(1)]
  note b = lock_by_node [OF t(3) [OF assms(2)], of d]
  have f: "kids (lock_by st n d) m = kids st m" "n_parent (node (lock_by st n d) m) = n_parent (node st m)"
    "n_key (node (lock_by st n d) m) = n_key (node st m)" "n_value (node (lock_by st n d) m) = n_value (node st m)"
    "rc_root (lock_by st n d) = rc_root st" "ps (lock_by st n d) = ps st" for m
    using b(2) by (simp_all add: b config_def)
  show ?thesis using assms(1) unfolding tree_inv_def node_ok_def parent_ok_def kids_ok_def f b(3) .
qed

lemma lock_by_size_inv:
  assumes ti: "tree_inv st L pk pv" and si: "size_inv st L" and n: "n \<in> L" "n \<noteq> rc_root st"
    and d: "d = 1 \<or> d = -1" "0 \<le> lock st n" "0 \<le> lock st n + d"
  shows "size_inv (lock_by st n d) L"
proof -
  note b = lock_by_node [OF tree_invD(3) [OF ti n(1)], of d]
  have r: "rc_root (lock_by st n d) = rc_root st" using b(2) by (simp add: config_def)
  have tk: "toks (lock_by st n d) m = toks st m" for m by (simp add: b)
  have fin: "finite L" using radix_finite_live [OF ti] .
  have eq: "(\<Sum>m | m \<in> L \<and> Q m. g m) = (\<Sum>m\<in>L - {n}. if Q m then g m else 0) + (if Q n then g n else 0)"
    for Q and g :: "nat \<Rightarrow> int"
    using fin n(1) by (simp add: sum.inter_filter sum.remove [of L n] add.commute)
  have same: "(\<Sum>m\<in>L - {n}. if m \<noteq> rc_root st \<and> Q (lock (lock_by st n d) m) then int (length (toks st m)) else 0)
      = (\<Sum>m\<in>L - {n}. if m \<noteq> rc_root st \<and> Q (lock st m) then int (length (toks st m)) else 0)" for Q
    by (intro sum.cong) (auto simp: b)
  have "(\<Sum>m | m \<in> L \<and> m \<noteq> rc_root st \<and> lock (lock_by st n d) m = 0. int (length (toks st m)))
      = (\<Sum>m | m \<in> L \<and> m \<noteq> rc_root st \<and> lock st m = 0. int (length (toks st m))) - lock_change st n d"
    unfolding eq same [of "\<lambda>x. x = 0"] using n d by (auto simp: b lock_change_def)
  moreover have "(\<Sum>m | m \<in> L \<and> m \<noteq> rc_root st \<and> lock (lock_by st n d) m \<noteq> 0. int (length (toks st m)))
      = (\<Sum>m | m \<in> L \<and> m \<noteq> rc_root st \<and> lock st m \<noteq> 0. int (length (toks st m))) + lock_change st n d"
    unfolding eq same [of "\<lambda>x. x \<noteq> 0"] using n d by (auto simp: b lock_change_def)
  ultimately show ?thesis using si unfolding size_inv_def b(4,5) r tk by simp
qed

lemma lock_by_leaf_inv:
  assumes ti: "tree_inv st L pk pv" and le: "leaf_inv st L" and n: "n \<in> L" "n \<noteq> rc_root st"
    and d: "0 \<le> lock st n + d"
  shows "leaf_inv (lock_by st n d) L"
proof -
  note t = tree_invD [OF ti]
  note b = lock_by_node [OF t(3) [OF n(1)], of d]
  have r: "rc_root (lock_by st n d) = rc_root st" using b(2) by (simp add: config_def)
  have "n_value (node st c) \<noteq> None \<and> c \<noteq> n" if "c \<in> set (map snd (kids st n))" for c
    using that kidD(1,2,6) [OF ti n(1)] t(8) by (fastforce simp: node_ok_def)
  moreover have "n_value (node st n) \<noteq> None" using t(8) [OF n] by (simp add: node_ok_def)
  ultimately have "rc_evictable_leaves (lock_by st n d) =
    (if lock st n + d \<le> 0 \<and> kids st n = [] then insert n (rc_evictable_leaves st) else rc_evictable_leaves st - {n})"
    using lock_by_leaves [OF t(3) [OF n(1)]] by blast
  then show ?thesis using le n d unfolding leaf_inv_def r by (auto simp: b)
qed

section \<open>The walk to the root\<close>

text \<open>The invariant while the walk is at \<open>n\<close>: the count of \<open>n\<close> still has to change by \<open>d\<close>.\<close>

definition walking ::
  "radix \<Rightarrow> nat set \<Rightarrow> (nat \<Rightarrow> tok list) \<Rightarrow> (nat \<Rightarrow> slot list) \<Rightarrow> nat multiset \<Rightarrow> nat \<Rightarrow> int \<Rightarrow> bool" where
  "walking st L pk pv H n d \<longleftrightarrow>
     tree_inv st L pk pv \<and> size_inv st L \<and> leaf_inv st L \<and> hash_inv st L \<and> pending st L H n d \<and> n \<in> L"

lemma walking_step:
  assumes w: "walking st L pk pv H n d" and d: "d = 1 \<or> d = -1" and n: "n \<noteq> rc_root st"
    and par: "parent_ok st L pk pv p n"
  shows "walking (lock_by st n d) L pk pv H p d"
proof -
  have ti: "tree_inv st L pk pv" and pe: "pending st L H n d" and nL: "n \<in> L" using w by (auto simp: walking_def)
  note b = lock_by_node [OF tree_invD(3) [OF ti nL], of d]
  have ge: "0 \<le> lock st n" "0 \<le> lock st n + d" using pe nL n pending_nonneg [OF ti pe nL n] by (auto simp: pending_def)
  have "hash_inv (lock_by st n d) L"
    using w b(2) by (auto simp: walking_def hash_inv_def hash_ok_def b config_def)
  then show ?thesis
    using w lock_by_tree_inv [OF ti nL] lock_by_size_inv [OF ti _ nL n d ge] lock_by_leaf_inv [OF ti _ nL n ge(2)]
      lock_by_pending [OF ti pe nL n par] par by (auto simp: walking_def parent_ok_def)
qed

definition same_tree :: "radix \<Rightarrow> radix \<Rightarrow> bool" where
  "same_tree st st' \<longleftrightarrow> config st' = config st \<and> length (rc_nodes st') = length (rc_nodes st)
     \<and> (\<forall>m. kids st' m = kids st m \<and> n_key (node st' m) = n_key (node st m) \<and> n_value (node st' m) = n_value (node st m))"

lemma same_tree_lock_by: "n < length (rc_nodes st) \<Longrightarrow> same_tree st (lock_by st n d)"
  by (auto simp: same_tree_def lock_by_node)

lemma same_tree_trans: "same_tree st st' \<Longrightarrow> same_tree st' st'' \<Longrightarrow> same_tree st st''"
  by (auto simp: same_tree_def)

lemma same_tree_tpath: "same_tree st st' \<Longrightarrow> tpath st n k v \<Longrightarrow> tpath st' n k v"
proof -
  assume s: "same_tree st st'"
  have r: "rc_root st' = rc_root st" using s by (auto simp: same_tree_def config_def)
  show "tpath st n k v \<Longrightarrow> tpath st' n k v"
  proof (induction rule: tpath.induct)
    case tpath_root
    show ?case unfolding r [symmetric] by (rule tpath.tpath_root)
  next
    case (tpath_child p k v ck c)
    with s tpath.tpath_child [of st' p k v ck c] show ?case by (simp add: same_tree_def)
  qed
qed

lemma same_tree_cached:
  assumes "same_tree st st'"
  shows "cached st' e ts vs \<longleftrightarrow> cached st e ts vs"
proof -
  have "same_tree st' st" using assms by (auto simp: same_tree_def)
  with assms have "tpath st' n k v \<longleftrightarrow> tpath st n k v" for n k v using same_tree_tpath by blast
  moreover have "rc_root st' = rc_root st" using assms by (auto simp: same_tree_def config_def)
  ultimately show ?thesis using assms by (auto simp: cached_def same_tree_def)
qed

lemma inc_lock_loop_spec:
  assumes "walking st L pk pv H n 1"
  shows "\<exists>st'. inc_lock_loop st (Some n) delta = ret (st', delta + (rc_evictable_size st' - rc_evictable_size st))
     \<and> radix_inv st' L pk pv H \<and> same_tree st st'"
  using assms
proof (induction "length (pk n)" arbitrary: st n delta rule: less_induct)
  case less
  note w = less.prems
  have ti: "tree_inv st L pk pv" and nL: "n \<in> L" using w by (auto simp: walking_def)
  note t = tree_invD [OF ti]
  show ?case
  proof (cases "n = rc_root st")
    case True
    then have "radix_inv st L pk pv H" using w by (simp add: walking_def radix_inv_def pending_root)
    then show ?thesis using True by (subst inc_lock_loop.simps) (auto simp: same_tree_def)
  next
    case False
    from t(9) [OF nL False] obtain p where p: "parent_ok st L pk pv p n" ..
    define s1 where "s1 = lock_by st n 1"
    have lt: "length (pk p) < length (pk n)" using p t(8) [OF nL False] by (auto simp: parent_ok_def node_ok_def)
    note b = lock_by_node [OF t(3) [OF nL], of 1, folded s1_def]
    have "inc_lock_loop st (Some n) delta = inc_lock_loop s1 (n_parent (node s1 n)) (delta - lock_change st n 1)"
      unfolding s1_def using False
      by (subst inc_lock_loop.simps) (simp add: lock_by_def lock_change_def Let_def key_len_def)
    also have "n_parent (node s1 n) = Some p" using p by (simp add: b parent_ok_def)
    finally have eq: "inc_lock_loop st (Some n) delta = inc_lock_loop s1 (Some p) (delta - lock_change st n 1)" .
    from less.hyps [OF lt walking_step [OF w _ False p, folded s1_def]]
    obtain st' where "inc_lock_loop s1 (Some p) (delta - lock_change st n 1)
        = ret (st', delta - lock_change st n 1 + (rc_evictable_size st' - rc_evictable_size s1))"
      "radix_inv st' L pk pv H" "same_tree s1 st'" by blast
    then show ?thesis using eq b(4) same_tree_trans [OF same_tree_lock_by [OF t(3) [OF nL], of 1, folded s1_def]] by auto
  qed
qed

lemma dec_lock_loop_spec:
  assumes "walking st L pk pv H n (-1)"
  shows "\<exists>st'. dec_lock_loop st n delta = ret (st', delta + (rc_evictable_size st' - rc_evictable_size st))
     \<and> radix_inv st' L pk pv H \<and> same_tree st st'"
  using assms
proof (induction "length (pk n)" arbitrary: st n delta rule: less_induct)
  case less
  note w = less.prems
  have ti: "tree_inv st L pk pv" and nL: "n \<in> L" using w by (auto simp: walking_def)
  note t = tree_invD [OF ti]
  show ?case
  proof (cases "n = rc_root st")
    case True
    then have "radix_inv st L pk pv H" using w by (simp add: walking_def radix_inv_def pending_root)
    then show ?thesis using True by (subst dec_lock_loop.simps) (auto simp: same_tree_def)
  next
    case False
    from t(9) [OF nL False] obtain p where p: "parent_ok st L pk pv p n" ..
    define s1 where "s1 = lock_by st n (-1)"
    have lt: "length (pk p) < length (pk n)" using p t(8) [OF nL False] by (auto simp: parent_ok_def node_ok_def)
    note b = lock_by_node [OF t(3) [OF nL], of "-1", folded s1_def]
    have np: "n_parent (node s1 n) = Some p" using p by (simp add: b parent_ok_def)
    have "dec_lock_loop st n delta = (case n_parent (node s1 n) of None \<Rightarrow> raise AssertionError
        | Some p \<Rightarrow> dec_lock_loop s1 p (delta - lock_change st n (-1)))"
      using False unfolding s1_def
      by (subst dec_lock_loop.simps) (simp add: lock_by_def lock_change_def Let_def key_len_def cong: option.case_cong)
    then have eq: "dec_lock_loop st n delta = dec_lock_loop s1 p (delta - lock_change st n (-1))" using np by simp
    from less.hyps [OF lt walking_step [OF w _ False p, folded s1_def]]
    obtain st' where "dec_lock_loop s1 p (delta - lock_change st n (-1))
        = ret (st', delta - lock_change st n (-1) + (rc_evictable_size st' - rc_evictable_size s1))"
      "radix_inv st' L pk pv H" "same_tree s1 st'" by blast
    then show ?thesis using eq b(4) same_tree_trans [OF same_tree_lock_by [OF t(3) [OF nL], of "-1", folded s1_def]] by auto
  qed
qed

text \<open>Taking and giving back a lock.  The root carries no count of its own.\<close>

lemma inc_lock_ref_spec:
  assumes inv: "radix_inv st L pk pv H" and n: "n \<in> L" and en: "\<not> rc_disable st"
  shows "\<exists>st'. inc_lock_ref st n = ret (st', rc_evictable_size st' - rc_evictable_size st)
     \<and> radix_inv st' L pk pv (add_mset n H) \<and> same_tree st st'"
proof -
  have "walking st L pk pv (add_mset n H) n 1"
    using inv n by (auto simp: radix_inv_def walking_def pending_def lock_inv_def lock_ok_def)
  from inc_lock_loop_spec [OF this, of 0] en show ?thesis by (simp add: inc_lock_ref_def)
qed

lemma dec_lock_ref_spec:
  assumes inv: "radix_inv st L pk pv (add_mset n H)" and en: "\<not> rc_disable st"
  shows "\<exists>st'. dec_lock_ref st n = ret (st', rc_evictable_size st' - rc_evictable_size st)
     \<and> radix_inv st' L pk pv H \<and> same_tree st st'"
proof -
  have "walking st L pk pv H n (-1)"
    using inv by (auto simp: radix_inv_def walking_def pending_def lock_inv_def lock_ok_def)
  from dec_lock_loop_spec [OF this, of 0] en show ?thesis by (simp add: dec_lock_ref_def)
qed

end
