(* ===== verification/Token_Alloc.thy ===== *)
theory Token_Alloc
  imports Base_Alloc
begin

text \<open>
  \<open>TokenToKVPoolAllocator\<close> of \<open>srt/mem_cache/allocator.py\<close>: the allocator with page size 1 that
  SGLang uses when no special KV pool is configured.  It adds no field to the base class.
\<close>

section \<open>Operations\<close>

definition tok_clear :: "base_alloc \<Rightarrow> base_alloc" where
  "tok_clear a = a\<lparr>free_pages := [1..<a_size a + 1], is_not_in_free_group := True, free_group := [],
                   release_pages := []\<rparr>"

definition tok_init :: "nat \<Rightarrow> bool \<Rightarrow> base_alloc" where
  "tok_init sz srt = tok_clear
     \<lparr>a_size = sz, page_size = 1, need_sort = srt, free_pages = [], release_pages = [],
      is_not_in_free_group = True, free_group = []\<rparr>"

definition tok_available_size :: "base_alloc \<Rightarrow> int" where
  "tok_available_size a = int (length (free_pages a) + length (release_pages a))"

definition tok_alloc :: "base_alloc \<Rightarrow> nat \<Rightarrow> slot list option \<times> base_alloc" where
  "tok_alloc a need_size =
     (let a = (if need_sort a \<and> need_size > length (free_pages a) then merge_and_sort_free a else a)
      in if need_size > length (free_pages a) then (None, a)
         else (Some (take need_size (free_pages a)),
               a\<lparr>free_pages := drop need_size (free_pages a)\<rparr>))"

definition tok_free :: "base_alloc \<Rightarrow> slot list \<Rightarrow> err + base_alloc" where
  "tok_free a free_index =
     (if free_index = [] then Inr a
      else if is_not_in_free_group a then
        Inr (if need_sort a then a\<lparr>release_pages := release_pages a @ free_index\<rparr>
             else a\<lparr>free_pages := free_pages a @ free_index\<rparr>)
      else Inr (a\<lparr>free_group := free_group a @ [free_index]\<rparr>))"

section \<open>Invariant\<close>

text \<open>
  The free list, the release list and the live slots partition the usable slots \<open>{1..size}\<close>, and
  without sorting the release list stays empty.
\<close>

definition tok_inv :: "base_alloc \<Rightarrow> slot set \<Rightarrow> bool" where
  "tok_inv a L \<longleftrightarrow>
     distinct (free_pages a @ release_pages a) \<and>
     set (free_pages a @ release_pages a) \<inter> L = {} \<and>
     set (free_pages a @ release_pages a) \<union> L = {1..a_size a} \<and>
     (need_sort a \<or> release_pages a = []) \<and>
     is_not_in_free_group a"

lemma tok_inv_init: "tok_inv (tok_init sz srt) {}"
  by (auto simp: tok_inv_def tok_init_def tok_clear_def)

lemma tok_inv_merge:
  assumes "tok_inv a L"
  shows "tok_inv (merge_and_sort_free a) L"
    and "tok_available_size (merge_and_sort_free a) = tok_available_size a"
proof -
  have m: "mset (free_pages (merge_and_sort_free a) @ release_pages (merge_and_sort_free a))
    = mset (free_pages a @ release_pages a)"
    using merge_and_sort_free_mset [of a] by simp
  from mset_eq_setD [OF m] mset_eq_imp_distinct_iff [OF m] assms
  show "tok_inv (merge_and_sort_free a) L" by (simp add: tok_inv_def)
  from mset_eq_length [OF m] show "tok_available_size (merge_and_sort_free a) = tok_available_size a"
    by (simp add: tok_available_size_def)
qed

lemma tok_inv_take:
  assumes "tok_inv a L" "n \<le> length (free_pages a)"
  shows "tok_inv (a\<lparr>free_pages := drop n (free_pages a)\<rparr>) (L \<union> set (take n (free_pages a)))"
proof -
  have "set (take n (free_pages a)) \<union> set (drop n (free_pages a)) = set (free_pages a)"
    by (metis append_take_drop_id set_append)
  moreover have "distinct (take n (free_pages a) @ drop n (free_pages a) @ release_pages a)"
    using assms(1) by (simp add: tok_inv_def flip: append_assoc)
  ultimately show ?thesis using assms(1) by (auto simp: tok_inv_def)
qed

lemma tok_alloc_SomeD:
  assumes inv: "tok_inv a L" and al: "tok_alloc a n = (Some xs, a')"
  shows "length xs = n \<and> distinct xs \<and> set xs \<inter> L = {} \<and> 0 \<notin> set xs \<and> tok_inv a' (L \<union> set xs)
    \<and> tok_available_size a' = tok_available_size a - int n"
proof -
  define b where "b = (if need_sort a \<and> n > length (free_pages a) then merge_and_sort_free a else a)"
  have b: "tok_inv b L" "tok_available_size b = tok_available_size a"
    using inv tok_inv_merge [OF inv] by (auto simp: b_def)
  from al have n: "n \<le> length (free_pages b)" and xs: "xs = take n (free_pages b)"
    and a': "a' = b\<lparr>free_pages := drop n (free_pages b)\<rparr>"
    by (auto simp: tok_alloc_def Let_def simp flip: b_def split: if_splits)
  have sub: "set xs \<subseteq> set (free_pages b)" by (simp add: xs set_take_subset)
  from b(1) have pos: "set (free_pages b) \<subseteq> {1..a_size b}" by (auto simp: tok_inv_def)
  from b(1) have "distinct (free_pages b)" "set (free_pages b) \<inter> L = {}" by (auto simp: tok_inv_def)
  with sub pos have "distinct xs" "set xs \<inter> L = {}" "0 \<notin> set xs" by (auto simp: xs)
  moreover from tok_inv_take [OF b(1) n] have "tok_inv a' (L \<union> set xs)" by (simp add: a' xs)
  ultimately show ?thesis using n b(2) by (auto simp: xs a' tok_available_size_def)
qed

lemma tok_alloc_NoneD:
  assumes inv: "tok_inv a L" and al: "tok_alloc a n = (None, a')"
  shows "tok_inv a' L \<and> tok_available_size a' = tok_available_size a \<and> tok_available_size a < int n"
proof (cases "need_sort a")
  case True
  with al have "a' = merge_and_sort_free a" "n > length (free_pages a')"
    by (auto simp: tok_alloc_def Let_def split: if_splits)
  with tok_inv_merge [OF inv] show ?thesis by (auto simp: tok_available_size_def)
next
  case False
  with al inv show ?thesis
    by (auto simp: tok_alloc_def Let_def tok_inv_def tok_available_size_def split: if_splits)
qed

lemma tok_free_live:
  assumes "tok_inv a L" "distinct xs" "set xs \<subseteq> L"
  shows "\<exists>a'. tok_free a xs = Inr a' \<and> tok_inv a' (L - set xs)
    \<and> tok_available_size a' = tok_available_size a + int (length xs)"
  using assms by (auto simp: tok_free_def tok_inv_def tok_available_size_def)

interpretation tok: slot_allocator tok_alloc tok_free tok_available_size tok_inv
proof
  show "tok_inv s L \<Longrightarrow> finite L" for s L
    by (metis finite_Un finite_atLeastAtMost tok_inv_def)
qed (use tok_alloc_SomeD tok_alloc_NoneD tok_free_live in blast)+

lemma tok_call_size: "tok.call x y \<Longrightarrow> a_size (fst y) = a_size (fst x)"
  by (induction rule: tok.call.induct)
    (auto simp: tok_alloc_def tok_free_def Let_def split: if_splits)

lemma tok_calls_size: "tok.call\<^sup>*\<^sup>* (a, L) (a', L') \<Longrightarrow> a_size a' = a_size a"
proof (induction "(a', L')" arbitrary: a' L' rule: rtranclp_induct)
  case (step y)
  then show ?case using tok_call_size [of y "(a', L')"] by (cases y) auto
qed simp

lemma tok_available_nonneg: "0 \<le> tok_available_size a"
  by (simp add: tok_available_size_def)

section \<open>Property\<close>

text \<open>
  C8: for every sequence of \<open>alloc\<close> and \<open>free\<close> calls on a fresh \<open>TokenToKVPoolAllocator\<close> in which the
  client frees only slots it holds, \<open>available_size()\<close> plus the number of held slots is \<open>size\<close>, held
  slots are in \<open>[1, size]\<close>, and with or without deferred sorting an allocation succeeds exactly when
  the reported size covers it.
\<close>

theorem tok_accounting:
  assumes "tok.call\<^sup>*\<^sup>* (tok_init sz srt, {}) (a, L)"
  shows "tok_available_size a + int (card L) = int sz \<and> L \<subseteq> {1..sz}
    \<and> ((\<exists>xs a'. tok_alloc a n = (Some xs, a')) \<longleftrightarrow> int n \<le> tok_available_size a)"
proof -
  note run = tok.calls_keep_inv [OF assms tok_inv_init]
  then have inv: "tok_inv a L" and size: "tok_available_size a + int (card L) = int sz"
    by (simp_all add: tok_available_size_def tok_init_def tok_clear_def)
  have "L \<subseteq> {1..a_size a}" using inv by (auto simp: tok_inv_def)
  moreover have "a_size a = sz" using tok_calls_size [OF assms] by (simp add: tok_init_def tok_clear_def)
  moreover obtain r a' where r: "tok_alloc a n = (r, a')" by (cases "tok_alloc a n")
  then have "(\<exists>xs a'. tok_alloc a n = (Some xs, a')) \<longleftrightarrow> int n \<le> tok_available_size a"
    using tok_alloc_SomeD [OF inv, of n] tok_alloc_NoneD [OF inv, of n] tok_available_nonneg [of a']
    by (cases r) auto
  ultimately show ?thesis using size by simp
qed

theorem tok_accounting_witness:
  "tok_available_size (snd (tok_alloc (tok_init 5 True) 2)) + int (card {1::nat, 2}) = 5"
proof -
  let ?a = "tok_init 5 True"
  have "fst (tok_alloc ?a 2) = Some [1, 2]" by code_simp
  then have "tok_alloc ?a 2 = (Some [1, 2], snd (tok_alloc ?a 2))" by (metis prod.collapse)
  note tok.call.call_alloc [OF this, of "{}", unfolded Un_empty_left list.set]
  from conjunct1 [OF tok_accounting [OF r_into_rtranclp [of tok.call, OF this]]] show ?thesis by simp
qed

end
