(* ===== verification/Triaxial_Mixed.thy ===== *)
theory Triaxial_Mixed
  imports Triaxial_Alloc
begin

text \<open>
  A sequential specification of \<open>TriaxialAllocator.alloc_mixed\<close> and the proof that the tensor code
  of \<open>Triaxial_Alloc\<close> computes it.  The specification reads: in every request keep the largest
  multiple of \<open>PAGE\<close> of its INT2 tokens, in position order; if the INT2 region has fewer free pages
  than that, keep only as many as fit; then walk the tokens once, giving the next slot of the next
  free INT2 page to a kept token and the next free INT4 slot to any other.
\<close>

section \<open>Specification\<close>

fun keep_first :: "nat \<Rightarrow> bool list \<Rightarrow> bool list" where
  "keep_first k [] = []"
| "keep_first k (b # m) = (b \<and> 0 < k) # keep_first (if b then k - 1 else k) m"

definition keep_req :: "nat list \<Rightarrow> bool list" where
  "keep_req bs = keep_first (count_list bs 2 div PAGE * PAGE) (map (\<lambda>b. b = 2) bs)"

definition keep_spec :: "nat list \<Rightarrow> nat list \<Rightarrow> bool list" where
  "keep_spec bits lens = concat (map keep_req (split_lens lens bits))"

definition page_slots :: "nat \<Rightarrow> slot list" where
  "page_slots p = [p * PAGE..<p * PAGE + PAGE]"

definition kept :: "tri_state \<Rightarrow> nat list \<Rightarrow> nat list \<Rightarrow> bool list" where
  "kept a bits lens = keep_first (length (free_pages2 a) * PAGE) (keep_spec bits lens)"

definition n_kept :: "tri_state \<Rightarrow> nat list \<Rightarrow> nat list \<Rightarrow> nat" where
  "n_kept a bits lens = ntrue (kept a bits lens) (length bits)"

definition mixed_spec :: "tri_state \<Rightarrow> nat list \<Rightarrow> nat list \<Rightarrow> slot list option \<times> tri_state" where
  "mixed_spec a bits lens =
     (let n2 = n_kept a bits lens;
          n4 = length bits - n2;
          np = n2 div PAGE;
          a1 = a\<lparr>fallback_int2_to_int4 :=
                   fallback_int2_to_int4 a + (ntrue (keep_spec bits lens) (length bits) - n2)\<rparr>
      in if n4 > length (free_slots4 a) then (None, a1)
         else (Some (deal (kept a bits lens) (concat (map page_slots (take np (free_pages2 a))))
                       (take n4 (free_slots4 a))),
               a1\<lparr>free_pages2 := drop np (free_pages2 a), free_slots4 := drop n4 (free_slots4 a),
                  free_pages := drop n4 (free_slots4 a)\<rparr>))"

section \<open>Masks\<close>

lemma length_keep_first [simp]: "length (keep_first k m) = length m"
  by (induction k m rule: keep_first.induct) auto

lemma keep_first_nth: "i < length m \<Longrightarrow> keep_first k m ! i \<longleftrightarrow> m ! i \<and> ntrue m i < k"
proof (induction k m arbitrary: i rule: keep_first.induct)
  case (2 k b m)
  then show ?case by (cases i) (auto simp: ntrue_Cons)
qed simp

lemma ntrue_keep_first: "i \<le> length m \<Longrightarrow> ntrue (keep_first k m) i = min k (ntrue m i)"
  by (induction i) (auto simp: keep_first_nth min_def)

lemma keep_first_all: "ntrue m (length m) \<le> k \<Longrightarrow> keep_first k m = m"
  by (rule nth_equalityI) (auto simp: keep_first_nth dest: ntrue_less)

lemma ntrue_nonzero:
  assumes "k < length (nonzero m)"
  shows "ntrue m (nonzero m ! k) = k"
proof -
  define i where "i = nonzero m ! k"
  have "i \<in> set (nonzero m)" unfolding i_def using assms by (rule nth_mem)
  then have i: "i < length m" "m ! i" by auto
  then have "nonzero m ! ntrue m i = nonzero m ! k" and "ntrue m i < length (nonzero m)"
    by (simp_all add: nonzero_ntrue length_nonzero ntrue_less i_def)
  with assms have "ntrue m i = k" by (simp add: nth_eq_iff_index_eq)
  then show ?thesis by (simp add: i_def)
qed

lemma ntrue_take_drop:
  "i \<le> l \<Longrightarrow> st + i \<le> length m \<Longrightarrow> ntrue (take l (drop st m)) i = ntrue m (st + i) - ntrue m st"
  by (induction i) (auto simp: ntrue_mono Suc_diff_le)

lemma ntrue_eq2: "ntrue (map (\<lambda>b. b = 2) bs) (length bs) = count_list bs (2::nat)"
  by (induction bs) (auto simp: ntrue_Cons)

lemma length_keep_req [simp]: "length (keep_req bs) = length bs"
  by (simp add: keep_req_def)

lemma length_keep_spec: "sum_list lens = length bits \<Longrightarrow> length (keep_spec bits lens) = length bits"
proof -
  assume "sum_list lens = length bits"
  then have "length (concat (split_lens lens bits)) = length bits" by (simp add: concat_split_lens)
  then show ?thesis by (simp add: keep_spec_def length_concat comp_def)
qed

lemma keep_spec_nth:
  assumes lens: "sum_list lens = length bits" and i: "i < length bits"
  defines "m \<equiv> map (\<lambda>b. b = 2) bits" and "s \<equiv> seg_of lens ! i"
  shows "keep_spec bits lens ! i \<longleftrightarrow> bits ! i = 2 \<and>
    ntrue m i - ntrue m (seg_start lens s)
      < (ntrue m (seg_start lens (Suc s)) - ntrue m (seg_start lens s)) div PAGE * PAGE"
proof -
  let ?st = "seg_start lens s"
  have s: "s < length lens" "?st \<le> i" "i < ?st + lens ! s"
    using seg_of_locate [of i lens] i lens by (auto simp: s_def)
  have fit: "?st + lens ! s \<le> length bits"
    using seg_start_le [of lens "Suc s"] s(1) lens by (simp add: seg_start_Suc)
  let ?b = "split_lens lens bits ! s"
  have b: "?b = take (lens ! s) (drop ?st bits)" using s(1) by (simp add: split_lens_nth)
  have m: "map (\<lambda>b. b = 2) ?b = take (lens ! s) (drop ?st m)"
    by (simp add: b m_def take_map drop_map)
  have lb: "length ?b = lens ! s" using fit by (simp add: b)
  have "keep_spec bits lens ! i = keep_req ?b ! (i - ?st)"
    unfolding keep_spec_def s_def using i lens s(1) [unfolded s_def]
    by (subst concat_seg_nth [of _ lens]) (auto simp: split_lens_nth_length)
  also have "\<dots> \<longleftrightarrow> ?b ! (i - ?st) = 2 \<and> ntrue (map (\<lambda>b. b = 2) ?b) (i - ?st)
      < count_list ?b 2 div PAGE * PAGE"
    using s lb by (simp add: keep_req_def keep_first_nth)
  also have "?b ! (i - ?st) = bits ! i" using s fit by (simp add: b)
  also have "ntrue (map (\<lambda>b. b = 2) ?b) (i - ?st) = ntrue m i - ntrue m ?st"
    using s fit by (simp add: m ntrue_take_drop m_def)
  also have "count_list ?b 2 = ntrue m (seg_start lens (Suc s)) - ntrue m ?st"
    using s fit ntrue_eq2 [of ?b] lb by (simp add: m ntrue_take_drop m_def seg_start_Suc)
  finally show ?thesis .
qed

lemma keep2_mask_spec:
  assumes lens: "sum_list lens = length bits"
  shows "keep2_mask bits lens = keep_spec bits lens"
proof (rule nth_equalityI)
  show "length (keep2_mask bits lens) = length (keep_spec bits lens)"
    using lens by (simp add: keep2_mask_def Let_def length_keep_spec flip: seg_of_def)
next
  fix i assume "i < length (keep2_mask bits lens)"
  then have i: "i < length bits" using lens by (simp add: keep2_mask_def Let_def flip: seg_of_def)
  define m where "m = map (\<lambda>b. b = 2) bits"
  define s where "s = seg_of lens ! i"
  let ?st = "seg_start lens s"
  have s: "s < length lens" "?st \<le> i" "i < ?st + lens ! s"
    using seg_of_locate [of i lens] i lens by (auto simp: s_def)
  have "map2 (-) (cumsum lens) lens ! s = ?st"
    using s(1) by (simp add: cumsum_nth seg_start_def take_Suc_conv_app_nth)
  moreover have "(0 # cumsum (mask_int m)) ! ?st = ntrue m ?st"
    using s(2) i by (cases "?st") (auto simp: cumsum_mask m_def simp del: ntrue_Suc)
  ultimately have before: "gather (0 # cumsum (mask_int m)) (map2 (-) (cumsum lens) lens) ! s = ntrue m ?st"
    using s(1) by (simp add: gather_nth)
  have full: "bincount (mask_select (seg_of lens) m) (length lens) ! s
      = ntrue m (seg_start lens (Suc s)) - ntrue m ?st"
    using s(1) lens by (simp add: bincount_def count_seg_of m_def)
  have lb: "s < length (bincount (mask_select (seg_of lens) m) (length lens))"
    using s(1) by (simp add: bincount_def)
  have si: "seg_of lens ! i = s" by (simp add: s_def)
  have rank: "int (ntrue m (Suc i)) - int (ntrue m ?st) - 1 = int (ntrue m i - ntrue m ?st)" if "m ! i"
    using that i ntrue_mono [OF s(2), of m] by (simp add: m_def of_nat_diff)
  have c: "cumsum (mask_int m) ! i = ntrue m (Suc i)" using i by (simp add: cumsum_mask m_def del: ntrue_Suc)
  have "keep2_mask bits lens ! i \<longleftrightarrow> m ! i \<and>
      int (cumsum (mask_int m) ! i) - int (ntrue m ?st) - 1
        < int ((ntrue m (seg_start lens (Suc s)) - ntrue m ?st) div PAGE * PAGE)"
    using i lens before full lb si
    by (simp add: keep2_mask_def Let_def flip: seg_of_def m_def) (simp add: m_def)
  also have "\<dots> \<longleftrightarrow> m ! i \<and> ntrue m i - ntrue m ?st
        < (ntrue m (seg_start lens (Suc s)) - ntrue m ?st) div PAGE * PAGE"
    by (cases "m ! i") (simp_all only: c rank of_nat_less_iff simp_thms)
  also have "\<dots> \<longleftrightarrow> keep_spec bits lens ! i"
    using keep_spec_nth [OF lens i] i by (simp add: m_def s_def)
  finally show "keep2_mask bits lens ! i = keep_spec bits lens ! i" .
qed

section \<open>The kept tokens fill whole pages\<close>

lemma dvd_ntrue_keep_req: "PAGE dvd ntrue (keep_req bs) (length bs)"
  by (simp add: keep_req_def ntrue_keep_first ntrue_eq2 min_def)

lemma ntrue_concat_dvd:
  "(\<And>m. m \<in> set ms \<Longrightarrow> PAGE dvd ntrue m (length m)) \<Longrightarrow> PAGE dvd ntrue (concat ms) (length (concat ms))"
proof (induction ms)
  case (Cons m ms)
  then have "PAGE dvd ntrue m (length m) + ntrue (concat ms) (length (concat ms))" by (simp add: dvd_add)
  then show ?case by (simp only: concat.simps ntrue_append_full)
qed simp

lemma dvd_ntrue_keep_spec:
  assumes "sum_list lens = length bits"
  shows "PAGE dvd ntrue (keep_spec bits lens) (length bits)"
proof -
  have "PAGE dvd ntrue (keep_spec bits lens) (length (keep_spec bits lens))"
    unfolding keep_spec_def by (rule ntrue_concat_dvd) (auto simp: dvd_ntrue_keep_req)
  then show ?thesis by (simp add: length_keep_spec assms)
qed

text \<open>How many tokens the requests keep: whole pages of each request's INT2 tokens.\<close>

definition full_page_tokens :: "nat list \<Rightarrow> nat list \<Rightarrow> nat" where
  "full_page_tokens bits lens = (\<Sum>bs\<leftarrow>split_lens lens bits. count_list bs 2 div PAGE * PAGE)"

lemma ntrue_keep_req: "ntrue (keep_req bs) (length bs) = count_list bs 2 div PAGE * PAGE"
  by (simp add: keep_req_def ntrue_keep_first ntrue_eq2 min_def)

lemma ntrue_concat: "ntrue (concat ms) (length (concat ms)) = (\<Sum>m\<leftarrow>ms. ntrue m (length m))"
proof (induction ms)
  case (Cons m ms)
  then show ?case by (simp only: concat.simps ntrue_append_full list.map sum_list.Cons)
qed simp

lemma ntrue_keep_spec:
  assumes "sum_list lens = length bits"
  shows "ntrue (keep_spec bits lens) (length bits) = full_page_tokens bits lens"
  using ntrue_concat [of "map keep_req (split_lens lens bits)"]
  by (simp add: keep_spec_def [symmetric] length_keep_spec assms comp_def ntrue_keep_req full_page_tokens_def)

lemma length_kept: "sum_list lens = length bits \<Longrightarrow> length (kept a bits lens) = length bits"
  by (simp add: kept_def length_keep_spec)

lemma n_kept_min:
  "sum_list lens = length bits \<Longrightarrow>
   n_kept a bits lens = min (length (free_pages2 a) * PAGE) (ntrue (keep_spec bits lens) (length bits))"
  by (simp add: n_kept_def kept_def ntrue_keep_first length_keep_spec)

lemma dvd_n_kept: "sum_list lens = length bits \<Longrightarrow> PAGE dvd n_kept a bits lens"
  using dvd_ntrue_keep_spec [of lens bits] by (simp add: n_kept_min min_def)

lemma n_kept_pages:
  assumes "sum_list lens = length bits"
  shows "n_kept a bits lens div PAGE * PAGE = n_kept a bits lens"
    and "n_kept a bits lens div PAGE = min (length (free_pages2 a)) (ntrue (keep_spec bits lens) (length bits) div PAGE)"
proof -
  show *: "n_kept a bits lens div PAGE * PAGE = n_kept a bits lens"
    using dvd_n_kept [OF assms] by simp
  obtain q where q: "ntrue (keep_spec bits lens) (length bits) = PAGE * q"
    using dvd_ntrue_keep_spec [OF assms] by blast
  show "n_kept a bits lens div PAGE = min (length (free_pages2 a)) (ntrue (keep_spec bits lens) (length bits) div PAGE)"
    unfolding n_kept_min [OF assms] q using PAGE_pos by (auto simp: min_def mult.commute)
qed

lemma n_kept_le: "n_kept a bits lens \<le> length bits"
  by (simp add: n_kept_def ntrue_le)

lemma kept_bits2: "sum_list lens = length bits \<Longrightarrow> i < length bits \<Longrightarrow> kept a bits lens ! i \<Longrightarrow> bits ! i = 2"
  by (simp add: kept_def keep_first_nth length_keep_spec keep_spec_nth)

section \<open>Pages as runs of slots\<close>

lemma length_page_slots [simp]: "length (page_slots p) = PAGE"
  by (simp add: page_slots_def)

lemma set_page_slots: "set (page_slots p) = {s. s div PAGE = p}"
proof (rule set_eqI)
  fix s
  have "s = s div PAGE * PAGE + s mod PAGE" and "s mod PAGE < PAGE" by simp_all
  then show "s \<in> set (page_slots p) \<longleftrightarrow> s \<in> {s. s div PAGE = p}"
    using div_nat_eqI [of PAGE p s] dividend_less_times_div [of PAGE s]
    by (auto simp: page_slots_def mult.commute)
qed

lemma length_concat_pages [simp]: "length (concat (map page_slots ps)) = length ps * PAGE"
  by (induction ps) auto

lemma concat_pages_nth:
  "k < length ps * PAGE \<Longrightarrow> concat (map page_slots ps) ! k = ps ! (k div PAGE) * PAGE + k mod PAGE"
proof (induction ps arbitrary: k)
  case (Cons p ps)
  show ?case
  proof (cases "k < PAGE")
    case True
    then show ?thesis by (simp add: nth_append page_slots_def)
  next
    case False
    then have "k div PAGE = Suc ((k - PAGE) div PAGE)" "k mod PAGE = (k - PAGE) mod PAGE"
      by (simp_all add: le_div_geq le_mod_geq)
    with False Cons show ?thesis by (simp add: nth_append)
  qed
qed simp

section \<open>The tensor code computes the specification\<close>

lemma ntrue_kept:
  assumes lens: "sum_list lens = length bits" and i: "i < length bits" and k: "kept a bits lens ! i"
  shows "ntrue (keep_spec bits lens) i = ntrue (kept a bits lens) i"
    and "ntrue (keep_spec bits lens) (Suc i) = Suc (ntrue (kept a bits lens) i)"
  using assms by (auto simp: kept_def keep_first_nth ntrue_keep_first length_keep_spec)

lemma demote_kept:
  fixes a :: tri_state
  assumes lens: "sum_list lens = length bits"
  defines "pidx \<equiv> map (\<lambda>x. x div int PAGE) (map (\<lambda>x. int x - 1) (cumsum (mask_int (keep_spec bits lens))))"
  shows "map2 (\<lambda>b p. b \<and> p < int (length (free_pages2 a))) (keep_spec bits lens) pidx = kept a bits lens"
    and "sum_list (mask_int (map2 (\<lambda>b p. b \<and> p \<ge> int (length (free_pages2 a))) (keep_spec bits lens) pidx))
      = ntrue (keep_spec bits lens) (length bits) - n_kept a bits lens"
proof -
  let ?m = "keep_spec bits lens" and ?A = "length (free_pages2 a)"
  have len: "length ?m = length bits" by (rule length_keep_spec [OF lens])
  have p: "pidx ! i = int (ntrue ?m i div PAGE)" if "i < length bits" "?m ! i" for i
    using that len by (simp add: pidx_def cumsum_mask zdiv_int)
  have cut: "ntrue ?m i div PAGE < ?A \<longleftrightarrow> ntrue ?m i < ?A * PAGE" for i
    by (simp add: div_less_iff_less_mult)
  have lp: "length pidx = length bits" by (simp add: pidx_def len)
  show keep: "map2 (\<lambda>b p. b \<and> p < int ?A) ?m pidx = kept a bits lens"
    by (rule nth_equalityI) (auto simp: len lp kept_def keep_first_nth p cut)
  let ?d = "map2 (\<lambda>b p. b \<and> p \<ge> int ?A) ?m pidx"
  have "ntrue ?d i + ntrue (kept a bits lens) i = ntrue ?m i" if "i \<le> length bits" for i
    using that by (induction i) (auto simp: len lp kept_def keep_first_nth p cut not_less [symmetric])
  from this [of "length bits"] have "ntrue ?d (length bits) = ntrue ?m (length bits) - n_kept a bits lens"
    by (simp add: n_kept_def)
  then show "sum_list (mask_int ?d) = ntrue ?m (length bits) - n_kept a bits lens"
    using sum_mask_int [of "length bits" ?d] len lp by simp
qed

lemma page_slot_values:
  fixes a :: tri_state
  assumes lens: "sum_list lens = length bits"
  defines "k \<equiv> map (\<lambda>x. int x - 1) (cumsum (mask_int (keep_spec bits lens)))"
    and "pages \<equiv> take (n_kept a bits lens div PAGE) (free_pages2 a)"
  shows "map (\<lambda>i. pages ! nat (map (\<lambda>x. x div int PAGE) k ! i) * PAGE + nat (map (\<lambda>x. x mod int PAGE) k ! i))
           (nonzero (kept a bits lens))
         = concat (map page_slots pages)" (is "map ?f ?idx = ?R")
proof (rule nth_equalityI)
  have np: "n_kept a bits lens div PAGE \<le> length (free_pages2 a)"
    by (simp add: n_kept_pages(2) [OF lens])
  have total: "length pages * PAGE = n_kept a bits lens"
    using np n_kept_pages(1) [OF lens] by (simp add: pages_def min_absorb2)
  have lidx: "length ?idx = n_kept a bits lens"
    by (simp add: length_nonzero length_kept [OF lens] n_kept_def)
  show "length (map ?f ?idx) = length ?R" using total lidx by simp
  fix q assume "q < length (map ?f ?idx)"
  then have q: "q < n_kept a bits lens" using lidx by simp
  define i where "i = ?idx ! q"
  have "i \<in> set ?idx" unfolding i_def by (rule nth_mem) (use q lidx in simp)
  then have i: "i < length bits" "kept a bits lens ! i" using length_kept [OF lens] by auto
  have "ntrue (kept a bits lens) i = q" unfolding i_def using q lidx by (simp add: ntrue_nonzero)
  then have "k ! i = int q"
    using i ntrue_kept(2) [OF lens i] length_keep_spec [OF lens]
    by (simp add: k_def cumsum_mask del: ntrue_Suc)
  moreover have "i < length k" using i length_keep_spec [OF lens] by (simp add: k_def)
  ultimately have "?f i = pages ! (q div PAGE) * PAGE + q mod PAGE"
    by (simp add: nat_div_distrib nat_mod_distrib)
  also have "\<dots> = ?R ! q" using q total by (simp add: concat_pages_nth)
  finally show "map ?f ?idx ! q = ?R ! q" using q lidx by (simp add: i_def)
qed

lemma kept_deal_ok:
  assumes lens: "sum_list lens = length bits"
    and qs: "length bits - n_kept a bits lens \<le> length (free_slots4 a)"
  shows "deal_ok (kept a bits lens)
    (concat (map page_slots (take (n_kept a bits lens div PAGE) (free_pages2 a))))
    (take (length bits - n_kept a bits lens) (free_slots4 a))"
proof (rule deal_okI)
  let ?ps = "concat (map page_slots (take (n_kept a bits lens div PAGE) (free_pages2 a)))"
  have "n_kept a bits lens div PAGE \<le> length (free_pages2 a)" by (simp add: n_kept_pages(2) [OF lens])
  then have l: "length ?ps = n_kept a bits lens"
    using n_kept_pages(1) [OF lens] by (simp add: min_absorb2)
  then show "ntrue (kept a bits lens) (length (kept a bits lens)) = length ?ps"
    by (simp add: n_kept_def length_kept [OF lens])
  show "length (kept a bits lens) = length ?ps + length (take (length bits - n_kept a bits lens) (free_slots4 a))"
    using l qs n_kept_le [of a bits lens] by (simp add: length_kept [OF lens] min_absorb2)
qed

lemma nonzero_none: "ntrue m (length m) = 0 \<Longrightarrow> nonzero m = []"
  using length_nonzero [of m] by simp

lemma alloc_mixed_spec:
  assumes ne: "bits \<noteq> []" and lens: "sum_list lens = length bits"
  shows "alloc_mixed uninit a bits lens = Inr (mixed_spec a bits lens)"
proof -
  define m where "m = keep_spec bits lens"
  define k where "k = map (\<lambda>x. int x - 1) (cumsum (mask_int m))"
  define K where "K = ntrue m (length bits)"
  define n2 where "n2 = n_kept a bits lens"
  define n4 where "n4 = length bits - n2"
  define A where "A = length (free_pages2 a)"
  let ?a1 = "a\<lparr>fallback_int2_to_int4 := fallback_int2_to_int4 a + (K - n2)\<rparr>"
  let ?pidx = "map (\<lambda>x. x div int PAGE) k"
  have lm: "length m = length bits" by (simp add: m_def length_keep_spec lens)
  have K: "sum_list (mask_int m) = K"
    using sum_mask_int [of "length m" m] by (simp add: K_def lm)
  have np: "n2 div PAGE = min A (K div PAGE)" and n2: "n2 div PAGE * PAGE = n2"
    using n_kept_pages [OF lens, of a] by (simp_all add: n2_def A_def K_def m_def)
  have demote: "(if K div PAGE > A then
        (map2 (\<lambda>b p. b \<and> p < int A) m ?pidx, A,
         a\<lparr>fallback_int2_to_int4 := fallback_int2_to_int4 a
             + sum_list (mask_int (map2 (\<lambda>b p. b \<and> p \<ge> int A) m ?pidx))\<rparr>)
      else (m, K div PAGE, a)) = (kept a bits lens, n2 div PAGE, ?a1)"
  proof (cases "K div PAGE > A")
    case True
    with demote_kept [OF lens, of a] True np show ?thesis
      by (simp add: m_def k_def A_def K_def n2_def)
  next
    case False
    have dv: "K div PAGE * PAGE = K" using dvd_ntrue_keep_spec [OF lens] by (simp add: K_def m_def)
    from False have le: "K div PAGE * PAGE \<le> A * PAGE" by simp
    with dv have "K \<le> A * PAGE" by simp
    then have "kept a bits lens = m"
      using lm by (simp add: kept_def m_def [symmetric] A_def [symmetric] keep_first_all K_def)
    moreover have "n2 = K" using dv n2 np False by (simp add: min_absorb2)
    ultimately show ?thesis using False np by simp
  qed
  have n4': "length bits - n2 div PAGE * PAGE = n4" by (simp add: n2 n4_def)
  note code = alloc_mixed_def Let_def keep2_mask_spec [OF lens] m_def [symmetric] K
    k_def [symmetric] A_def [symmetric] demote prod.case n4'
  have guard: "(length bits = 0) = False" "(sum_list lens \<noteq> length bits) = False"
    using ne lens by auto
  have spec: "mixed_spec a bits lens =
      (if n4 > length (free_slots4 a) then (None, ?a1)
       else (Some (deal (kept a bits lens) (concat (map page_slots (take (n2 div PAGE) (free_pages2 a))))
               (take n4 (free_slots4 a))),
             ?a1\<lparr>free_pages2 := drop (n2 div PAGE) (free_pages2 a), free_slots4 := drop n4 (free_slots4 a),
                  free_pages := drop n4 (free_slots4 a)\<rparr>))"
    unfolding mixed_spec_def Let_def n2_def n4_def K_def m_def by (rule refl)
  show ?thesis
  proof (cases "n4 > length (free_slots4 a)")
    case True
    then show ?thesis unfolding spec code guard by simp
  next
    case False
    let ?ps = "concat (map page_slots (take (n2 div PAGE) (free_pages2 a)))"
    let ?qs = "take n4 (free_slots4 a)"
    have ok: "deal_ok (kept a bits lens) ?ps ?qs"
      using kept_deal_ok [OF lens, of a] False by (simp add: n2_def n4_def)
    have out: "scatter (scatter (map uninit [0..<length bits]) (nonzero (kept a bits lens)) ?ps)
        (nonzero (map Not (kept a bits lens))) ?qs = deal (kept a bits lens) ?ps ?qs"
      by (rule scatter_deal [OF ok]) (simp add: length_kept [OF lens])
    have vals: "map (\<lambda>i. take (n2 div PAGE) (free_pages2 a) ! nat (?pidx ! i) * PAGE
          + nat (map (\<lambda>x. x mod int PAGE) k ! i)) (nonzero (kept a bits lens)) = ?ps"
      using page_slot_values [OF lens, of a] by (simp add: k_def m_def n2_def)
    have "n2 div PAGE \<noteq> 0 \<or> n4 \<noteq> 0" using ne n2 by (auto simp: n4_def)
    then show ?thesis
      using False out unfolding spec code guard
      by (cases "n2 div PAGE = 0"; cases "n4 = 0") (simp_all add: vals)
  qed
qed

end
