(* ===== verification/Triaxial_Inv.thy ===== *)
theory Triaxial_Inv
  imports Triaxial_Mixed
begin

text \<open>
  The ownership invariant of \<open>TriaxialAllocator\<close>.  \<open>tri_inv a L\<close> says that \<open>L\<close> is the set of slots
  the allocator has handed out and not got back: an INT4 slot is either free or live; an INT2 page is
  either free, with no live slot and a zero counter, or taken, and then its counter plus the number
  of its live slots is \<open>PAGE\<close>.  Every operation keeps the invariant, and it makes the reported
  size exact.
\<close>

section \<open>The two regions\<close>

abbreviation pg :: "nat \<Rightarrow> slot set" where
  "pg p \<equiv> {s. s div PAGE = p}"

definition inv4 :: "nat \<Rightarrow> nat \<Rightarrow> slot list \<Rightarrow> slot set \<Rightarrow> bool" where
  "inv4 off s4 fs L \<longleftrightarrow>
     distinct fs \<and> set fs \<inter> L = {} \<and> set fs \<union> L = {off + 1..<off + s4}"

definition page_ok :: "nat list \<Rightarrow> nat list \<Rightarrow> slot set \<Rightarrow> nat \<Rightarrow> bool" where
  "page_ok fp cnt L p \<longleftrightarrow>
     (if p \<in> set fp then cnt ! p = 0 \<and> L \<inter> pg p = {}
      else cnt ! p < PAGE \<and> cnt ! p + card (L \<inter> pg p) = PAGE)"

definition inv2 :: "nat \<Rightarrow> nat list \<Rightarrow> nat list \<Rightarrow> slot set \<Rightarrow> bool" where
  "inv2 np fp cnt L \<longleftrightarrow>
     0 < np \<and> length cnt = np \<and> cnt ! 0 = 0 \<and> distinct fp \<and> set fp \<subseteq> {1..<np} \<and>
     L \<subseteq> {PAGE..<np * PAGE} \<and> (\<forall>p \<in> {1..<np}. page_ok fp cnt L p)"

definition live2 :: "tri_state \<Rightarrow> slot set \<Rightarrow> slot set" where
  "live2 a L = {s \<in> L. s < offset a}"

definition live4 :: "tri_state \<Rightarrow> slot set \<Rightarrow> slot set" where
  "live4 a L = {s \<in> L. offset a \<le> s}"

definition tri_inv :: "tri_state \<Rightarrow> slot set \<Rightarrow> bool" where
  "tri_inv a L \<longleftrightarrow>
     offset a = num_pages2 a * PAGE \<and> free_pages a = free_slots4 a \<and>
     inv4 (offset a) (size4 a) (free_slots4 a) (live4 a L) \<and>
     inv2 (num_pages2 a) (free_pages2 a) (page_free_cnt a) (live2 a L) \<and>
     partial_slots a = int (sum_list (page_free_cnt a))"

section \<open>The INT4 region\<close>

lemma inv4_take:
  assumes "inv4 off s4 fs L"
  shows "inv4 off s4 (drop n fs) (L \<union> set (take n fs))"
proof -
  have "set (take n fs) \<union> set (drop n fs) = set fs" by (metis append_take_drop_id set_append)
  moreover have "distinct (take n fs @ drop n fs)" using assms by (simp add: inv4_def)
  ultimately show ?thesis using assms by (auto simp: inv4_def simp del: append_take_drop_id)
qed

lemma inv4_add:
  "inv4 off s4 fs L \<Longrightarrow> distinct xs \<Longrightarrow> set xs \<subseteq> L \<Longrightarrow> inv4 off s4 (fs @ xs) (L - set xs)"
  by (auto simp: inv4_def)

lemma inv4_card:
  assumes "inv4 off s4 fs L"
  shows "length fs + card L = s4 - 1"
proof -
  have "finite L" using assms by (metis finite_Un finite_atLeastLessThan inv4_def)
  then have "card (set fs \<union> L) = length fs + card L"
    using assms by (subst card_Un_disjoint) (auto simp: inv4_def distinct_card)
  then show ?thesis using assms by (simp add: inv4_def)
qed

section \<open>The INT2 region\<close>

lemma card_pg: "card (pg p) = PAGE" and finite_pg: "finite (pg p)"
proof -
  have "distinct (page_slots p)" by (simp add: page_slots_def)
  then show "card (pg p) = PAGE" "finite (pg p)"
    using distinct_card [of "page_slots p"] by (simp_all flip: set_page_slots)
qed

lemma distinct_page_slots [simp]: "distinct (page_slots p)"
  by (simp add: page_slots_def)

lemma distinct_concat_pages: "distinct ps \<Longrightarrow> distinct (concat (map page_slots ps))"
  by (induction ps) (auto simp: set_page_slots)

lemma pg_range: "p \<in> {1..<np} \<Longrightarrow> pg p \<subseteq> {PAGE..<np * PAGE}"
proof
  fix s assume p: "p \<in> {1..<np}" and "s \<in> pg p"
  then have s: "s div PAGE = p" by simp
  have "1 * PAGE \<le> s" using p s by (metis atLeastLessThan_iff less_eq_div_iff_mult_less_eq PAGE_pos)
  moreover have "s < np * PAGE" using p s by (simp add: div_less_iff_less_mult [symmetric])
  ultimately show "s \<in> {PAGE..<np * PAGE}" by simp
qed

lemma page_of_live: "inv2 np fp cnt L \<Longrightarrow> s \<in> L \<Longrightarrow> s div PAGE \<in> {1..<np}"
  by (auto simp: inv2_def subset_iff div_less_iff_less_mult Suc_le_eq div_greater_zero_iff)

lemma page_of_live_taken:
  assumes "inv2 np fp cnt L" "s \<in> L"
  shows "s div PAGE \<notin> set fp"
proof
  assume "s div PAGE \<in> set fp"
  moreover have "page_ok fp cnt L (s div PAGE)"
    using assms page_of_live [OF assms] by (simp add: inv2_def)
  ultimately have "L \<inter> pg (s div PAGE) = {}" by (simp add: page_ok_def)
  with assms(2) show False by auto
qed

lemma inv2_take:
  assumes inv: "inv2 np fp cnt L" and n: "n \<le> length fp"
  shows "inv2 np (drop n fp) cnt (L \<union> set (concat (map page_slots (take n fp))))"
    and "set (concat (map page_slots (take n fp))) \<inter> L = {}"
    and "distinct (concat (map page_slots (take n fp)))"
proof -
  let ?T = "set (take n fp)" and ?S = "set (concat (map page_slots (take n fp)))"
  have S: "?S = {s. s div PAGE \<in> ?T}" by (auto simp: set_page_slots)
  have split: "?T \<union> set (drop n fp) = set fp" by (metis append_take_drop_id set_append)
  have disj: "?T \<inter> set (drop n fp) = {}"
    using inv by (metis append_take_drop_id distinct_append inv2_def)
  have T: "?T \<subseteq> {1..<np}" using inv split by (auto simp: inv2_def)
  have "page_ok (drop n fp) cnt (L \<union> ?S) p" if p: "p \<in> {1..<np}" for p
  proof (cases "p \<in> ?T")
    case True
    then have "page_ok fp cnt L p" "p \<in> set fp" "p \<notin> set (drop n fp)"
      using inv p split disj by (auto simp: inv2_def)
    moreover from this have "(L \<union> ?S) \<inter> pg p = pg p" using True S by auto
    ultimately show ?thesis by (simp add: page_ok_def card_pg)
  next
    case False
    then have "(L \<union> ?S) \<inter> pg p = L \<inter> pg p" "p \<in> set (drop n fp) \<longleftrightarrow> p \<in> set fp"
      using S split by auto
    then show ?thesis using inv p by (simp add: page_ok_def inv2_def)
  qed
  moreover have "?S \<subseteq> {PAGE..<np * PAGE}"
  proof
    fix s assume "s \<in> ?S"
    then have "s div PAGE \<in> {1..<np}" unfolding S using T by blast
    then show "s \<in> {PAGE..<np * PAGE}" using pg_range [of "s div PAGE" np] by auto
  qed
  ultimately show "inv2 np (drop n fp) cnt (L \<union> ?S)"
    using inv split by (auto simp: inv2_def)
  show "?S \<inter> L = {}" using S page_of_live_taken [OF inv] split by auto
  show "distinct (concat (map page_slots (take n fp)))"
    using inv by (intro distinct_concat_pages) (simp add: inv2_def)
qed

subsection \<open>Counters\<close>

lemma length_index_add_ones [simp]: "length (index_add_ones cnt ps) = length cnt"
  unfolding index_add_ones_def by (induction ps arbitrary: cnt) auto

lemma index_add_ones_nth:
  "\<forall>p \<in> set ps. p < length cnt \<Longrightarrow> index_add_ones cnt ps ! q = cnt ! q + count_list ps q"
  unfolding index_add_ones_def
proof (induction ps arbitrary: cnt)
  case (Cons p ps)
  then show ?case by (cases "p = q") (auto simp: nth_list_update)
qed simp

lemma sum_index_add_ones:
  "\<forall>p \<in> set ps. p < length cnt \<Longrightarrow> sum_list (index_add_ones cnt ps) = sum_list cnt + length ps"
  unfolding index_add_ones_def
proof (induction ps arbitrary: cnt)
  case (Cons p ps)
  then show ?case by (simp add: sum_list_update elem_le_sum_list)
qed simp

lemma length_index_zero [simp]: "length (index_zero cnt ps) = length cnt"
  unfolding index_zero_def by (induction ps arbitrary: cnt) auto

lemma index_zero_nth:
  "\<forall>p \<in> set ps. p < length cnt \<Longrightarrow> index_zero cnt ps ! q = (if q \<in> set ps then 0 else cnt ! q)"
  unfolding index_zero_def
proof (induction ps arbitrary: cnt)
  case (Cons p ps)
  then show ?case by (cases "p = q") (auto simp: nth_list_update)
qed simp

lemma sum_index_zero:
  "distinct ps \<Longrightarrow> \<forall>p \<in> set ps. p < length cnt \<and> cnt ! p = c
   \<Longrightarrow> sum_list (index_zero cnt ps) + c * length ps = sum_list cnt"
  unfolding index_zero_def
proof (induction ps arbitrary: cnt)
  case (Cons p ps)
  have "\<forall>q \<in> set ps. q < length (cnt[p := 0]) \<and> cnt[p := 0] ! q = c"
    using Cons.prems by (auto simp: nth_list_update)
  from Cons.IH [OF _ this] Cons.prems
  have "sum_list (fold (\<lambda>p c. c[p := 0]) ps (cnt[p := 0])) + c * length ps = sum_list (cnt[p := 0])"
    by simp
  moreover have "sum_list (cnt[p := 0]) + c = sum_list cnt"
    using Cons.prems elem_le_sum_list [of p cnt] by (simp add: sum_list_update)
  ultimately show ?case by simp
qed simp

lemma count_pages: "distinct xs \<Longrightarrow> count_list (map (\<lambda>s. s div PAGE) xs) p = card (set xs \<inter> pg p)"
proof (induction xs)
  case (Cons x xs)
  then have "set (x # xs) \<inter> pg p = (if x div PAGE = p then insert x (set xs \<inter> pg p) else set xs \<inter> pg p)"
    by auto
  with Cons show ?case by simp
qed simp

subsection \<open>Returning slots\<close>

text \<open>The state of the INT2 region after \<open>free\<close> has processed the INT2 slots \<open>s2\<close>.\<close>

definition full_pages :: "nat list \<Rightarrow> slot list \<Rightarrow> nat list" where
  "full_pages cnt s2 =
     filter (\<lambda>p. index_add_ones cnt (map (\<lambda>s. s div PAGE) s2) ! p \<ge> PAGE) (unique (map (\<lambda>s. s div PAGE) s2))"

definition counts_after :: "nat list \<Rightarrow> slot list \<Rightarrow> nat list" where
  "counts_after cnt s2 = index_zero (index_add_ones cnt (map (\<lambda>s. s div PAGE) s2)) (full_pages cnt s2)"

lemma set_unique [simp]: "set (unique xs) = set xs" and distinct_unique [simp]: "distinct (unique xs)"
  by (simp_all add: unique_def)

lemma distinct_full_pages [simp]: "distinct (full_pages cnt s2)"
  by (simp add: full_pages_def)

text \<open>\<open>s2\<close> are distinct live slots of the INT2 region.\<close>

definition returnable :: "nat \<Rightarrow> nat list \<Rightarrow> nat list \<Rightarrow> slot set \<Rightarrow> slot list \<Rightarrow> bool" where
  "returnable np fp cnt L s2 \<longleftrightarrow> inv2 np fp cnt L \<and> distinct s2 \<and> set s2 \<subseteq> L"

lemma returnableD:
  assumes "returnable np fp cnt L s2"
  shows "inv2 np fp cnt L" "distinct s2" "set s2 \<subseteq> L"
  using assms by (simp_all add: returnable_def)

lemma pages_in_range:
  assumes r: "returnable np fp cnt L s2"
  shows "\<forall>p \<in> set (map (\<lambda>s. s div PAGE) s2). p < length cnt"
  using page_of_live [OF returnableD(1) [OF r]] returnableD [OF r] by (auto simp: inv2_def)

lemma finite_live: "inv2 np fp cnt L \<Longrightarrow> finite L"
  by (auto simp: inv2_def intro: finite_subset)

lemma count_after_add:
  assumes r: "returnable np fp cnt L s2"
  shows "index_add_ones cnt (map (\<lambda>s. s div PAGE) s2) ! p = cnt ! p + card (set s2 \<inter> pg p)"
  using pages_in_range [OF r] returnableD(2) [OF r] by (simp add: index_add_ones_nth count_pages)

lemma card_live_split:
  assumes r: "returnable np fp cnt L s2"
  shows "card (L \<inter> pg p) = card ((L - set s2) \<inter> pg p) + card (set s2 \<inter> pg p)"
proof -
  have "L \<inter> pg p = ((L - set s2) \<inter> pg p) \<union> (set s2 \<inter> pg p)" using returnableD(3) [OF r] by auto
  moreover have "((L - set s2) \<inter> pg p) \<inter> (set s2 \<inter> pg p) = {}" by auto
  ultimately show ?thesis using finite_live [OF returnableD(1) [OF r]] by (simp add: card_Un_disjoint)
qed

lemma taken_page:
  assumes r: "returnable np fp cnt L s2" and p: "p \<in> (\<lambda>s. s div PAGE) ` set s2"
  shows "p \<in> {1..<np}" and "p \<notin> set fp"
    and "index_add_ones cnt (map (\<lambda>s. s div PAGE) s2) ! p + card ((L - set s2) \<inter> pg p) = PAGE"
proof -
  note inv = returnableD(1) [OF r]
  from p obtain s where s: "s \<in> L" "p = s div PAGE" using returnableD(3) [OF r] by auto
  show p: "p \<in> {1..<np}" "p \<notin> set fp"
    using page_of_live [OF inv s(1)] page_of_live_taken [OF inv s(1)] s(2) by auto
  then have "cnt ! p + card (L \<inter> pg p) = PAGE" using inv by (auto simp: inv2_def page_ok_def)
  then show "index_add_ones cnt (map (\<lambda>s. s div PAGE) s2) ! p + card ((L - set s2) \<inter> pg p) = PAGE"
    by (simp add: count_after_add [OF r] card_live_split [OF r])
qed

lemma full_pages_iff:
  assumes r: "returnable np fp cnt L s2"
  shows "p \<in> set (full_pages cnt s2) \<longleftrightarrow> p \<in> (\<lambda>s. s div PAGE) ` set s2 \<and> (L - set s2) \<inter> pg p = {}"
proof (cases "p \<in> (\<lambda>s. s div PAGE) ` set s2")
  case True
  have "PAGE \<le> index_add_ones cnt (map (\<lambda>s. s div PAGE) s2) ! p \<longleftrightarrow> card ((L - set s2) \<inter> pg p) = 0"
    using taken_page(3) [OF r True] by linarith
  also have "\<dots> \<longleftrightarrow> (L - set s2) \<inter> pg p = {}"
    using finite_live [OF returnableD(1) [OF r]] by (intro card_0_eq) auto
  finally show ?thesis using True by (simp add: full_pages_def)
next
  case False
  then show ?thesis by (auto simp: full_pages_def)
qed

lemma full_pages_count:
  assumes r: "returnable np fp cnt L s2"
  shows "p \<in> set (full_pages cnt s2) \<Longrightarrow> index_add_ones cnt (map (\<lambda>s. s div PAGE) s2) ! p = PAGE"
  using full_pages_iff [OF r, of p] taken_page(3) [OF r, of p] by (metis add.right_neutral card.empty)

lemma full_pages_range:
  assumes r: "returnable np fp cnt L s2"
  shows "set (full_pages cnt s2) \<subseteq> {1..<np}" "set (full_pages cnt s2) \<inter> set fp = {}"
  using full_pages_iff [OF r] taken_page [OF r] by blast+

lemma counts_after_nth:
  assumes r: "returnable np fp cnt L s2"
  shows "counts_after cnt s2 ! p
    = (if p \<in> set (full_pages cnt s2) then 0 else cnt ! p + card (set s2 \<inter> pg p))"
proof -
  have "\<forall>p \<in> set (full_pages cnt s2). p < length (index_add_ones cnt (map (\<lambda>s. s div PAGE) s2))"
    using full_pages_range(1) [OF r] returnableD(1) [OF r] by (auto simp: inv2_def)
  then show ?thesis by (simp add: counts_after_def index_zero_nth count_after_add [OF r])
qed

lemma page_ok_free:
  assumes r: "returnable np fp cnt L s2" and p: "p \<in> {1..<np}"
  shows "page_ok (fp @ full_pages cnt s2) (counts_after cnt s2) (L - set s2) p"
proof (cases "p \<in> (\<lambda>s. s div PAGE) ` set s2")
  case True
  have fin: "finite ((L - set s2) \<inter> pg p)" using finite_live [OF returnableD(1) [OF r]] by auto
  have sum: "cnt ! p + card (set s2 \<inter> pg p) + card ((L - set s2) \<inter> pg p) = PAGE"
    using taken_page(3) [OF r True] by (simp add: count_after_add [OF r])
  show ?thesis
  proof (cases "(L - set s2) \<inter> pg p = {}")
    case e: True
    then show ?thesis using full_pages_iff [OF r, of p] True by (simp add: page_ok_def counts_after_nth [OF r])
  next
    case False
    then have "0 < card ((L - set s2) \<inter> pg p)" using fin by (simp add: card_gt_0_iff)
    moreover have "p \<notin> set (full_pages cnt s2)" "p \<notin> set fp"
      using full_pages_iff [OF r, of p] False taken_page(2) [OF r True] by auto
    ultimately show ?thesis using sum by (simp add: page_ok_def counts_after_nth [OF r])
  qed
next
  case False
  then have "set s2 \<inter> pg p = {}" "(L - set s2) \<inter> pg p = L \<inter> pg p" "p \<notin> set (full_pages cnt s2)"
    using full_pages_iff [OF r, of p] by auto
  then show ?thesis
    using returnableD(1) [OF r] p by (auto simp: page_ok_def counts_after_nth [OF r] inv2_def)
qed

lemma inv2_free:
  assumes r: "returnable np fp cnt L s2"
  shows "inv2 np (fp @ full_pages cnt s2) (counts_after cnt s2) (L - set s2)"
proof -
  note inv = returnableD(1) [OF r]
  have "set s2 \<inter> pg 0 = {}" using page_of_live [OF inv] returnableD(3) [OF r] by fastforce
  moreover have "0 \<notin> set (full_pages cnt s2)" using full_pages_range(1) [OF r] by auto
  ultimately have "counts_after cnt s2 ! 0 = 0" using inv by (simp add: counts_after_nth [OF r] inv2_def)
  moreover have "length (counts_after cnt s2) = np" using inv by (simp add: counts_after_def inv2_def)
  moreover have "distinct (fp @ full_pages cnt s2)" "set (fp @ full_pages cnt s2) \<subseteq> {1..<np}"
    using inv full_pages_range [OF r] by (auto simp: inv2_def)
  ultimately show ?thesis using page_ok_free [OF r] inv unfolding inv2_def by blast
qed

lemma sum_counts_after:
  assumes r: "returnable np fp cnt L s2"
  shows "int (sum_list (counts_after cnt s2))
   = int (sum_list cnt) + (int (length s2) - int (length (full_pages cnt s2) * PAGE))"
proof -
  let ?c = "index_add_ones cnt (map (\<lambda>s. s div PAGE) s2)"
  have "\<forall>p \<in> set (full_pages cnt s2). p < length ?c \<and> ?c ! p = PAGE"
    using full_pages_range(1) [OF r] full_pages_count [OF r] returnableD(1) [OF r] by (auto simp: inv2_def)
  then have "sum_list (counts_after cnt s2) + PAGE * length (full_pages cnt s2) = sum_list ?c"
    unfolding counts_after_def by (intro sum_index_zero) auto
  moreover have "sum_list ?c = sum_list cnt + length s2"
    using sum_index_add_ones [OF pages_in_range [OF r]] by simp
  ultimately have "sum_list (counts_after cnt s2) + length (full_pages cnt s2) * PAGE = sum_list cnt + length s2"
    by (simp add: mult.commute)
  then show ?thesis by linarith
qed

lemma inv2_card:
  assumes inv: "inv2 np fp cnt L"
  shows "length fp * PAGE + sum_list cnt + card L = (np - 1) * PAGE"
proof -
  let ?P = "{1..<np}"
  have L: "L = (\<Union>p\<in>?P. L \<inter> pg p)" using page_of_live [OF inv] by auto
  have "card (\<Union>p\<in>?P. L \<inter> pg p) = (\<Sum>p\<in>?P. card (L \<inter> pg p))"
    using finite_live [OF inv] by (intro card_UN_disjoint) auto
  with L have cL: "card L = (\<Sum>p\<in>?P. card (L \<inter> pg p))" by simp
  have "sum_list cnt = (\<Sum>p<np. cnt ! p)"
    using inv by (simp add: sum_list_sum_nth inv2_def atLeast0LessThan)
  also have "{..<np} = insert 0 ?P" using inv by (auto simp: inv2_def)
  finally have cc: "sum_list cnt = (\<Sum>p\<in>?P. cnt ! p)" using inv by (simp add: inv2_def)
  have fp: "set fp \<subseteq> ?P" "distinct fp" using inv by (auto simp: inv2_def)
  have "(if p \<in> set fp then PAGE else 0) + cnt ! p + card (L \<inter> pg p) = PAGE" if "p \<in> ?P" for p
    using inv that by (auto simp: inv2_def page_ok_def split: if_splits)
  then have "(\<Sum>p\<in>?P. (if p \<in> set fp then PAGE else 0) + cnt ! p + card (L \<inter> pg p)) = (np - 1) * PAGE"
    by simp
  moreover have "(\<Sum>p\<in>?P. if p \<in> set fp then PAGE else 0) = length fp * PAGE"
    using fp by (simp add: sum.If_cases Int_absorb1 distinct_card)
  ultimately show ?thesis by (simp add: sum.distrib cL cc)
qed

section \<open>The whole allocator\<close>

text \<open>Usable slots: all INT2 pages but page 0, all INT4 rows but row 0.\<close>

definition usable_slots :: "tri_state \<Rightarrow> nat" where
  "usable_slots a = (num_pages2 a - 1) * PAGE + (size4 a - 1)"

lemma tri_invD:
  assumes "tri_inv a L"
  shows "offset a = num_pages2 a * PAGE" "free_pages a = free_slots4 a"
    "inv4 (offset a) (size4 a) (free_slots4 a) (live4 a L)"
    "inv2 (num_pages2 a) (free_pages2 a) (page_free_cnt a) (live2 a L)"
    "partial_slots a = int (sum_list (page_free_cnt a))"
  using assms unfolding tri_inv_def by blast+

lemma tri_inv_finite:
  assumes "tri_inv a L"
  shows "finite L"
proof -
  have "finite (live2 a L)" "finite (live4 a L)"
    using assms by (auto simp: tri_inv_def inv4_def intro: finite_live finite_subset [of "live4 a L"])
  moreover have "L = live2 a L \<union> live4 a L" by (auto simp: live2_def live4_def)
  ultimately show ?thesis by (metis finite_Un)
qed

lemma tri_inv_exact_size:
  assumes "tri_inv a L"
  shows "tri_available_size a + int (card L) = int (usable_slots a)"
proof -
  have "L = live2 a L \<union> live4 a L" "live2 a L \<inter> live4 a L = {}" by (auto simp: live2_def live4_def)
  moreover have "finite (live2 a L)" "finite (live4 a L)"
    using tri_inv_finite [OF assms] by (auto simp: live2_def live4_def)
  ultimately have "card L = card (live2 a L) + card (live4 a L)" by (metis card_Un_disjoint)
  with inv4_card [OF tri_invD(3) [OF assms]] inv2_card [OF tri_invD(4) [OF assms]] tri_invD(5) [OF assms]
  show ?thesis unfolding usable_slots_def tri_available_size_def by linarith
qed

lemma tri_inv_init: "0 < np2 \<Longrightarrow> tri_inv (tri_init sz (np2 * PAGE) np2 s4 srt) {}"
  by (auto simp: tri_inv_def tri_init_def tri_clear_def inv4_def inv2_def live2_def live4_def
      page_ok_def atLeastLessThanSuc_atLeastAtMost)

lemma tri_inv_no_padding:
  assumes "tri_inv a L" "s \<in> L"
  shows "PAGE \<le> s" and "s \<noteq> offset a"
proof -
  have "s \<in> live2 a L \<or> s \<in> live4 a L" using assms(2) by (auto simp: live2_def live4_def)
  moreover have "live2 a L \<subseteq> {PAGE..<offset a}" "live4 a L \<subseteq> {offset a + 1..<offset a + size4 a}"
    "PAGE \<le> offset a"
    using assms(1) by (auto simp: tri_inv_def inv2_def inv4_def)
  ultimately show "PAGE \<le> s" "s \<noteq> offset a" by fastforce+
qed

text \<open>The sizes never change, so an operation keeps the invariant if it keeps that of each region.\<close>

lemma tri_inv_keep:
  assumes "tri_inv a L" "offset b = offset a" "num_pages2 b = num_pages2 a" "size4 b = size4 a"
    and "free_pages b = free_slots4 b"
    and "inv4 (offset a) (size4 a) (free_slots4 b) (live4 a M)"
    and "inv2 (num_pages2 a) (free_pages2 b) (page_free_cnt b) (live2 a M)"
    and "partial_slots b = int (sum_list (page_free_cnt b))"
  shows "tri_inv b M"
  unfolding tri_inv_def live4_def live2_def assms(2-4)
  using assms(5-8) tri_invD(1) [OF assms(1)] unfolding live4_def live2_def by blast

subsection \<open>Allocation\<close>

lemma tri_inv_grow:
  assumes inv: "tri_inv a L"
    and fs: "inv4 (offset a) (size4 a) fs (live4 a L \<union> X4)" and X4: "\<forall>s \<in> X4. offset a \<le> s"
    and fp: "inv2 (num_pages2 a) fp (page_free_cnt a) (live2 a L \<union> X2)" and X2: "\<forall>s \<in> X2. s < offset a"
  shows "tri_inv (a\<lparr>fallback_int2_to_int4 := k, free_pages2 := fp, free_slots4 := fs, free_pages := fs\<rparr>)
    (L \<union> (X2 \<union> X4))"
proof (rule tri_inv_keep [OF inv])
  have "live4 a (L \<union> (X2 \<union> X4)) = live4 a L \<union> X4" "live2 a (L \<union> (X2 \<union> X4)) = live2 a L \<union> X2"
    using X2 X4 by (fastforce simp: live2_def live4_def)+
  then show "inv4 (offset a) (size4 a) (free_slots4 (a\<lparr>fallback_int2_to_int4 := k, free_pages2 := fp,
      free_slots4 := fs, free_pages := fs\<rparr>)) (live4 a (L \<union> (X2 \<union> X4)))"
    "inv2 (num_pages2 a) (free_pages2 (a\<lparr>fallback_int2_to_int4 := k, free_pages2 := fp,
      free_slots4 := fs, free_pages := fs\<rparr>)) (page_free_cnt (a\<lparr>fallback_int2_to_int4 := k, free_pages2 := fp,
      free_slots4 := fs, free_pages := fs\<rparr>)) (live2 a (L \<union> (X2 \<union> X4)))"
    using fs fp by simp_all
qed (use tri_invD [OF inv] in simp_all)

lemma tri_inv_fallback:
  assumes inv: "tri_inv a L"
  shows "tri_inv (a\<lparr>fallback_int2_to_int4 := k\<rparr>) L"
  by (rule tri_inv_keep [OF inv]) (use tri_invD [OF inv] in simp_all)

lemma free_slots4_above: "tri_inv a L \<Longrightarrow> s \<in> set (free_slots4 a) \<Longrightarrow> offset a < s \<and> s \<notin> L"
proof -
  assume "tri_inv a L" "s \<in> set (free_slots4 a)"
  with tri_invD(3) [of a L] have "s \<in> {offset a + 1..<offset a + size4 a}" "s \<notin> live4 a L"
    by (auto simp: inv4_def)
  then show ?thesis by (simp add: live4_def)
qed

lemma tri_alloc_SomeD:
  assumes inv: "tri_inv a L" and al: "tri_alloc a n = (Some xs, a')"
  shows "length xs = n \<and> distinct xs \<and> set xs \<inter> L = {} \<and> (\<forall>s \<in> set xs. offset a < s) \<and> tri_inv a' (L \<union> set xs)"
proof -
  from al have n: "n \<le> length (free_slots4 a)" and xs: "xs = take n (free_slots4 a)"
    and a': "a' = a\<lparr>free_slots4 := drop n (free_slots4 a), free_pages := drop n (free_slots4 a)\<rparr>"
    by (auto simp: tri_alloc_def Let_def split: if_splits)
  have sub: "set xs \<subseteq> set (free_slots4 a)" by (simp add: xs set_take_subset)
  have i4: "inv4 (offset a) (size4 a) (drop n (free_slots4 a)) (live4 a L \<union> set xs)"
    unfolding xs by (intro inv4_take tri_invD(3) [OF inv])
  have "tri_inv (a\<lparr>fallback_int2_to_int4 := fallback_int2_to_int4 a, free_pages2 := free_pages2 a, free_slots4 := drop n (free_slots4 a),
      free_pages := drop n (free_slots4 a)\<rparr>) (L \<union> ({} \<union> set xs))"
    using tri_invD(4) [OF inv] sub free_slots4_above [OF inv]
    by (intro tri_inv_grow inv i4) (auto dest: less_imp_le)
  moreover have "distinct xs" using inv by (simp add: xs tri_inv_def inv4_def)
  ultimately show ?thesis
    using n sub free_slots4_above [OF inv] by (auto simp: a' xs)
qed

lemma tri_alloc_NoneD: "tri_alloc a n = (None, a') \<Longrightarrow> a' = a \<and> available_size_int4 a < n"
  by (auto simp: tri_alloc_def available_size_int4_def Let_def split: if_splits)

lemma mixed_spec_SomeD:
  assumes inv: "tri_inv a L" and lens: "sum_list lens = length bits"
    and al: "mixed_spec a bits lens = (Some xs, a')"
  shows "length xs = length bits" "distinct xs" "set xs \<inter> L = {}" "tri_inv a' (L \<union> set xs)"
    and "map (\<lambda>s. s < offset a) xs = kept a bits lens"
    and "filter (\<lambda>s. s < offset a) xs
      = concat (map page_slots (take (n_kept a bits lens div PAGE) (free_pages2 a)))"
proof -
  define n2 where "n2 = n_kept a bits lens"
  define n4 where "n4 = length bits - n2"
  let ?ps = "concat (map page_slots (take (n2 div PAGE) (free_pages2 a)))"
  let ?qs = "take n4 (free_slots4 a)"
  from al have n4: "n4 \<le> length (free_slots4 a)" and xs: "xs = deal (kept a bits lens) ?ps ?qs"
    and a': "a' = (a\<lparr>fallback_int2_to_int4 := fallback_int2_to_int4 a + (ntrue (keep_spec bits lens) (length bits) - n2)\<rparr>)
        \<lparr>free_pages2 := drop (n2 div PAGE) (free_pages2 a), free_slots4 := drop n4 (free_slots4 a),
         free_pages := drop n4 (free_slots4 a)\<rparr>"
    by (auto simp: mixed_spec_def Let_def n2_def n4_def split: if_splits)
  have ok: "deal_ok (kept a bits lens) ?ps ?qs"
    using kept_deal_ok [OF lens, of a] n4 by (simp add: n2_def n4_def)
  show "length xs = length bits" by (simp add: xs length_deal [OF ok] length_kept [OF lens])
  have np: "n2 div PAGE \<le> length (free_pages2 a)" by (simp add: n2_def n_kept_pages(2) [OF lens])
  note i2 = inv2_take [OF tri_invD(4) [OF inv] np]
  note i4 = inv4_take [OF tri_invD(3) [OF inv], of n4]
  have p: "s < offset a" if "s \<in> set ?ps" for s
    using i2(1) that tri_invD(1) [OF inv] by (auto simp: inv2_def)
  have q: "offset a < s \<and> s \<notin> L" if "s \<in> set ?qs" for s
    using free_slots4_above [OF inv] that by (meson in_set_takeD)
  have disj: "set ?ps \<inter> L = {}" using i2(2) p by (auto simp: live2_def)
  have "distinct ?qs" using tri_invD(3) [OF inv] by (simp add: inv4_def)
  then show "distinct xs" using i2(3) p q by (fastforce simp: xs distinct_deal [OF ok])
  show "set xs \<inter> L = {}" using disj q by (auto simp: xs set_deal [OF ok])
  have "tri_inv a' (L \<union> (set ?ps \<union> set ?qs))"
    unfolding a' using p q by (intro tri_inv_grow inv i4 i2(1)) (auto dest: less_imp_le)
  then show "tri_inv a' (L \<union> set xs)" by (simp add: xs set_deal [OF ok])
  show "map (\<lambda>s. s < offset a) xs = kept a bits lens"
  proof (rule nth_equalityI)
    fix i assume "i < length (map (\<lambda>s. s < offset a) xs)"
    then have i: "i < length (kept a bits lens)" by (simp add: xs length_deal [OF ok])
    then show "map (\<lambda>s. s < offset a) xs ! i = kept a bits lens ! i"
      using deal_mem [OF ok, of i] p q length_deal [OF ok]
      by (cases "kept a bits lens ! i") (auto simp: xs dest: less_asym)
  qed (simp add: xs length_deal [OF ok])
  show "filter (\<lambda>s. s < offset a) xs
      = concat (map page_slots (take (n_kept a bits lens div PAGE) (free_pages2 a)))"
    unfolding xs n2_def [symmetric] using p q by (intro filter_deal [OF ok]) (auto dest: less_asym)
qed

lemma mixed_spec_NoneD:
  "mixed_spec a bits lens = (None, a') \<Longrightarrow>
   \<exists>k. a' = a\<lparr>fallback_int2_to_int4 := k\<rparr> \<and> available_size_int4 a < length bits - n_kept a bits lens"
  by (auto simp: mixed_spec_def available_size_int4_def Let_def split: if_splits)

subsection \<open>Freeing\<close>

lemma mask_select_filter: "mask_select xs (map P xs) = filter P xs"
  by (induction xs) (auto simp: mask_select_def)

lemma full_pages_Nil [simp]: "full_pages cnt [] = []" and counts_after_Nil [simp]: "counts_after cnt [] = cnt"
  by (simp_all add: full_pages_def counts_after_def unique_def index_add_ones_def index_zero_def)

lemma index_zero_Nil [simp]: "index_zero cnt [] = cnt"
  by (simp add: index_zero_def)

text \<open>What \<open>free\<close> does with a batch that has INT4 slots \<open>s4\<close> and non-padding INT2 slots \<open>s2\<close>.\<close>

lemma tri_free_eq:
  assumes "is_not_in_free_group a" "free_pages a = free_slots4 a"
    and "s2 = filter (\<lambda>s. PAGE \<le> s \<and> s < offset a) xs" and "s4 = filter (\<lambda>s. offset a \<le> s) xs"
    and "\<forall>p \<in> set (map (\<lambda>s. s div PAGE) s2). p < length (page_free_cnt a)"
  shows "tri_free a xs = Inr (a\<lparr>free_slots4 := free_slots4 a @ s4, free_pages := free_slots4 a @ s4,
     free_pages2 := free_pages2 a @ full_pages (page_free_cnt a) s2,
     page_free_cnt := counts_after (page_free_cnt a) s2,
     partial_slots := partial_slots a
       + (int (length s2) - int (length (full_pages (page_free_cnt a) s2) * PAGE))\<rparr>)"
proof (cases "xs = []")
  case True
  then show ?thesis using assms by (simp add: tri_free_def)
next
  case False
  have s2: "filter (\<lambda>s. s \<ge> PAGE) (mask_select xs (map Not (map (\<lambda>s. s \<ge> offset a) xs))) = s2"
    using mask_select_filter [of xs "\<lambda>s. \<not> offset a \<le> s"]
    by (simp add: assms(3) comp_def not_le conj_commute)
  have s4: "mask_select xs (map (\<lambda>s. s \<ge> offset a) xs) = s4"
    by (simp add: assms(4) mask_select_filter)
  have range: "\<not> (\<exists>p \<in> set (map (\<lambda>s. s div PAGE) s2). length (page_free_cnt a) \<le> p)"
    using assms(5) by (auto simp: not_le)
  define b where "b = (if s4 \<noteq> [] then
      a\<lparr>free_slots4 := free_slots4 a @ s4, free_pages := free_slots4 a @ s4\<rparr> else a)"
  have b: "b = a\<lparr>free_slots4 := free_slots4 a @ s4, free_pages := free_slots4 a @ s4\<rparr>"
    using assms(2) by (simp add: b_def)
  have cnt: "page_free_cnt b = page_free_cnt a" by (simp add: b)
  have *: "tri_free a xs = (if s2 \<noteq> [] then
      Inr (let f = full_pages (page_free_cnt b) s2;
               c = b\<lparr>page_free_cnt := index_add_ones (page_free_cnt b) (map (\<lambda>s. s div PAGE) s2)\<rparr>;
               d = (if length f > 0 then
                      c\<lparr>page_free_cnt := counts_after (page_free_cnt b) s2, free_pages2 := free_pages2 c @ f\<rparr>
                    else c)
           in d\<lparr>partial_slots := partial_slots d + (int (length s2) - int (length f * PAGE))\<rparr>)
      else Inr b)"
    unfolding tri_free_def Let_def s2 s4 b_def [symmetric] full_pages_def [symmetric]
      counts_after_def cnt using assms(1) False range by simp
  show ?thesis unfolding * Let_def unfolding b
    by (cases "s2 = []"; cases "full_pages (page_free_cnt a) s2 = []") (simp_all add: counts_after_def index_add_ones_def)
qed

lemma tri_free_live:
  assumes inv: "tri_inv a L" and grp: "is_not_in_free_group a" and xs: "distinct xs" "set xs \<subseteq> L"
  shows "\<exists>a'. tri_free a xs = Inr a' \<and> tri_inv a' (L - set xs) \<and> is_not_in_free_group a'
    \<and> usable_slots a' = usable_slots a"
proof -
  define s2 where "s2 = filter (\<lambda>s. PAGE \<le> s \<and> s < offset a) xs"
  define s4 where "s4 = filter (\<lambda>s. offset a \<le> s) xs"
  let ?L = "L - set xs"
  let ?a = "a\<lparr>free_slots4 := free_slots4 a @ s4, free_pages := free_slots4 a @ s4,
     free_pages2 := free_pages2 a @ full_pages (page_free_cnt a) s2,
     page_free_cnt := counts_after (page_free_cnt a) s2,
     partial_slots := partial_slots a
       + (int (length s2) - int (length (full_pages (page_free_cnt a) s2) * PAGE))\<rparr>"
  have ret: "returnable (num_pages2 a) (free_pages2 a) (page_free_cnt a) (live2 a L) s2"
    using tri_invD(4) [OF inv] xs by (auto simp: returnable_def s2_def live2_def)
  have "tri_free a xs = Inr ?a"
    by (rule tri_free_eq [OF grp tri_invD(2) [OF inv] s2_def s4_def pages_in_range [OF ret]])
  moreover have "tri_inv ?a ?L"
  proof (rule tri_inv_keep [OF inv])
    have "live2 a ?L = live2 a L - set s2" "live4 a ?L = live4 a L - set s4"
      using tri_inv_no_padding(1) [OF inv] by (auto simp: live2_def live4_def s2_def s4_def)
    moreover have "inv4 (offset a) (size4 a) (free_slots4 a @ s4) (live4 a L - set s4)"
      using xs by (intro inv4_add tri_invD(3) [OF inv]) (auto simp: s4_def live4_def)
    ultimately show "inv4 (offset a) (size4 a) (free_slots4 ?a) (live4 a ?L)"
      "inv2 (num_pages2 a) (free_pages2 ?a) (page_free_cnt ?a) (live2 a ?L)"
      using inv2_free [OF ret] by simp_all
    show "partial_slots ?a = int (sum_list (page_free_cnt ?a))"
      using sum_counts_after [OF ret] tri_invD(5) [OF inv] by simp
  qed simp_all
  ultimately show ?thesis using grp by (auto simp: usable_slots_def)
qed

lemma tri_alloc_frame:
  "tri_alloc a n = (r, a') \<Longrightarrow> usable_slots a' = usable_slots a
     \<and> is_not_in_free_group a' = is_not_in_free_group a \<and> free_group a' = free_group a"
  by (auto simp: tri_alloc_def Let_def usable_slots_def split: if_splits)

lemma size_after_gain:
  assumes "tri_inv a L" "tri_inv a' (L \<union> X)" "usable_slots a' = usable_slots a" "X \<inter> L = {}"
  shows "tri_available_size a' = tri_available_size a - int (card X)"
proof -
  have "finite L" "finite X" using tri_inv_finite [OF assms(2)] by auto
  then have "card (L \<union> X) = card L + card X" using assms(4) by (simp add: card_Un_disjoint Int_commute)
  with tri_inv_exact_size [OF assms(1)] tri_inv_exact_size [OF assms(2)] assms(3) show ?thesis by simp
qed

text \<open>Outside a free group.\<close>

definition tri_open :: "tri_state \<Rightarrow> slot set \<Rightarrow> bool" where
  "tri_open a L \<longleftrightarrow> is_not_in_free_group a \<and> tri_inv a L"

interpretation tri: slot_allocator tri_alloc tri_free tri_available_size tri_open
proof
  show "finite L" if "tri_open s L" for s L using that tri_inv_finite by (auto simp: tri_open_def)
  show "length xs = n \<and> distinct xs \<and> set xs \<inter> L = {} \<and> 0 \<notin> set xs \<and> tri_open s' (L \<union> set xs)
      \<and> tri_available_size s' = tri_available_size s - int n"
    if "tri_open s L" and al: "tri_alloc s n = (Some xs, s')" for s L n xs s'
  proof -
    have inv: "tri_inv s L" "is_not_in_free_group s" using that(1) by (auto simp: tri_open_def)
    from tri_alloc_SomeD [OF inv(1) al] size_after_gain [OF inv(1), of s' "set xs"] tri_alloc_frame [OF al] inv(2)
    show ?thesis by (auto simp: distinct_card tri_open_def)
  qed
  show "tri_open s' L \<and> tri_available_size s' = tri_available_size s"
    if "tri_open s L" "tri_alloc s n = (None, s')" for s L n s'
    using tri_alloc_NoneD [OF that(2)] that(1) by simp
  show "\<exists>s'. tri_free s xs = Inr s' \<and> tri_open s' (L - set xs)
      \<and> tri_available_size s' = tri_available_size s + int (length xs)"
    if op: "tri_open s L" and xs: "distinct xs" "set xs \<subseteq> L" for s L xs
  proof -
    have inv: "tri_inv s L" "is_not_in_free_group s" using op by (auto simp: tri_open_def)
    from tri_free_live [OF inv xs] obtain s' where s': "tri_free s xs = Inr s'" "tri_inv s' (L - set xs)"
      "usable_slots s' = usable_slots s" "is_not_in_free_group s'" by auto
    moreover have "card (L - set xs) + length xs = card L"
      using xs tri_inv_finite [OF inv(1)]
      by (metis card_Diff_subset card_mono distinct_card finite_set le_add_diff_inverse2)
    ultimately show ?thesis
      using tri_inv_exact_size [OF inv(1)] tri_inv_exact_size [OF s'(2)] by (auto simp: tri_open_def)
  qed
qed

end
