(* ===== verification/Radix_Evict.thy ===== *)
theory Radix_Evict
  imports Radix_Insert Radix_Lock Base_Alloc Token_Alloc Triaxial_Inv
begin

text \<open>
  Eviction.  Deleting a leaf keeps the invariant; the loop of \<open>evict\<close> always ends, frees only slots of
  unlocked nodes, each exactly once, and stops early only when nothing evictable is left.  The lemmas about
  the allocator are proved in the allocator's contract.
\<close>

section \<open>Deleting a leaf\<close>

definition delete_rel :: "radix \<Rightarrow> radix \<Rightarrow> nat \<Rightarrow> nat \<Rightarrow> bool" where
  "delete_rel st st' p x \<longleftrightarrow> config st' = config st \<and> length (rc_nodes st') = length (rc_nodes st)
     \<and> rc_evictable_size st' = rc_evictable_size st - int (length (toks st x)) \<and> rc_protected_size st' = rc_protected_size st
     \<and> rc_event_queue st' = rc_event_queue st
     \<and> (\<forall>j. j \<noteq> p \<longrightarrow> node st' j = node st j)
     \<and> node st' p = (node st p)\<lparr>n_children := AList.delete (ckey (ps st) (ext st x) (toks st x)) (kids st p)\<rparr>
     \<and> rc_evictable_leaves st' = (if lock st p \<le> 0 \<and> kids st' p = [] then insert p (rc_evictable_leaves st - {x})
                                  else rc_evictable_leaves st - {x} - {p})"

lemma delete_leaf_eq:
  assumes ti: "tree_inv st L pk pv" and x: "x \<in> L" "x \<noteq> rc_root st" and par: "parent_ok st L pk pv p x"
  shows "\<exists>st'. delete_leaf st x = ret st' \<and> delete_rel st st' p x"
proof -
  note t = tree_invD [OF ti]
  define ck where "ck = ckey (ps st) (ext st x) (toks st x)"
  have tx: "toks st x \<noteq> []" using t(8) [OF x] by (simp add: node_ok_def)
  have pL: "p \<in> L" and np: "n_parent (node st x) = Some p" and ne: "p \<noteq> x" using par tx by (auto simp: parent_ok_def)
  have lk: "map_of (kids st p) ck = Some x"
    using par kids_lookup [OF t(10) [OF pL]] by (simp add: parent_ok_def ck_def)
  define s1 where "s1 = upd st p (\<lambda>y. y\<lparr>n_children := AList.delete ck (n_children y)\<rparr>)"
  define s2 where "s2 = s1\<lparr>rc_evictable_size := rc_evictable_size s1 - int (key_len (n_key (node s1 x))),
      rc_evictable_leaves := rc_evictable_leaves s1 - {x}\<rparr>"
  have pl: "p < length (rc_nodes st)" using t(3) [OF pL] .
  have n2: "node s2 j = (if j = p then (node st p)\<lparr>n_children := AList.delete ck (kids st p)\<rparr> else node st j)" for j
    using pl by (simp add: s2_def s1_def node_def upd_def)
  have eq: "delete_leaf st x = ret (update_leaf_status s2 p)"
    using tx np lk by (simp add: delete_leaf_def get_child_key_ckey ck_def [symmetric] s1_def s2_def Let_def)
  have live: "c \<in> L \<and> c \<noteq> p" if mem: "c \<in> set (map snd (kids s2 p))" for c
  proof -
    have "set (kids s2 p) \<subseteq> set (kids st p)" by (auto simp: n2 AList.delete_eq)
    moreover obtain kc where "kc \<in> set (kids s2 p)" "c = snd kc" using mem by auto
    ultimately have "(fst kc, c) \<in> set (kids st p)" by auto
    from kidD(1,6) [OF ti pL this] show ?thesis by simp
  qed
  have "(\<exists>c\<in>set (map snd (kids s2 p)). \<not> evicted (node s2 c)) \<longleftrightarrow> kids s2 p \<noteq> []"
  proof
    assume "kids s2 p \<noteq> []"
    then obtain c where c: "c \<in> set (map snd (kids s2 p))" by (cases "kids s2 p") auto
    from live [OF c] have "\<not> evicted (node s2 c)" using t(5) t(8) [of c]
      by (cases "c = rc_root st") (auto simp: n2 evicted_def node_ok_def)
    with c show "\<exists>c\<in>set (map snd (kids s2 p)). \<not> evicted (node s2 c)" by blast
  qed auto
  moreover have "\<not> evicted (node s2 p)" using t(5) t(8) [OF pL] by (cases "p = rc_root st") (auto simp: n2 evicted_def node_ok_def)
  moreover have "rc_evictable_leaves s2 = rc_evictable_leaves st - {x}" by (simp add: s2_def s1_def)
  ultimately have lv: "rc_evictable_leaves (update_leaf_status s2 p) =
      (if lock st p \<le> 0 \<and> kids s2 p = [] then insert p (rc_evictable_leaves st - {x}) else rc_evictable_leaves st - {x} - {p})"
    unfolding update_leaf_status_def by (simp add: n2)
  have "config s2 = config st" "length (rc_nodes s2) = length (rc_nodes st)"
    "rc_evictable_size s2 = rc_evictable_size st - int (length (toks st x))" "rc_protected_size s2 = rc_protected_size st"
    "rc_event_queue s2 = rc_event_queue st"
    using n2 [of x] ne pl by (auto simp: s2_def s1_def config_def upd_def key_len_def node_def)
  then have "delete_rel st (update_leaf_status s2 p) p x"
    using lv unfolding delete_rel_def by (simp add: n2 ck_def)
  with eq show ?thesis by blast
qed

lemma deleteD:
  assumes "delete_rel st st' p x"
  shows "rc_root st' = rc_root st" "ps st' = ps st" "rc_events st' = rc_events st"
    "kids st' j = (if j = p then AList.delete (ckey (ps st) (ext st x) (toks st x)) (kids st p) else kids st j)"
    "n_parent (node st' j) = n_parent (node st j)" "n_key (node st' j) = n_key (node st j)"
    "n_value (node st' j) = n_value (node st j)" "lock st' j = lock st j"
    "n_hash_value (node st' j) = n_hash_value (node st j)" "length (rc_nodes st') = length (rc_nodes st)"
    "n_last_access (node st' j) = n_last_access (node st j)"
  using assms by (cases "j = p"; simp add: delete_rel_def config_def)+

lemma delete_priority:
  assumes "delete_rel st st' p x"
  shows "get_priority q (node st' j) = get_priority q (node st j)"
proof (cases "j = p")
  case True
  then show ?thesis using assms by (cases q) (auto simp: delete_rel_def)
qed (use assms in \<open>simp add: delete_rel_def\<close>)

lemma delete_set:
  assumes "distinct (map fst al)" "(k, x) \<in> set al"
  shows "set (AList.delete k al) = set al - {(k, x)}"
  using assms by (auto simp: AList.delete_eq dest: eq_key_imp_eq_value)

lemma delete_tree_inv:
  assumes ti: "tree_inv st L pk pv" and x: "x \<in> L" "x \<noteq> rc_root st" "kids st x = []" and par: "parent_ok st L pk pv p x"
    and dl: "delete_rel st st' p x"
  shows "tree_inv st' (L - {x}) pk pv"
proof -
  note t = tree_invD [OF ti]
  note d = deleteD [OF dl]
  have tx: "toks st x \<noteq> []" using t(8) [OF x(1,2)] by (simp add: node_ok_def)
  have pL: "p \<in> L" "p \<noteq> x" using par tx by (auto simp: parent_ok_def)
  define ck where "ck = ckey (ps st) (ext st x) (toks st x)"
  have dp: "distinct (map fst (kids st p))" using t(10) [OF pL(1)] by (simp add: kids_ok_def)
  have kp: "set (kids st' p) = set (kids st p) - {(ck, x)}"
    using delete_set [OF dp, of ck x] par by (simp add: d ck_def parent_ok_def)
  have sub: "set (kids st' n) \<subseteq> set (kids st n)" for n using kp by (cases "n = p") (auto simp: d)
  have nox: "c \<noteq> x" if "n \<in> L" "(k, c) \<in> set (kids st' n)" for n k c
  proof
    assume cx: "c = x"
    have "(k, x) \<in> set (kids st n)" using that sub cx by blast
    note k = kidD(3,4) [OF ti that(1) this]
    then have "n = p" "k = ck" using par by (auto simp: parent_ok_def ck_def)
    then show False using that(2) kp cx by auto
  qed
  have "\<exists>q. parent_ok st' (L - {x}) pk pv q c" if c: "c \<in> L" "c \<noteq> x" "c \<noteq> rc_root st" for c
  proof -
    from t(9) [OF c(1,3)] obtain q where q: "parent_ok st L pk pv q c" ..
    have "q \<noteq> x" using q x(3) by (auto simp: parent_ok_def)
    moreover have "(ckey (ps st) (ext st c) (toks st c), c) \<in> set (kids st' q)"
      using q kp c(2) by (cases "q = p") (auto simp: parent_ok_def d)
    ultimately have "parent_ok st' (L - {x}) pk pv q c" using q unfolding parent_ok_def by (simp add: d)
    then show ?thesis ..
  qed
  moreover have "kids_ok st' (L - {x}) n" if n: "n \<in> L" for n
  proof (rule kids_okI)
    show "distinct (map fst (kids st' n))" using t(10) [OF n] by (auto simp: kids_ok_def d distinct_delete)
    fix k c assume kc: "(k, c) \<in> set (kids st' n)"
    then have "(k, c) \<in> set (kids st n)" using sub by blast
    from kidD(1-4) [OF ti n this] nox [OF n kc]
    show "c \<in> L - {x} \<and> c \<noteq> rc_root st' \<and> n_parent (node st' c) = Some n \<and> k = ckey (ps st') (ext st' c) (toks st' c)"
      by (simp add: d)
  qed
  ultimately show ?thesis unfolding tree_inv_def using t(1-8) x(2) by (auto simp: d node_ok_def)
qed

lemma delete_inv:
  assumes inv: "radix_inv st L pk pv H" and x: "x \<in> L" "x \<noteq> rc_root st" "kids st x = []" "lock st x = 0"
    and par: "parent_ok st L pk pv p x" and dl: "delete_rel st st' p x"
  shows "radix_inv st' (L - {x}) pk pv H" "cache_slots st L = cache_slots st' (L - {x}) + mset (val st x)"
    "rc_evictable_leaves st' = rc_evictable_leaves st - {x} \<union> (if lock st p = 0 \<and> kids st' p = [] then {p} else {})"
proof -
  have ti: "tree_inv st L pk pv" and li: "lock_inv st L H" and si: "size_inv st L" and le: "leaf_inv st L"
    and hi: "hash_inv st L" using inv by (auto simp: radix_inv_def)
  note t = tree_invD [OF ti]
  note d = deleteD [OF dl]
  have tx: "toks st x \<noteq> []" using t(8) [OF x(1,2)] by (simp add: node_ok_def)
  have pL: "p \<in> L" "p \<noteq> x" using par tx by (auto simp: parent_ok_def)
  have fin: "finite L" using radix_finite_live [OF ti] .
  have dp: "distinct (map fst (kids st p))" using t(10) [OF pL(1)] by (simp add: kids_ok_def)
  define ck where "ck = ckey (ps st) (ext st x) (toks st x)"
  have lk: "map_of (kids st p) ck = Some x" using par kids_lookup [OF t(10) [OF pL(1)]] by (simp add: parent_ok_def ck_def)
  have sum: "(\<Sum>c\<leftarrow>map snd (kids st' n). lock st c) = (\<Sum>c\<leftarrow>map snd (kids st n). lock st c)" for n
    using alist_sum_delete [OF dp lk, of "lock st"] x(4) by (cases "n = p") (simp_all add: d ck_def)
  have "lock_ok st' H n \<longleftrightarrow> lock_ok st H n" for n unfolding lock_ok_def d(8) sum ..
  moreover have "x \<notin># H"
  proof -
    have "lock_ok st H x" using li x by (simp add: lock_inv_def)
    then have "int (count H x) = 0" using x(3,4) by (simp add: lock_ok_def)
    then show ?thesis by (simp add: count_eq_zero_iff)
  qed
  ultimately have 1: "lock_inv st' (L - {x}) H" using li by (auto simp: lock_inv_def d)
  have eq: "(\<Sum>n | n \<in> L \<and> n \<noteq> rc_root st \<and> lock st n = 0. int (length (toks st n)))
      = int (length (toks st x)) + (\<Sum>n | n \<in> L - {x} \<and> n \<noteq> rc_root st \<and> lock st n = 0. int (length (toks st n)))"
  proof -
    have "{n. n \<in> L - {x} \<and> n \<noteq> rc_root st \<and> lock st n = 0} = {n. n \<in> L \<and> n \<noteq> rc_root st \<and> lock st n = 0} - {x}" by auto
    then show ?thesis using fin x by (simp add: sum.remove [of _ x])
  qed
  have "{n. n \<in> L - {x} \<and> n \<noteq> rc_root st \<and> lock st n \<noteq> 0} = {n. n \<in> L \<and> n \<noteq> rc_root st \<and> lock st n \<noteq> 0}" using x(4) by auto
  then have 2: "size_inv st' (L - {x})" using si eq dl by (simp add: size_inv_def d delete_rel_def)
  have lp: "lock st p = 0 \<or> 0 < lock st p" "p = rc_root st \<Longrightarrow> lock st p = 1" using li pL by (auto simp: lock_inv_def lock_ok_def)
  have pk: "kids st p \<noteq> []" using par by (auto simp: parent_ok_def)
  then have pnl: "p \<notin> rc_evictable_leaves st" using le by (simp add: leaf_inv_def)
  then show 3: "rc_evictable_leaves st' = rc_evictable_leaves st - {x} \<union> (if lock st p = 0 \<and> kids st' p = [] then {p} else {})"
    using dl lp unfolding delete_rel_def by auto
  have "n \<in> rc_evictable_leaves st' \<longleftrightarrow> n \<in> L - {x} \<and> n \<noteq> rc_root st \<and> lock st n = 0 \<and> kids st' n = []" for n
  proof (cases "n = p")
    case True
    then show ?thesis unfolding 3 using pnl pL lp by auto
  next
    case False
    have "n \<in> rc_evictable_leaves st \<longleftrightarrow> n \<in> L \<and> n \<noteq> rc_root st \<and> lock st n = 0 \<and> kids st n = []"
      using le by (simp add: leaf_inv_def)
    then show ?thesis unfolding 3 using False d(4) [of n] by auto
  qed
  then have 4: "leaf_inv st' (L - {x})" unfolding leaf_inv_def d(1,8) by blast
  have 5: "hash_inv st' (L - {x})" using hi by (simp add: hash_inv_def hash_ok_def d)
  show "radix_inv st' (L - {x}) pk pv H"
    using delete_tree_inv [OF ti x(1-3) par dl] 1 2 4 5 by (simp add: radix_inv_def)
  show "cache_slots st L = cache_slots st' (L - {x}) + mset (val st x)"
    using fin x(1) by (simp add: cache_slots_def d sum.remove [of L x])
qed

section \<open>There is always an evictable leaf\<close>

lemma sum_list_member_le:
  fixes f :: "nat \<Rightarrow> int"
  assumes "\<And>x. x \<in> set xs \<Longrightarrow> 0 \<le> f x" "c \<in> set xs"
  shows "f c \<le> (\<Sum>x\<leftarrow>xs. f x)"
  using assms
proof (induction xs)
  case (Cons y ys)
  have "0 \<le> (\<Sum>x\<leftarrow>ys. f x)" using Cons.prems by (intro sum_list_nonneg_int) auto
  moreover have "0 \<le> f y" using Cons.prems(1) by simp
  moreover have "f c \<le> (\<Sum>x\<leftarrow>ys. f x)" if "c \<noteq> y" using Cons that by auto
  ultimately show ?case by (cases "c = y") auto
qed simp

lemma unlocked_kids:
  assumes "radix_inv st L pk pv H" "n \<in> L" "n \<noteq> rc_root st" "lock st n = 0" "c \<in> set (map snd (kids st n))"
  shows "lock st c = 0"
proof -
  have ti: "tree_inv st L pk pv" and li: "lock_inv st L H" using assms(1) by (auto simp: radix_inv_def)
  have nn: "0 \<le> lock st m" if "m \<in> set (map snd (kids st n))" for m
  proof -
    have "lock_ok st H m" using kidD(1,2) [OF ti assms(2)] that li by (auto simp: lock_inv_def)
    then show ?thesis by (simp add: lock_ok_def)
  qed
  have "lock_ok st H n" using li assms by (simp add: lock_inv_def)
  then have "(\<Sum>c\<leftarrow>map snd (kids st n). lock st c) \<le> 0" using assms(4) by (simp add: lock_ok_def)
  moreover have "lock st c \<le> (\<Sum>c\<leftarrow>map snd (kids st n). lock st c)" using sum_list_member_le [OF nn assms(5)] .
  ultimately show ?thesis using nn [OF assms(5)] by linarith
qed

lemma evictable_leaf_exists:
  assumes inv: "radix_inv st L pk pv H" and n: "n \<in> L" "n \<noteq> rc_root st" "lock st n = 0"
  shows "rc_evictable_leaves st \<noteq> {}"
proof -
  have ti: "tree_inv st L pk pv" and le: "leaf_inv st L" using inv by (auto simp: radix_inv_def)
  define U where "U = {m \<in> L. m \<noteq> rc_root st \<and> lock st m = 0}"
  have "finite U" "U \<noteq> {}" using radix_finite_live [OF ti] n by (auto simp: U_def)
  then have "Max ((\<lambda>k. length (pk k)) ` U) \<in> (\<lambda>k. length (pk k)) ` U" by (intro Max_in) auto
  then obtain m where m: "m \<in> U" "length (pk m) = Max ((\<lambda>k. length (pk k)) ` U)" by auto
  have mx: "length (pk k) \<le> length (pk m)" if "k \<in> U" for k
    unfolding m(2) using \<open>finite U\<close> that by (intro Max_ge) auto
  have "kids st m = []"
  proof (rule ccontr)
    assume "kids st m \<noteq> []"
    then obtain k c where kc: "(k, c) \<in> set (kids st m)" by (cases "kids st m") auto
    have mL: "m \<in> L" "m \<noteq> rc_root st" "lock st m = 0" using m(1) by (auto simp: U_def)
    note kd = kidD [OF ti mL(1) kc]
    have "lock st c = 0" using unlocked_kids [OF inv mL, of c] kc by force
    then have "c \<in> U" using kd by (simp add: U_def)
    moreover have "length (pk m) < length (pk c)"
      using kd(5) tree_invD(8) [OF ti kd(1,2)] by (auto simp: parent_ok_def node_ok_def)
    ultimately show False using mx [of c] by simp
  qed
  then have "m \<in> rc_evictable_leaves st" using m(1) le by (simp add: leaf_inv_def U_def)
  then show ?thesis by blast
qed

lemma no_leaf_no_size:
  assumes "radix_inv st L pk pv H" "rc_evictable_leaves st = {}"
  shows "rc_evictable_size st = 0"
proof -
  have "{n. n \<in> L \<and> n \<noteq> rc_root st \<and> lock st n = 0} = {}" using evictable_leaf_exists [OF assms(1)] assms(2) by auto
  then have "(\<Sum>n | n \<in> L \<and> n \<noteq> rc_root st \<and> lock st n = 0. int (length (toks st n))) = 0" by (simp only: sum.empty)
  then show ?thesis using assms(1) by (simp add: radix_inv_def size_inv_def)
qed

section \<open>The loop\<close>

lemma mset_set_take_out:
  assumes "A + mset vs = mset_set C" "finite C"
  shows "distinct vs \<and> set vs \<subseteq> C \<and> A = mset_set (C - set vs)"
proof -
  have "count (mset vs) a = (if a \<in> set vs then 1 else 0)" for a
  proof (cases "a \<in> set vs")
    case True
    have "count (mset vs) a \<le> count (mset_set C) a" unfolding assms(1) [symmetric] by simp
    also have "\<dots> \<le> 1" using assms(2) by (cases "a \<in> C") auto
    finally have "count (mset vs) a \<le> 1" .
    moreover have "0 < count (mset vs) a" using True by (simp add: count_greater_zero_iff del: count_mset)
    ultimately have "count (mset vs) a = 1" by linarith
    then show ?thesis using True by (simp del: count_mset)
  next
    case False
    then have "a \<notin># mset vs" by simp
    then have "count (mset vs) a = 0" by (simp only: not_in_iff)
    then show ?thesis using False by simp
  qed
  then have d: "distinct vs" unfolding distinct_count_atmost_1 by blast
  then have mv: "mset vs = mset_set (set vs)" by (simp add: mset_set_set)
  have sub: "set vs \<subseteq> C"
  proof
    fix a assume "a \<in> set vs"
    then have "a \<in># A + mset vs" by simp
    then show "a \<in> C" using assms by simp
  qed
  have "A = mset_set C - mset_set (set vs)" using assms(1) mv by (metis add_diff_cancel_right')
  also have "\<dots> = mset_set (C - set vs)" using mset_set_Diff [OF assms(2) sub] by simp
  finally show ?thesis using d sub by blast
qed

lemma push_parent_leaves:
  assumes "n_parent (node st x) = Some p" "mset (map snd heap) = mset_set S" "p \<notin> S" "finite S"
  shows "\<exists>heap'. push_parent st x heap = ret heap'
     \<and> mset (map snd heap') = mset_set (S \<union> (if lock st p = 0 \<and> kids st p = [] then {p} else {}))"
proof (cases "lock st p = 0 \<and> kids st p = []")
  case True
  have "mset (map snd (heappush (entry_lt (rc_nodes st)) heap (heap_entry st p))) = add_mset p (mset (map snd heap))"
    by (simp add: mset_map mset_heappush heap_entry_def)
  then show ?thesis using assms True by (auto simp: push_parent_def)
qed (use assms in \<open>auto simp: push_parent_def\<close>)

lemma record_remove_event_ok:
  assumes "rc_events st \<Longrightarrow> hash_ok st x" "0 < ps st" "x < length (rc_nodes st)" "ps st dvd length (toks st x)"
  shows "\<exists>st'. record_remove_event env st x = ret st' \<and> quiet st st'"
proof (cases "rc_events st")
  case True
  from node_hashes_set [OF assms(1) [OF True] assms(2-4), of env] obtain s1 hs where
    s1: "node_hashes env st x = ret (s1, hs)" "quiet st s1" "\<forall>h\<in>set hs. digest h" by blast
  have "\<forall>h\<in>set (take n hs). digest h" for n using s1(3) by (meson in_set_takeD)
  with removed_events_ok obtain es where
    "removed_events (take (length (pages (ps s1) (toks s1 x))) hs) = ret es" by blast
  then have "record_remove_event env st x = ret (s1\<lparr>rc_event_queue := rc_event_queue s1 @ es\<rparr>)"
    using True s1(1) by (simp add: record_remove_event_def)
  then show ?thesis using quiet_trans [OF s1(2) quiet_queue] by blast
qed (simp add: record_remove_event_def)

text \<open>What eviction leaves of the tree: some nodes, unchanged.\<close>

definition pruned :: "radix \<Rightarrow> nat set \<Rightarrow> radix \<Rightarrow> nat set \<Rightarrow> bool" where
  "pruned st L st' L' \<longleftrightarrow> config st' = config st \<and> L' \<subseteq> L \<and> (\<forall>n\<in>L. lock st n \<noteq> 0 \<longrightarrow> n \<in> L')
     \<and> rc_protected_size st' = rc_protected_size st
     \<and> (\<forall>n\<in>L'. n_key (node st' n) = n_key (node st n) \<and> n_value (node st' n) = n_value (node st n) \<and> lock st' n = lock st n)"

lemma pruned_refl: "pruned st L st L"
  by (simp add: pruned_def)

lemma pruned_trans:
  assumes "pruned st L st' L'" "pruned st' L' st'' L''"
  shows "pruned st L st'' L''"
  using assms unfolding pruned_def by (metis subset_iff)

lemma evict_one:
  assumes inv: "radix_inv st L pk pv H" and x: "x \<in> rc_evictable_leaves st"
    and heap: "mset (map snd heap) = mset_set (rc_evictable_leaves st - {x})"
  obtains st1 st2 heap' where "value_of (node st x) = ret (val st x)" "delete_leaf st x = ret st1"
    "push_parent st1 x heap = ret heap'" "record_remove_event env st1 x = ret st2"
    "radix_inv st2 (L - {x}) pk pv H" "pruned st L st2 (L - {x})"
    "cache_slots st L = cache_slots st2 (L - {x}) + mset (val st x)"
    "mset (map snd heap') = mset_set (rc_evictable_leaves st2)"
    "rc_evictable_size st2 = rc_evictable_size st - int (length (val st x))"
    "x \<in> L" "x \<noteq> rc_root st" "lock st x = 0"
proof -
  have ti: "tree_inv st L pk pv" and le: "leaf_inv st L" and hi: "hash_inv st L" using inv by (auto simp: radix_inv_def)
  have xL: "x \<in> L" "x \<noteq> rc_root st" "kids st x = []" "lock st x = 0" using x le by (auto simp: leaf_inv_def)
  note t = tree_invD [OF ti]
  from t(9) [OF xL(1,2)] obtain p where par: "parent_ok st L pk pv p x" ..
  have xo: "ps st dvd length (toks st x)" "n_value (node st x) = Some (val st x)" "length (val st x) = length (toks st x)"
    using t(8) [OF xL(1,2)] by (auto simp: node_ok_def)
  from delete_leaf_eq [OF ti xL(1,2) par] obtain st1 where st1: "delete_leaf st x = ret st1" "delete_rel st st1 p x" by blast
  note d = deleteD [OF st1(2)]
  note di = delete_inv [OF inv xL par st1(2)]
  have fin: "finite (rc_evictable_leaves st - {x})" using le radix_finite_live [OF ti] by (simp add: leaf_inv_def)
  have "kids st p \<noteq> []" using par by (auto simp: parent_ok_def)
  then have pn: "p \<notin> rc_evictable_leaves st - {x}" using le by (simp add: leaf_inv_def)
  have np: "n_parent (node st1 x) = Some p" using par by (simp add: d parent_ok_def)
  from push_parent_leaves [OF np heap pn fin] obtain heap' where hp: "push_parent st1 x heap = ret heap'"
    "mset (map snd heap') = mset_set (rc_evictable_leaves st1)" unfolding di(3) by (auto simp: d)
  have "\<exists>st2. record_remove_event env st1 x = ret st2 \<and> quiet st1 st2"
    by (rule record_remove_event_ok)
      (use hi xL(1) t(1) t(3) [OF xL(1)] xo(1) in \<open>auto simp: d hash_inv_def hash_ok_def\<close>)
  then obtain st2 where st2: "record_remove_event env st1 x = ret st2" "quiet st1 st2" by blast
  note q = quietD [OF st2(2)]
  have lt: "n < length (rc_nodes st1)" if "n \<in> L" for n using t(3) [OF that] by (simp add: d)
  have "config st2 = config st" using st2(2) st1(2) by (simp add: quiet_def delete_rel_def)
  moreover have "n_key (node st2 n) = n_key (node st n) \<and> n_value (node st2 n) = n_value (node st n) \<and> lock st2 n = lock st n"
    if "n \<in> L" for n using lt [OF that] by (simp add: q d)
  moreover have "rc_protected_size st2 = rc_protected_size st" using st1(2) by (simp add: q delete_rel_def)
  ultimately have pr: "pruned st L st2 (L - {x})" using xL(4) by (auto simp: pruned_def)
  have "cache_slots st2 (L - {x}) = cache_slots st1 (L - {x})"
    unfolding cache_slots_def using lt by (intro sum.cong) (auto simp: q)
  then have cs: "cache_slots st L = cache_slots st2 (L - {x}) + mset (val st x)" using di(2) by simp
  have "rc_evictable_size st2 = rc_evictable_size st - int (length (val st x))"
    using st1(2) xo(3) by (simp add: q delete_rel_def)
  with that [OF value_ofI [OF xo(2)] st1(1) hp(1) st2(1) quiet_radix_inv [OF st2(2) di(1)] pr cs] hp(2) xL
  show thesis by (simp add: q)
qed

text \<open>The iteration order of a Python set: every element, once.\<close>

definition order_ok :: "rt_env \<Rightarrow> bool" where
  "order_ok env \<longleftrightarrow> (\<forall>S. finite S \<longrightarrow> set (set_order env S) = S \<and> distinct (set_order env S))"

context slot_allocator
begin

text \<open>
  \<open>holds al st L C R\<close>: the tree holds exactly the slots \<open>C\<close>, each once; together with the slots \<open>R\<close> of the
  running requests they are what the allocator has handed out.
\<close>

definition holds :: "'s \<Rightarrow> radix \<Rightarrow> nat set \<Rightarrow> slot set \<Rightarrow> slot set \<Rightarrow> bool" where
  "holds al st L C R \<longleftrightarrow> cache_slots st L = mset_set C \<and> inv al (C \<union> R) \<and> C \<inter> R = {}"

lemma holds_finite: "holds al st L C R \<Longrightarrow> finite C"
  using inv_finite by (auto simp: holds_def)

lemma evict_loop_spec:
  assumes ri: "radix_inv st L pk pv H" and ho: "holds al st L C R"
    and heap: "mset (map snd heap) = mset_set (rc_evictable_leaves st)"
  shows "\<exists>st' al' num' L' C'. evict_loop env free num_tokens st al heap num = ret (st', al', num')
    \<and> radix_inv st' L' pk pv H \<and> pruned st L st' L' \<and> holds al' st' L' C' R \<and> C' \<subseteq> C
    \<and> num' + card C' = num + card C \<and> avail al' + int num = avail al + int num'
    \<and> rc_evictable_size st' + int num' = rc_evictable_size st + int num
    \<and> (num_tokens \<le> int num' \<or> rc_evictable_size st' = 0)"
  using assms
proof (induction "card L" arbitrary: st al heap num L C rule: less_induct)
  case less
  note ri = less.prems(1) and ho = less.prems(2)
  have le: "leaf_inv st L" and ti: "tree_inv st L pk pv" using ri by (auto simp: radix_inv_def)
  show ?case
  proof (cases "int num < num_tokens \<and> heap \<noteq> []")
    case False
    have "rc_evictable_size st = 0" if "heap = []"
    proof -
      have "finite (rc_evictable_leaves st)" using le radix_finite_live [OF ti] by (simp add: leaf_inv_def)
      then show ?thesis using no_leaf_no_size [OF ri] less.prems(3) that by (simp add: mset_set_empty_iff)
    qed
    moreover have "evict_loop env free num_tokens st al heap num = ret (st, al, num)"
      by (subst evict_loop.simps) (use False in auto)
    ultimately show ?thesis using False ri ho pruned_refl
      by (intro exI [of _ st] exI [of _ al] exI [of _ num] exI [of _ L] exI [of _ C]) auto
  next
    case True
    obtain e heap1 where pop: "heappop (entry_lt (rc_nodes st)) heap = (e, heap1)"
      by (cases "heappop (entry_lt (rc_nodes st)) heap") blast
    define x where "x = snd e"
    from mset_heappop [OF _ pop] True have "mset (map snd heap) = add_mset x (mset (map snd heap1))"
      by (simp add: x_def mset_map)
    then have mx: "mset_set (rc_evictable_leaves st) = add_mset x (mset (map snd heap1))" using less.prems(3) by simp
    then have "x \<in># mset_set (rc_evictable_leaves st)" by simp
    moreover have fin: "finite (rc_evictable_leaves st)" using le radix_finite_live [OF ti] by (simp add: leaf_inv_def)
    ultimately have xl: "x \<in> rc_evictable_leaves st" by simp
    have h1: "mset (map snd heap1) = mset_set (rc_evictable_leaves st - {x})"
      using mx fin xl by (simp add: mset_set.remove [of _ x])
    from evict_one [OF ri xl h1, of env] obtain st1 st2 heap2 where
      o: "value_of (node st x) = ret (val st x)" "delete_leaf st x = ret st1"
        "push_parent st1 x heap1 = ret heap2" "record_remove_event env st1 x = ret st2"
        "radix_inv st2 (L - {x}) pk pv H" "pruned st L st2 (L - {x})"
        "cache_slots st L = cache_slots st2 (L - {x}) + mset (val st x)"
        "mset (map snd heap2) = mset_set (rc_evictable_leaves st2)"
        "rc_evictable_size st2 = rc_evictable_size st - int (length (val st x))" "x \<in> L" by metis
    have fC: "finite C" using holds_finite [OF ho] .
    from mset_set_take_out [OF _ fC, of "cache_slots st2 (L - {x})" "val st x"] o(7) ho
    have v: "distinct (val st x)" "set (val st x) \<subseteq> C" "cache_slots st2 (L - {x}) = mset_set (C - set (val st x))"
      by (auto simp: holds_def)
    have al: "inv al (C \<union> R)" "set (val st x) \<subseteq> C \<union> R" using ho v(2) by (auto simp: holds_def)
    from free_live [OF al(1) v(1) al(2)] obtain al1 where
      al1: "free al (val st x) = Inr al1" "inv al1 (C \<union> R - set (val st x))" "avail al1 = avail al + int (length (val st x))" by blast
    have "C \<union> R - set (val st x) = (C - set (val st x)) \<union> R" using ho v(2) by (auto simp: holds_def)
    then have ho1: "holds al1 st2 (L - {x}) (C - set (val st x)) R" using al1(2) v(3) ho by (auto simp: holds_def)
    have lt: "card (L - {x}) < card L" using card_Diff1_less [OF radix_finite_live [OF ti] o(10)] .
    from less.hyps [OF lt o(5) ho1 o(8), of "num + length (val st x)"] obtain st' al' num' L' C' where
      i: "evict_loop env free num_tokens st2 al1 heap2 (num + length (val st x)) = ret (st', al', num')"
        "radix_inv st' L' pk pv H" "pruned st2 (L - {x}) st' L'" "holds al' st' L' C' R" "C' \<subseteq> C - set (val st x)"
        "num' + card C' = num + length (val st x) + card (C - set (val st x))"
        "avail al' + int (num + length (val st x)) = avail al1 + int num'"
        "rc_evictable_size st' + int num' = rc_evictable_size st2 + int (num + length (val st x))"
        "num_tokens \<le> int num' \<or> rc_evictable_size st' = 0" by blast
    have "evict_loop env free num_tokens st al heap num = ret (st', al', num')"
      by (subst evict_loop.simps) (use True pop o(1-4) al1(1) i(1) in \<open>simp add: x_def Let_def\<close>)
    moreover have "card C = length (val st x) + card (C - set (val st x))"
      using card_Diff_subset [OF finite_set v(2)] card_mono [OF fC v(2)] distinct_card [OF v(1)] by simp
    moreover have "pruned st L st' L'" using pruned_trans [OF o(6) i(3)] .
    ultimately show ?thesis using i(2,4-9) al1(3) o(9)
      by (intro exI [of _ st'] exI [of _ al'] exI [of _ num'] exI [of _ L'] exI [of _ C']) auto
  qed
qed

lemma rc_evict_spec:
  assumes ri: "radix_inv st L pk pv H" and ho: "holds al st L C R" and en: "\<not> rc_disable st" and od: "order_ok env"
  shows "\<exists>st' al' num L' C'. rc_evict env free st al num_tokens = ret (st', al', num)
    \<and> radix_inv st' L' pk pv H \<and> pruned st L st' L' \<and> holds al' st' L' C' R \<and> C' \<subseteq> C
    \<and> num + card C' = card C \<and> avail al' = avail al + int num
    \<and> rc_evictable_size st' + int num = rc_evictable_size st
    \<and> (num_tokens \<le> int num \<or> rc_evictable_size st' = 0)"
proof -
  define heap where "heap = heapify (entry_lt (rc_nodes st)) (map (heap_entry st) (set_order env (rc_evictable_leaves st)))"
  have "finite (rc_evictable_leaves st)"
    using ri radix_finite_live [of st L pk pv] by (simp add: radix_inv_def leaf_inv_def)
  then have "set (set_order env (rc_evictable_leaves st)) = rc_evictable_leaves st" "distinct (set_order env (rc_evictable_leaves st))"
    using od by (auto simp: order_ok_def)
  then have "mset (set_order env (rc_evictable_leaves st)) = mset_set (rc_evictable_leaves st)" by (metis mset_set_set)
  moreover have "mset (map snd heap) = mset (set_order env (rc_evictable_leaves st))"
    by (simp add: heap_def mset_map mset_heapify heap_entry_def image_mset.compositionality comp_def)
  ultimately have "mset (map snd heap) = mset_set (rc_evictable_leaves st)" by simp
  from evict_loop_spec [OF ri ho this, of env num_tokens 0] en show ?thesis
    by (simp add: rc_evict_def heap_def [symmetric])
qed

end

end
