(* ===== verification/Req_Pool.thy ===== *)
theory Req_Pool
  imports Radix_Node
begin

text \<open>
  The part of \<open>Req\<close> (\<open>srt/managers/schedule_batch.py\<close>) that the KV cache code uses, and \<open>ReqToTokenPool\<close>
  (\<open>srt/mem_cache/memory_pool.py\<close>): the table from requests to token slots and its row allocator.
\<close>

section \<open>Requests\<close>

record req =
  origin_input_ids :: "int list"
  output_ids :: "int list"
  fill_ids :: "int list"
  r_extra_key :: "string option"
  r_priority :: "int option"
  req_pool_idx :: "nat option"
  prefix_indices :: "slot list"
  last_node :: "nat option"
  cache_protected_len :: nat
  kv_committed_len :: nat
  kv_allocated_len :: nat
  kv_committed_freed :: bool
  kv_overallocated_freed :: bool
  is_chunked :: int
  triaxial_bits :: "nat list option"

definition pop_committed_kv_cache :: "'z req_scheme \<Rightarrow> (nat \<times> 'z req_scheme) res" where
  "pop_committed_kv_cache r =
     (if kv_committed_freed r then raise AssertionError
      else ret (kv_committed_len r, r\<lparr>kv_committed_freed := True\<rparr>))"

definition pop_overallocated_kv_cache :: "'z req_scheme \<Rightarrow> (nat \<times> nat \<times> 'z req_scheme) res" where
  "pop_overallocated_kv_cache r =
     (if kv_overallocated_freed r then raise AssertionError
      else ret (kv_committed_len r, kv_allocated_len r, r\<lparr>kv_overallocated_freed := True\<rparr>))"

section \<open>The table\<close>

record req_pool =
  rp_size :: nat
  max_context_len :: nat
  req_to_token :: "slot list list"
  free_slots :: "nat list"

definition rp_init :: "nat \<Rightarrow> nat \<Rightarrow> req_pool" where
  "rp_init sz max_len =
     \<lparr>rp_size = sz, max_context_len = max_len, req_to_token = replicate sz (replicate max_len 0),
      free_slots = [0..<sz]\<rparr>"

text \<open>
  \<open>write((i, slice(a, b)), values)\<close>: the slice is clipped to the row; a tensor of another length is
  refused unless it has one element, which is broadcast.
\<close>

definition rp_write_slice :: "req_pool \<Rightarrow> nat \<Rightarrow> nat \<Rightarrow> nat \<Rightarrow> slot list \<Rightarrow> req_pool res" where
  "rp_write_slice p i a b vals =
     (if i \<ge> length (req_to_token p) then raise IndexError
      else let row = req_to_token p ! i; n = min b (length row) - a in
        if n = length vals then ret (p\<lparr>req_to_token := (req_to_token p)[i := set_slice row a vals]\<rparr>)
        else if length vals = 1
        then ret (p\<lparr>req_to_token := (req_to_token p)[i := set_slice row a (replicate n (hd vals))]\<rparr>)
        else raise RuntimeError)"

text \<open>\<open>write((rows, cols), values)\<close> with index tensors of the same length\<close>

fun write_cells :: "slot list list \<Rightarrow> nat list \<Rightarrow> nat list \<Rightarrow> slot list \<Rightarrow> slot list list res" where
  "write_cells m (i # is) (j # js) (v # vs) =
     (if i < length m \<and> j < length (m ! i) then write_cells (m[i := (m ! i)[j := v]]) is js vs
      else raise IndexError)"
| "write_cells m [] [] [] = ret m"
| "write_cells m _ _ _ = raise RuntimeError"

definition rp_write_cells :: "req_pool \<Rightarrow> nat list \<Rightarrow> nat list \<Rightarrow> slot list \<Rightarrow> req_pool res" where
  "rp_write_cells p rows cols vals =
     rbind (write_cells (req_to_token p) rows cols vals) (\<lambda>m. ret (p\<lparr>req_to_token := m\<rparr>))"

text \<open>\<open>req_to_token[req.req_pool_idx, :n]\<close>\<close>

definition rp_read :: "req_pool \<Rightarrow> nat option \<Rightarrow> nat \<Rightarrow> slot list res" where
  "rp_read p i n =
     (case i of None \<Rightarrow> raise TypeError
      | Some i \<Rightarrow> if i \<ge> length (req_to_token p) then raise IndexError else ret (take n (req_to_token p ! i)))"

definition rp_available_size :: "req_pool \<Rightarrow> nat" where
  "rp_available_size p = length (free_slots p)"

fun assign_rows :: "'z req_scheme list \<Rightarrow> nat list \<Rightarrow> 'z req_scheme list" where
  "assign_rows [] sel = []"
| "assign_rows (r # rs) sel =
     (case req_pool_idx r of
        None \<Rightarrow> r\<lparr>req_pool_idx := Some (hd sel)\<rparr> # assign_rows rs (tl sel)
      | Some _ \<Rightarrow> r # assign_rows rs sel)"

definition rp_alloc :: "req_pool \<Rightarrow> 'z req_scheme list \<Rightarrow> (nat list option \<times> req_pool \<times> 'z req_scheme list) res" where
  "rp_alloc p reqs =
     (let reusing = filter (\<lambda>r. req_pool_idx r \<noteq> None) reqs in
      if \<not> list_all (\<lambda>r. is_chunked r > 0 \<or> kv_committed_len r > 0) reusing then raise AssertionError
      else let need_size = length reqs - length reusing in
        if need_size > length (free_slots p) then ret (None, p, reqs)
        else let reqs = assign_rows reqs (take need_size (free_slots p)) in
          ret (Some (map (\<lambda>r. the (req_pool_idx r)) reqs),
               p\<lparr>free_slots := drop need_size (free_slots p)\<rparr>, reqs))"

definition rp_free :: "req_pool \<Rightarrow> 'z req_scheme \<Rightarrow> (req_pool \<times> 'z req_scheme) res" where
  "rp_free p r =
     (case req_pool_idx r of None \<Rightarrow> raise AssertionError
      | Some i \<Rightarrow> ret (p\<lparr>free_slots := free_slots p @ [i]\<rparr>, r\<lparr>req_pool_idx := None\<rparr>))"

definition rp_clear :: "req_pool \<Rightarrow> req_pool" where
  "rp_clear p = p\<lparr>free_slots := [0..<rp_size p]\<rparr>"

section \<open>Rows are handed out once\<close>

text \<open>\<open>rp_inv p used\<close>: \<open>used\<close> are the rows of running requests, the rest is free.\<close>

definition rp_inv :: "req_pool \<Rightarrow> nat set \<Rightarrow> bool" where
  "rp_inv p used \<longleftrightarrow> distinct (free_slots p) \<and> set (free_slots p) \<inter> used = {}
     \<and> set (free_slots p) \<union> used = {..<rp_size p} \<and> length (req_to_token p) = rp_size p"

lemma rp_init_inv: "rp_inv (rp_init sz max_len) {}"
  by (auto simp: rp_inv_def rp_init_def)

lemma assign_rows_spec:
  assumes "length sel = length (filter (\<lambda>r. req_pool_idx r = None) rs)"
  shows "list_all (\<lambda>r. req_pool_idx r \<noteq> None) (assign_rows rs sel)"
    and "length (assign_rows rs sel) = length rs"
    and "mset (map (\<lambda>r. the (req_pool_idx r)) (assign_rows rs sel))
         = mset sel + mset (map (\<lambda>r. the (req_pool_idx r)) (filter (\<lambda>r. req_pool_idx r \<noteq> None) rs))"
    and "i < length rs \<Longrightarrow> (assign_rows rs sel ! i)\<lparr>req_pool_idx := req_pool_idx (rs ! i)\<rparr> = rs ! i"
  using assms
proof (induction rs sel arbitrary: i rule: assign_rows.induct)
  case (2 r rs sel)
  {
    case 1
    show ?case using 1 2 by (cases sel) (auto split: option.splits)
  next
    case 2
    show ?case using 2 "2.IH" by (cases sel) (auto split: option.splits)
  next
    case 3
    show ?case using 3 "2.IH" by (cases sel) (auto split: option.splits)
  next
    case 4
    show ?case using 4 "2.IH" by (cases sel; cases i) (auto split: option.splits)
  }
qed simp_all

lemma need_size_eq:
  "length reqs - length (filter (\<lambda>r. req_pool_idx r \<noteq> None) reqs) = length (filter (\<lambda>r. req_pool_idx r = None) reqs)"
  using sum_length_filter_compl [of "\<lambda>r. req_pool_idx r = None" reqs] by simp

lemma rp_alloc_inv:
  assumes inv: "rp_inv p used" and own: "set (map (\<lambda>r. the (req_pool_idx r)) (filter (\<lambda>r. req_pool_idx r \<noteq> None) reqs)) \<subseteq> used"
    and dist: "distinct (map (\<lambda>r. the (req_pool_idx r)) (filter (\<lambda>r. req_pool_idx r \<noteq> None) reqs))"
    and al: "rp_alloc p reqs = ret (Some rows, p', reqs')"
  shows "length rows = length reqs \<and> distinct rows \<and> rp_inv p' (used \<union> set rows)
     \<and> map req_pool_idx reqs' = map Some rows \<and> length reqs' = length reqs"
proof -
  define sel where "sel = take (length (filter (\<lambda>r. req_pool_idx r = None) reqs)) (free_slots p)"
  define old where "old = map (\<lambda>r. the (req_pool_idx r)) (filter (\<lambda>r. req_pool_idx r \<noteq> None) reqs)"
  let ?n = "length (filter (\<lambda>r. req_pool_idx r = None) reqs)"
  from al have n: "?n \<le> length (free_slots p)" and r': "reqs' = assign_rows reqs sel"
    and rows: "rows = map (\<lambda>r. the (req_pool_idx r)) reqs'" and p': "p' = p\<lparr>free_slots := drop ?n (free_slots p)\<rparr>"
    unfolding rp_alloc_def need_size_eq Let_def sel_def by (auto split: if_splits)
  have ls: "length sel = ?n" using n by (simp add: sel_def)
  note a = assign_rows_spec [OF ls]
  have m: "mset rows = mset sel + mset old" using a(3) by (simp add: rows r' old_def)
  have sp: "set (free_slots p) = set sel \<union> set (drop ?n (free_slots p))" "distinct (sel @ drop ?n (free_slots p))"
    using inv unfolding sel_def rp_inv_def by (metis append_take_drop_id set_append)+
  have "distinct sel" "set sel \<inter> used = {}" using sp inv by (auto simp: rp_inv_def)
  then have "distinct (sel @ old)" using dist own by (auto simp: old_def)
  then have "distinct rows" using m by (metis mset_append mset_eq_imp_distinct_iff)
  moreover have sr: "set rows = set sel \<union> set old" using m by (metis set_mset_mset set_mset_union)
  then have "used \<union> set rows = used \<union> set sel" using own by (auto simp: old_def)
  then have "rp_inv p' (used \<union> set rows)" using inv sp by (auto simp: rp_inv_def p')
  moreover have "map req_pool_idx reqs' = map Some rows"
    using a(1) by (auto simp: rows r' list_all_iff)
  ultimately show ?thesis using a(2) rows r' by simp
qed

lemma rp_free_inv:
  assumes "rp_inv p used" "req_pool_idx r = Some i" "i \<in> used"
  shows "\<exists>p' r'. rp_free p r = ret (p', r') \<and> rp_inv p' (used - {i}) \<and> req_pool_idx r' = None"
  using assms by (auto simp: rp_free_def rp_inv_def)

end
