(* ===== verification/Radix_Req.thy ===== *)
theory Radix_Req
  imports Radix_Evict Req_Pool
begin

text \<open>
  The request-level methods of \<open>RadixCache\<close>, \<open>cache_finished_req\<close> and \<open>cache_unfinished_req\<close>, and of
  \<open>ChunkCache\<close> (\<open>srt/mem_cache/chunk_cache.py\<close>), and how they move slots between the running request, the
  tree and the allocator.
\<close>

section \<open>The methods\<close>

definition tok_keys :: "radix \<Rightarrow> int list \<Rightarrow> tok list" where
  "tok_keys st ids =
     page_align_keys (if rc_is_eagle st then convert_to_bigram_key (map Tok ids) else map Tok ids) (rc_page_size st)"

definition req_prio :: "'z req_scheme \<Rightarrow> int option" where
  "req_prio r = Some (case r_priority r of None \<Rightarrow> 0 | Some p \<Rightarrow> p)"

text \<open>\<open>self.dec_lock_ref(req.last_node)\<close>\<close>

definition dec_lock_opt :: "radix \<Rightarrow> nat option \<Rightarrow> radix res" where
  "dec_lock_opt st n =
     (case n of None \<Rightarrow> if rc_disable st then ret st else raise AttributeError
      | Some i \<Rightarrow> rbind (dec_lock_ref st i) (\<lambda>(st, _). ret st))"

definition cache_finished_req ::
  "rt_env \<Rightarrow> ('a \<Rightarrow> slot list \<Rightarrow> err + 'a) \<Rightarrow> radix \<Rightarrow> 'a \<Rightarrow> req_pool \<Rightarrow> 'z req_scheme \<Rightarrow> bool \<Rightarrow> (radix \<times> 'a \<times> 'z req_scheme) res" where
  "cache_finished_req env free st al pool r is_insert =
     (let is_insert = (if rc_disable_finished_insert st then False else is_insert) in
      rbind (pop_committed_kv_cache r) (\<lambda>(n, r).
      if rc_disable st
      then rbind (rp_read pool (req_pool_idx r) n) (\<lambda>kv.
           rbind (lift_err (free al kv)) (\<lambda>al. ret (st, al, r)))
      else let ids = take n (origin_input_ids r @ output_ids r) in
        rbind (rp_read pool (req_pool_idx r) (length ids)) (\<lambda>kv.
        let keys = tok_keys st ids;
            vals = take (length keys) kv;
            radix_key = RadixKey keys (r_extra_key r) (rc_is_eagle st)
        in rbind (if is_insert
             then rbind (rc_insert env st radix_key (Some vals) (req_prio r) False) (\<lambda>(st, plen).
                  rbind (lift_err (free al (slice kv (cache_protected_len r) plen))) (\<lambda>al. ret (st, al)))
             else rbind (lift_err (free al (slice kv (cache_protected_len r) (length keys)))) (\<lambda>al. ret (st, al)))
           (\<lambda>(st, al).
           rbind (lift_err (free al (drop (length keys) kv))) (\<lambda>al.
           rbind (dec_lock_opt st (last_node r)) (\<lambda>st. ret (st, al, r)))))))"

definition cache_unfinished_req ::
  "rt_env \<Rightarrow> ('a \<Rightarrow> slot list \<Rightarrow> err + 'a) \<Rightarrow> radix \<Rightarrow> 'a \<Rightarrow> req_pool \<Rightarrow> 'z req_scheme \<Rightarrow> bool
   \<Rightarrow> (radix \<times> 'a \<times> req_pool \<times> 'z req_scheme) res" where
  "cache_unfinished_req env free st al pool r chunked =
     (if rc_disable st then ret (st, al, pool, r)
      else let ids = fill_ids r in
        rbind (rp_read pool (req_pool_idx r) (length ids)) (\<lambda>kv.
        let keys = tok_keys st ids;
            vals = take (length keys) kv;
            radix_key = RadixKey keys (r_extra_key r) (rc_is_eagle st)
        in rbind (rc_insert env st radix_key (Some vals) (req_prio r) chunked) (\<lambda>(st, plen).
           rbind (lift_err (free al (slice kv (cache_protected_len r) plen))) (\<lambda>al.
           rbind (match_prefix env st radix_key) (\<lambda>(st, new_indices, new_last).
           if length new_indices \<noteq> length keys then raise AssertionError
           else rbind (rp_write_slice pool (the (req_pool_idx r)) (cache_protected_len r) (length new_indices)
                         (drop (cache_protected_len r) new_indices)) (\<lambda>pool.
           let r0 = r\<lparr>cache_protected_len := length new_indices\<rparr> in
           rbind (dec_lock_opt st (last_node r)) (\<lambda>st.
           rbind (inc_lock_ref st new_last) (\<lambda>(st, _).
           let r1 = r0\<lparr>prefix_indices := (if length new_indices < length kv
                          then new_indices @ drop (length new_indices) kv else new_indices),
                       last_node := Some new_last\<rparr>
           in ret (st, al, pool, r1)))))))))"

text \<open>\<open>ChunkCache\<close>: no tree; a finished request gives its slots back.\<close>

definition chunk_cache_finished_req ::
  "('a \<Rightarrow> slot list \<Rightarrow> err + 'a) \<Rightarrow> 'a \<Rightarrow> req_pool \<Rightarrow> 'z req_scheme \<Rightarrow> ('a \<times> 'z req_scheme) res" where
  "chunk_cache_finished_req free al pool r =
     rbind (pop_committed_kv_cache r) (\<lambda>(n, r).
     rbind (rp_read pool (req_pool_idx r) n) (\<lambda>kv.
     rbind (lift_err (free al kv)) (\<lambda>al. ret (al, r))))"

definition chunk_cache_unfinished_req :: "req_pool \<Rightarrow> 'z req_scheme \<Rightarrow> 'z req_scheme res" where
  "chunk_cache_unfinished_req pool r =
     rbind (rp_read pool (req_pool_idx r) (length (fill_ids r))) (\<lambda>kv. ret (r\<lparr>prefix_indices := kv\<rparr>))"

section \<open>What a running request holds\<close>

text \<open>
  The first \<open>cache_protected_len\<close> slots of a running request are those of its node in the tree, which it has
  locked; the others, \<open>drop p kv\<close>, are its own.
\<close>

definition req_view :: "radix \<Rightarrow> req_pool \<Rightarrow> 'z req_scheme \<Rightarrow> int list \<Rightarrow> slot list \<Rightarrow> nat \<Rightarrow> bool" where
  "req_view st pool r ids kv n \<longleftrightarrow>
     (\<exists>i. req_pool_idx r = Some i \<and> i < length (req_to_token pool) \<and> length ids \<le> length (req_to_token pool ! i)
        \<and> kv = take (length ids) (req_to_token pool ! i))
     \<and> last_node r = Some n \<and> cache_protected_len r \<le> length (tok_keys st ids)
     \<and> tpath st n (take (cache_protected_len r) (tok_keys st ids)) (take (cache_protected_len r) kv)
     \<and> (n = rc_root st \<or> ext st n = r_extra_key r)"

lemma tok_keys_length: "length (tok_keys st ids) \<le> length ids"
proof -
  have "length (bigrams ts) \<le> length ts" for ts by (induction ts rule: bigrams.induct) auto
  then have "length (convert_to_bigram_key (map Tok ids)) \<le> length ids"
    by (auto simp: convert_to_bigram_key_def split: list.splits tok.splits) (metis length_Cons length_map)+
  then have "length (if rc_is_eagle st then convert_to_bigram_key (map Tok ids) else map Tok ids) \<le> length ids" by simp
  moreover have "length (page_align_keys ts q) \<le> length ts" for ts :: "tok list" and q by (auto simp: page_align_keys_def)
  ultimately show ?thesis unfolding tok_keys_def using order_trans by blast
qed

lemma page_align_idem: "page_align_keys (page_align_keys xs q) q = page_align_keys xs q"
proof (cases "q = 0")
  case False
  have "length xs div q * q \<le> length xs" by (rule div_times_less_eq_dividend)
  then show ?thesis using False by (auto simp: page_align_keys_def min_absorb2)
qed (simp add: page_align_keys_def)

lemma radix_key_convert:
  "maybe_bigram_convert (rc_is_eagle st) (RadixKey keys e (rc_is_eagle st)) v = (RadixKey keys e (rc_is_eagle st), v)"
  by (simp add: maybe_bigram_convert_def RadixKey_def)

lemma radix_key_fields [simp]:
  "token_ids (RadixKey keys e b) = keys" "extra_key (RadixKey keys e b) = e" "key_len (RadixKey keys e b) = length keys"
  by (simp_all add: RadixKey_def key_len_def)

lemma lookup_key_tok_keys:
  "lookup_key st (RadixKey (tok_keys st ids) e (rc_is_eagle st)) = tok_keys st ids"
  by (simp add: lookup_key_def radix_key_convert tok_keys_def page_align_idem)

lemma tpath_cached:
  "tpath st n k v \<Longrightarrow> length v = length k \<Longrightarrow> n = rc_root st \<or> ext st n = e \<Longrightarrow> cached st e k v"
  unfolding cached_def by (intro exI [of _ n] exI [of _ k] exI [of _ v]) auto

lemma same_tree_slots: "same_tree st st' \<Longrightarrow> cache_slots st' L = cache_slots st L"
  by (simp add: cache_slots_def same_tree_def)

context slot_allocator
begin

text \<open>Inserting the keys of a request moves its own slots beyond the cached prefix into the tree.\<close>

lemma insert_request:
  assumes ri: "radix_inv st L pk pv H" and ho: "holds al st L C R" and en: "\<not> rc_disable st"
    and view: "req_view st pool r ids kv n" and own: "distinct (drop (cache_protected_len r) kv)" "set (drop (cache_protected_len r) kv) \<subseteq> R"
    and hs: "hashable env st (tok_keys st ids)"
  defines "K \<equiv> tok_keys st ids" and "p \<equiv> cache_protected_len r"
  shows "\<exists>st' plen old L' pk' pv' al'. rc_insert env st (RadixKey K (r_extra_key r) (rc_is_eagle st)) (Some (take (length K) kv)) prio chunked
        = ret (st', plen)
    \<and> free al (slice kv p plen) = Inr al' \<and> avail al' = avail al + int (plen - p)
    \<and> radix_inv st' L' pk' pv' H \<and> config st' = config st
    \<and> holds al' st' L' (C \<union> set (slice kv plen (length K))) (R - set (slice kv p (length K)))
    \<and> p \<le> plen \<and> plen \<le> length K \<and> length old = plen \<and> take p old = take p kv
    \<and> cached st' (r_extra_key r) K (old @ slice kv plen (length K))
    \<and> (\<forall>e ts ws. cached st e ts ws \<longrightarrow> cached st' e ts ws)"
proof -
  let ?e = "r_extra_key r" and ?w = "take (length K) kv"
  have ti: "tree_inv st L pk pv" using ri by (simp add: radix_inv_def)
  have psp: "0 < ps st" using tree_invD(1) [OF ti] .
  have lk: "length kv = length ids" using view by (auto simp: req_view_def)
  have Kl: "length K \<le> length kv" using tok_keys_length lk by (simp add: K_def)
  have al: "ps st dvd length K" unfolding K_def tok_keys_def by (rule page_align_dvd [OF psp])
  have w: "length ?w = length K" using Kl by simp
  have pK: "p \<le> length K" and tp: "tpath st n (take p K) (take p kv)" "n = rc_root st \<or> ext st n = ?e"
    using view by (auto simp: req_view_def K_def p_def)
  have c: "cached st ?e (take p K) (take p kv)"
    using tpath_cached [OF tp(1) _ tp(2)] pK Kl by simp
  have "n \<in> L" "pk n = take p K" using tp(1) tpath_iff [OF ti] by auto
  then have dp: "ps st dvd p" using path_lengths [OF ti, of n] pK by simp
  have hk: "hashable env st K" using hs by (simp add: K_def)
  from rc_insert_spec [OF ri en radix_key_convert [of st K ?e "Some ?w"], where env = env and prio = prio and chunked = chunked,
      unfolded radix_key_fields, OF al w hk]
  obtain st' plen old L' pk' pv' where i:
    "rc_insert env st (RadixKey K ?e (rc_is_eagle st)) (Some ?w) prio chunked = ret (st', plen)"
    "radix_inv st' L' pk' pv' H" "config st' = config st" "cache_slots st' L' = cache_slots st L + mset (drop plen ?w)"
    "plen \<le> length K" "length old = plen"
    "\<forall>l ws. ps st dvd l \<and> l \<le> length K \<and> cached st ?e (take l K) ws \<longrightarrow> l \<le> plen \<and> ws = take l old"
    "\<forall>e ts ws. cached st' e ts ws \<longleftrightarrow> cached st e ts ws \<or> e = ?e \<and> prefix ts K \<and> ws = take (length ts) (old @ drop plen ?w)"
    by (elim exE conjE) (rule that)
  from i(7) dp pK c have pp: "p \<le> plen" "take p kv = take p old" by auto
  have sl: "drop plen ?w = slice kv plen (length K)" by (simp add: slice_def drop_take)
  define A B where "A = slice kv p plen" and "B = slice kv plen (length K)"
  have AB: "slice kv p (length K) = A @ B"
  proof -
    have "length K - p = (plen - p) + (length K - plen)" "plen - p + p = plen" using pp i(5) by simp_all
    then show ?thesis by (simp only: A_def B_def slice_def take_add drop_drop)
  qed
  have "A @ B = take (length K - p) (drop p kv)" using AB by (simp add: slice_def)
  then have dAB: "distinct (A @ B)" "set (A @ B) \<subseteq> R"
    using own by (auto simp: p_def dest: in_set_takeD distinct_take)
  have Rf: "C \<inter> R = {}" "inv al (C \<union> R)" "cache_slots st L = mset_set C" using ho by (auto simp: holds_def)
  have "set A \<subseteq> C \<union> R" "distinct A" using dAB by auto
  from free_live [OF Rf(2) this(2,1)] obtain al' where al': "free al A = Inr al'" "inv al' (C \<union> R - set A)"
    "avail al' = avail al + int (length A)" by blast
  have lenA: "length A = plen - p" using i(5) Kl by (simp add: A_def slice_def)
  have eqs: "C \<union> R - set A = (C \<union> set B) \<union> (R - set (A @ B))" using dAB Rf(1) by auto
  have "cache_slots st' L' = mset_set (C \<union> set B)"
  proof -
    have "mset_set (C \<union> set B) = mset_set C + mset_set (set B)"
      by (rule mset_set_Union) (use holds_finite [OF ho] dAB Rf(1) in auto)
    also have "mset_set (set B) = mset B" using dAB by (simp add: mset_set_set)
    finally show ?thesis using i(4) Rf(3) by (simp add: sl B_def)
  qed
  then have "holds al' st' L' (C \<union> set B) (R - set (slice kv p (length K)))"
    using al'(2) Rf(1) dAB unfolding AB eqs by (auto simp: holds_def)
  moreover have "cached st' ?e K (old @ slice kv plen (length K))"
  proof -
    have "length (old @ drop plen ?w) = length K" using i(5,6) w by simp
    then have "take (length K) (old @ drop plen ?w) = old @ drop plen ?w" by (simp only: take_all order_refl)
    then show ?thesis using i(8) sl by auto
  qed
  ultimately show ?thesis using i(1,2,3,5,6,8) al'(1,3) pp lenA
    by (intro exI [of _ st'] exI [of _ plen] exI [of _ old] exI [of _ L'] exI [of _ pk'] exI [of _ pv'] exI [of _ al'])
      (auto simp: A_def B_def)
qed

end

end
