(* ===== verification/Radix_Tree.thy ===== *)
theory Radix_Tree
  imports Radix_Evict
begin

text \<open>
  Walks over the whole tree: bottom-up induction, sums over subtrees, and the operations
  \<open>total_size\<close> and \<open>all_values_flatten\<close>, which visit every node exactly once.
\<close>

section \<open>Subtrees\<close>

abbreviation kid_set :: "radix \<Rightarrow> nat \<Rightarrow> nat list" where
  "kid_set st n \<equiv> map snd (kids st n)"

lemma child_of_kid: "child_of st n c \<longleftrightarrow> c \<in> set (kid_set st n)"
  by (simp add: child_of_def)

lemma kid_facts:
  assumes "tree_inv st L pk pv" "n \<in> L" "c \<in> set (kid_set st n)"
  shows "c \<in> L" "c \<noteq> rc_root st" "n_parent (node st c) = Some n" "length (pk n) < length (pk c)" "child_of st n c"
proof -
  from assms(3) obtain k where kc: "(k, c) \<in> set (kids st n)" by auto
  note kd = kidD [OF assms(1,2) kc]
  show "c \<in> L" "c \<noteq> rc_root st" using kd by auto
  show "n_parent (node st c) = Some n" using kd(5) by (simp add: parent_ok_def)
  show "length (pk n) < length (pk c)"
    using kd(5) tree_invD(8) [OF assms(1) kd(1,2)] by (auto simp: parent_ok_def node_ok_def)
  show "child_of st n c" using kc by (force simp: child_of_def)
qed

lemma bottom_up [consumes 2, case_names node]:
  assumes ti: "tree_inv st L pk pv" and n: "n \<in> L"
    and step: "\<And>n. n \<in> L \<Longrightarrow> (\<And>c. c \<in> set (kid_set st n) \<Longrightarrow> P c) \<Longrightarrow> P n"
  shows "P n"
  using n
proof (induction "Max ((\<lambda>k. length (pk k)) ` L) - length (pk n)" arbitrary: n rule: less_induct)
  case less
  have fin: "finite L" using ti by (rule radix_finite_live)
  show ?case
  proof (rule step [OF less.prems])
    fix c assume c: "c \<in> set (kid_set st n)"
    note k = kid_facts [OF ti less.prems c]
    have "length (pk c) \<le> Max ((\<lambda>k. length (pk k)) ` L)" using fin k(1) by (intro Max_ge) auto
    then show "P c" using less.hyps [of c] k(1,4) by simp
  qed
qed

definition subtree :: "radix \<Rightarrow> nat \<Rightarrow> nat set" where
  "subtree st n = {m. (child_of st)\<^sup>*\<^sup>* n m}"

lemma subtree_live:
  assumes ti: "tree_inv st L pk pv" and n: "n \<in> L" and m: "m \<in> subtree st n"
  shows "m \<in> L \<and> length (pk n) \<le> length (pk m)"
proof -
  have "(child_of st)\<^sup>*\<^sup>* n m" using m by (simp add: subtree_def)
  then show ?thesis
  proof (induction rule: rtranclp_induct)
    case base
    then show ?case using n by simp
  next
    case (step y z)
    then have "z \<in> set (kid_set st y)" by (simp add: child_of_kid)
    with kid_facts [OF ti _ this] step.IH show ?case by (meson le_less_trans less_imp_le_nat)
  qed
qed

lemma subtree_unfold: "subtree st n = insert n (\<Union>c\<in>set (kid_set st n). subtree st c)"
proof (intro equalityI subsetI)
  fix m assume "m \<in> subtree st n"
  then have "(child_of st)\<^sup>*\<^sup>* n m" by (simp add: subtree_def)
  then show "m \<in> insert n (\<Union>c\<in>set (kid_set st n). subtree st c)"
  proof (cases rule: converse_rtranclpE)
    case (step c)
    then have "c \<in> set (kid_set st n)" "m \<in> subtree st c" by (simp_all add: child_of_kid subtree_def)
    then show ?thesis by blast
  qed simp
next
  fix m assume "m \<in> insert n (\<Union>c\<in>set (kid_set st n). subtree st c)"
  then consider "m = n" | c where "child_of st n c" "(child_of st)\<^sup>*\<^sup>* c m" by (auto simp: child_of_kid subtree_def)
  then show "m \<in> subtree st n" by cases (auto simp: subtree_def intro: converse_rtranclp_into_rtranclp)
qed

lemma subtree_root:
  assumes ti: "tree_inv st L pk pv"
  shows "subtree st (rc_root st) = L"
proof (intro equalityI subsetI)
  show "m \<in> L" if "m \<in> subtree st (rc_root st)" for m using subtree_live [OF ti tree_invD(2) [OF ti] that] by simp
  show "m \<in> subtree st (rc_root st)" if "m \<in> L" for m using below_root [OF ti that] by (simp add: subtree_def)
qed

lemma subtree_disjoint:
  assumes ti: "tree_inv st L pk pv" and n: "n \<in> L" and c: "a \<in> set (kid_set st n)" "b \<in> set (kid_set st n)" "a \<noteq> b"
  shows "subtree st a \<inter> subtree st b = {}"
proof -
  note ka = kid_facts [OF ti n c(1)] and kb = kid_facts [OF ti n c(2)]
  have par: "x = y" if "child_of st x m" "child_of st y m" "x \<in> L" "y \<in> L" for x y m
    using that kid_facts(3) [OF ti, of x m] kid_facts(3) [OF ti, of y m] by (simp add: child_of_kid)
  have up: "(child_of st)\<^sup>*\<^sup>* b m \<Longrightarrow> False" if "(child_of st)\<^sup>*\<^sup>* a m" for m
    using that
  proof (induction rule: rtranclp_induct)
    case base
    then obtain y where y: "(child_of st)\<^sup>*\<^sup>* b y" "child_of st y a" by (rule rtranclp.cases) (use c(3) in auto)
    have "y \<in> L" "length (pk b) \<le> length (pk y)" using subtree_live [OF ti kb(1)] y(1) by (auto simp: subtree_def)
    then show False using par [OF y(2) ka(5)] n kb(4) by simp
  next
    case (step y z)
    have yL: "y \<in> L" "length (pk a) \<le> length (pk y)" using subtree_live [OF ti ka(1)] step.hyps(1) by (auto simp: subtree_def)
    show False
    proof (cases "z = b")
      case True
      then show False using par [OF step.hyps(2)] kb(5) yL n ka(4) by force
    next
      case False
      from step.prems obtain x where x: "(child_of st)\<^sup>*\<^sup>* b x" "child_of st x z" by (rule rtranclp.cases) (use False in auto)
      have "x \<in> L" using subtree_live [OF ti kb(1)] x(1) by (auto simp: subtree_def)
      then show False using par [OF x(2) step.hyps(2)] yL(1) x(1) step.IH by simp
    qed
  qed
  then show ?thesis by (auto simp: subtree_def)
qed

lemma subtree_sum:
  fixes f :: "nat \<Rightarrow> 'b :: comm_monoid_add"
  assumes ti: "tree_inv st L pk pv" and n: "n \<in> L"
  shows "sum f (subtree st n) = f n + (\<Sum>c\<leftarrow>kid_set st n. sum f (subtree st c))"
proof -
  have fin: "finite (subtree st c)" if "c \<in> L" for c
    using subtree_live [OF ti that] radix_finite_live [OF ti] by (meson finite_subset subsetI)
  have sub: "n \<notin> subtree st c" if "c \<in> set (kid_set st n)" for c
    using subtree_live [OF ti kid_facts(1) [OF ti n that], of n] kid_facts(4) [OF ti n that] by auto
  have "sum f (\<Union>c\<in>set (kid_set st n). subtree st c) = (\<Sum>c\<in>set (kid_set st n). sum f (subtree st c))"
    by (rule sum.UNION_disjoint) (use subtree_disjoint [OF ti n] fin kid_facts(1) [OF ti n] in auto)
  also have "\<dots> = (\<Sum>c\<leftarrow>kid_set st n. sum f (subtree st c))"
    using kid_once [OF ti n] by (rule sum_list_distinct_conv_sum_set [symmetric])
  finally show ?thesis
    unfolding subtree_unfold [of st n] using sub fin kid_facts(1) [OF ti n] by (subst sum.insert) auto
qed

section \<open>Walks\<close>

lemma live_value:
  assumes "tree_inv st L pk pv" "n \<in> L"
  shows "value_of (node st n) = ret (val st n)" "\<not> evicted (node st n)"
proof -
  obtain v where v: "n_value (node st n) = Some v"
    using assms tree_invD(5) [OF assms(1)] tree_invD(8) [OF assms] by (cases "n = rc_root st") (auto simp: node_ok_def)
  then show "value_of (node st n) = ret (val st n)" "\<not> evicted (node st n)" by (simp_all add: value_of_def evicted_def)
qed

lemma live_value_length:
  assumes ti: "tree_inv st L pk pv" and n: "n \<in> L"
  shows "length (val st n) = length (toks st n)"
  using tree_invD(8) [OF ti n] tree_invD(4,5) [OF ti] by (cases "n = rc_root st") (auto simp: node_ok_def)

lemma total_size_loop_list:
  assumes "\<And>c. c \<in> set cs \<Longrightarrow> \<forall>stack t. total_size_loop st (c # stack) t = total_size_loop st stack (t + f c)"
  shows "total_size_loop st (cs @ stack) t = total_size_loop st stack (t + (\<Sum>c\<leftarrow>cs. f c))"
  using assms
proof (induction cs arbitrary: t)
  case (Cons c cs)
  have "total_size_loop st ((c # cs) @ stack) t = total_size_loop st (cs @ stack) (t + f c)"
    using Cons.prems [of c] by simp
  then show ?case using Cons by (simp add: add.assoc)
qed simp

lemma total_size_loop_spec:
  assumes ti: "tree_inv st L pk pv" and n: "n \<in> L"
  shows "\<forall>stack t. total_size_loop st (n # stack) t
    = total_size_loop st stack (t + (\<Sum>m\<in>subtree st n. length (val st m)))"
  using ti n
proof (induction rule: bottom_up)
  case (node n)
  let ?f = "\<lambda>c. \<Sum>m\<in>subtree st c. length (val st m)"
  have all: "filter (\<lambda>c. \<not> evicted (node st c)) (kid_set st n) = kid_set st n"
    using live_value(2) [OF ti] kid_facts(1) [OF ti node(1)] by (auto simp: filter_id_conv)
  have "total_size_loop st (n # stack) t = total_size_loop st stack (t + ?f n)" for stack t
  proof -
    have "total_size_loop st (n # stack) t = total_size_loop st (rev (kid_set st n) @ stack) (t + length (val st n))"
      using live_value(1) [OF ti node(1)] all by (simp add: total_size_loop.simps [of st "n # stack"])
    also have "\<dots> = total_size_loop st stack (t + length (val st n) + (\<Sum>c\<leftarrow>rev (kid_set st n). ?f c))"
      by (rule total_size_loop_list) (use node(2) in auto)
    also have "t + length (val st n) + (\<Sum>c\<leftarrow>rev (kid_set st n). ?f c) = t + ?f n"
      by (simp add: subtree_sum [OF ti node(1)] rev_map [symmetric])
    finally show ?thesis .
  qed
  then show ?case by blast
qed

lemma total_size_spec:
  assumes "tree_inv st L pk pv"
  shows "total_size st = ret (\<Sum>n\<in>L. length (toks st n))"
  using total_size_loop_spec [OF assms tree_invD(2) [OF assms]] live_value_length [OF assms]
  by (simp add: total_size_def subtree_root [OF assms] total_size_loop.simps [of st "[]"])

lemma dfs_values_list:
  assumes "\<And>c. c \<in> set cs \<Longrightarrow> c \<in> L \<and> (\<exists>vs. dfs_values st (kid_set st c) = ret vs
      \<and> mset (concat vs) + mset (val st c) = (\<Sum>m\<in>subtree st c. mset (val st m)))" and ti: "tree_inv st L pk pv"
  shows "\<exists>vs. dfs_values st cs = ret vs \<and> mset (concat vs) = (\<Sum>c\<leftarrow>cs. \<Sum>m\<in>subtree st c. mset (val st m))
    \<and> (vs = [] \<longleftrightarrow> cs = [])"
  using assms(1)
proof (induction cs)
  case Nil
  then show ?case by (simp add: dfs_values.simps [of st "[]"])
next
  case (Cons c cs)
  from Cons.prems [of c] obtain vs where v: "c \<in> L" "dfs_values st (kid_set st c) = ret vs"
    "mset (concat vs) + mset (val st c) = (\<Sum>m\<in>subtree st c. mset (val st m))" by auto
  from Cons.IH Cons.prems obtain ws where w: "dfs_values st cs = ret ws"
    "mset (concat ws) = (\<Sum>c\<leftarrow>cs. \<Sum>m\<in>subtree st c. mset (val st m))" by auto
  have "dfs_values st (c # cs) = ret (val st c # vs @ ws)"
    using v(2) w(1) live_value(1) [OF ti v(1)] by (simp add: dfs_values.simps [of st "c # cs"])
  moreover have "mset (concat (val st c # vs @ ws)) = (mset (concat vs) + mset (val st c)) + mset (concat ws)" by simp
  ultimately show ?case unfolding v(3) w(2) by simp
qed

lemma dfs_values_spec:
  assumes ti: "tree_inv st L pk pv" and n: "n \<in> L"
  shows "n \<in> L \<and> (\<exists>vs. dfs_values st (kid_set st n) = ret vs
    \<and> mset (concat vs) + mset (val st n) = (\<Sum>m\<in>subtree st n. mset (val st m)))"
  using ti n
proof (induction rule: bottom_up)
  case (node n)
  from dfs_values_list [OF node(2) ti] obtain vs where "dfs_values st (kid_set st n) = ret vs"
    "mset (concat vs) = (\<Sum>c\<leftarrow>kid_set st n. \<Sum>m\<in>subtree st c. mset (val st m))" by blast
  then show ?case using node(1) by (simp add: subtree_sum [OF ti node(1)] add.commute)
qed

lemma all_values_spec:
  assumes ti: "tree_inv st L pk pv"
  shows "if L = {rc_root st} then all_values_flatten st = raise RuntimeError
    else \<exists>vs. all_values_flatten st = ret vs \<and> mset vs = cache_slots st L"
proof -
  have r: "rc_root st \<in> L" "val st (rc_root st) = []" using tree_invD(2,5) [OF ti] by simp_all
  have e: "kid_set st (rc_root st) = [] \<longleftrightarrow> L = {rc_root st}"
  proof
    assume "kid_set st (rc_root st) = []"
    then have "subtree st (rc_root st) = {rc_root st}" by (subst subtree_unfold) simp
    then show "L = {rc_root st}" by (simp add: subtree_root [OF ti])
  next
    assume L: "L = {rc_root st}"
    show "kid_set st (rc_root st) = []"
    proof (rule ccontr)
      assume "kid_set st (rc_root st) \<noteq> []"
      then obtain c where "c \<in> set (kid_set st (rc_root st))" by (meson last_in_set)
      from kid_facts(1,2) [OF ti r(1) this] L show False by simp
    qed
  qed
  from dfs_values_list [of "kid_set st (rc_root st)" L st pk pv] dfs_values_spec [OF ti] kid_facts(1) [OF ti r(1)] ti
  obtain vs where v: "dfs_values st (kid_set st (rc_root st)) = ret vs"
    "mset (concat vs) = (\<Sum>c\<leftarrow>kid_set st (rc_root st). \<Sum>m\<in>subtree st c. mset (val st m))"
    "vs = [] \<longleftrightarrow> kid_set st (rc_root st) = []" by blast
  have "mset (concat vs) = cache_slots st L"
    using subtree_sum [OF ti r(1), of "\<lambda>m. mset (val st m)"] v(2) r(2) by (simp add: cache_slots_def subtree_root [OF ti])
  then show ?thesis using v(1,3) e by (auto simp: all_values_flatten_def)
qed

section \<open>Locks are determined by their holders\<close>

lemma kid_sum_cong:
  assumes "\<And>c. c \<in> set (kid_set st n) \<Longrightarrow> f c = g c"
  shows "(\<Sum>c\<leftarrow>kid_set st n. f c) = (\<Sum>c\<leftarrow>kid_set st n. g c)"
  by (rule arg_cong [OF map_cong [OF refl assms]])

lemma lock_unique:
  assumes ri: "radix_inv st L pk pv H" and ri': "radix_inv st' L pk pv H" and same: "same_tree st st'" and n: "n \<in> L"
  shows "lock st' n = lock st n"
proof -
  have ti: "tree_inv st L pk pv" using ri by (simp add: radix_inv_def)
  have r: "rc_root st' = rc_root st" using same by (simp add: same_tree_def config_def)
  show ?thesis using ti n
  proof (induction rule: bottom_up)
    case (node n)
    show ?case
    proof (cases "n = rc_root st")
      case True
      then show ?thesis using ri ri' r by (simp add: radix_inv_def lock_inv_def)
    next
      case False
      have "kids st' n = kids st n" using same by (simp add: same_tree_def)
      then have "(\<Sum>c\<leftarrow>kid_set st' n. lock st' c) = (\<Sum>c\<leftarrow>kid_set st n. lock st c)"
        using kid_sum_cong [OF node(2)] by simp
      then show ?thesis using ri ri' r False node(1) by (simp add: radix_inv_def lock_inv_def lock_ok_def)
    qed
  qed
qed

lemma unlocked_tree:
  assumes inv: "radix_inv st L pk pv {#}"
  shows "rc_protected_size st = 0"
proof -
  have ti: "tree_inv st L pk pv" and li: "lock_inv st L {#}" and si: "size_inv st L" using inv by (auto simp: radix_inv_def)
  have "n \<noteq> rc_root st \<longrightarrow> lock st n = 0" if "n \<in> L" for n
    using ti that
  proof (induction rule: bottom_up)
    case (node n)
    have "(\<Sum>c\<leftarrow>kid_set st n. lock st c) = (\<Sum>c\<leftarrow>kid_set st n. 0)"
      by (rule kid_sum_cong) (use node(2) kid_facts(2) [OF ti node(1)] in blast)
    then have "(\<Sum>c\<leftarrow>kid_set st n. lock st c) = 0" by (simp only: sum_list_0)
    then show ?case using li node(1) by (simp add: lock_inv_def lock_ok_def)
  qed
  then have "{n. n \<in> L \<and> n \<noteq> rc_root st \<and> lock st n \<noteq> 0} = {}" by auto
  then show ?thesis using si by (simp only: size_inv_def sum.empty)
qed

end
