(* ===== verification/Triaxial_Sys.thy ===== *)
theory Triaxial_Sys
  imports Triaxial_Inv
begin

text \<open>
  The \<open>TriaxialAllocator\<close> as the state machine its clients drive: plain and mixed allocations,
  frees, free groups, resets.  A state is the allocator together with the set of slots the clients
  hold; slots that a free group has collected and not yet returned are neither held nor free.
  The results are over every sequence of calls from a fresh allocator.
\<close>

section \<open>Mixed allocation\<close>

lemma alloc_mixed_cases:
  assumes "alloc_mixed u a bits lens = Inr (r, a')"
  obtains (empty) "bits = []" "r = Some []" "a' = a"
  | (spec) "bits \<noteq> []" "sum_list lens = length bits" "mixed_spec a bits lens = (r, a')"
proof (cases "bits = []")
  case True
  then show ?thesis using assms empty by (simp add: alloc_mixed_def)
next
  case False
  moreover have lens: "sum_list lens = length bits"
    using assms False by (auto simp: alloc_mixed_def Let_def split: if_splits)
  ultimately show ?thesis using assms spec by (simp add: alloc_mixed_spec)
qed

lemma alloc_mixed_SomeD:
  assumes inv: "tri_inv a L" and al: "alloc_mixed u a bits lens = Inr (Some xs, a')"
  shows "length xs = length bits \<and> distinct xs \<and> set xs \<inter> L = {} \<and> tri_inv a' (L \<union> set xs)
    \<and> (\<forall>i < length bits. xs ! i < offset a \<longrightarrow> bits ! i = 2)"
  using al
proof (cases rule: alloc_mixed_cases)
  case empty
  then show ?thesis using inv by simp
next
  case spec
  note m = mixed_spec_SomeD [OF inv spec(2,3)]
  have "bits ! i = 2" if "i < length bits" "xs ! i < offset a" for i
    using arg_cong [OF m(5), of "\<lambda>m. m ! i"] that m(1) kept_bits2 [OF spec(2)] by simp
  then show ?thesis using m(1-4) by blast
qed

lemma alloc_mixed_NoneD:
  assumes "alloc_mixed u a bits lens = Inr (None, a')"
  shows "\<exists>k. a' = a\<lparr>fallback_int2_to_int4 := k\<rparr>"
  using assms by (cases rule: alloc_mixed_cases) (auto dest: mixed_spec_NoneD)

lemma alloc_mixed_frame:
  assumes "alloc_mixed u a bits lens = Inr (r, a')"
  shows "offset a' = offset a \<and> num_pages2 a' = num_pages2 a \<and> size4 a' = size4 a
    \<and> is_not_in_free_group a' = is_not_in_free_group a \<and> free_group a' = free_group a"
  using assms
  by (cases rule: alloc_mixed_cases) (auto simp: mixed_spec_def Let_def split: if_splits)

section \<open>The state machine\<close>

definition pending :: "tri_state \<Rightarrow> slot list" where
  "pending a = (if is_not_in_free_group a then [] else concat (free_group a))"

inductive tri_step :: "tri_state \<times> slot set \<Rightarrow> tri_state \<times> slot set \<Rightarrow> bool" where
  alloc: "tri_alloc a n = (Some xs, a') \<Longrightarrow> tri_step (a, L) (a', L \<union> set xs)"
| alloc_fail: "tri_alloc a n = (None, a') \<Longrightarrow> tri_step (a, L) (a', L)"
| mixed: "alloc_mixed u a bits lens = Inr (Some xs, a') \<Longrightarrow> tri_step (a, L) (a', L \<union> set xs)"
| mixed_fail: "alloc_mixed u a bits lens = Inr (None, a') \<Longrightarrow> tri_step (a, L) (a', L)"
| free: "distinct xs \<Longrightarrow> set xs \<subseteq> L \<Longrightarrow> tri_free a xs = Inr a' \<Longrightarrow> tri_step (a, L) (a', L - set xs)"
| group_begin: "is_not_in_free_group a \<Longrightarrow> tri_step (a, L) (free_group_begin a, L)"
| group_end: "\<not> is_not_in_free_group a \<Longrightarrow> tri_free_group_end a = Inr a' \<Longrightarrow> tri_step (a, L) (a', L)"
| clear: "tri_step (a, L) (tri_clear a, {})"

definition sys_inv :: "tri_state \<Rightarrow> slot set \<Rightarrow> bool" where
  "sys_inv a L \<longleftrightarrow>
     tri_inv a (L \<union> set (pending a)) \<and> L \<inter> set (pending a) = {} \<and> distinct (pending a)"

text \<open>The sizes of the regions, which no operation changes.\<close>

definition tri_dims :: "tri_state \<Rightarrow> nat \<times> nat \<times> nat" where
  "tri_dims a = (offset a, num_pages2 a, size4 a)"

lemma tri_inv_flags:
  assumes "tri_inv a L"
  shows "tri_inv (a\<lparr>is_not_in_free_group := b\<rparr>) L"
    and "tri_inv (a\<lparr>is_not_in_free_group := b, free_group := g\<rparr>) L"
    and "tri_inv (a\<lparr>free_group := g\<rparr>) L"
  by (rule tri_inv_keep [OF assms]; use tri_invD [OF assms] in simp)+

lemma tri_inv_clear:
  assumes "tri_inv a L"
  shows "tri_inv (tri_clear a) {}"
proof -
  have "0 < num_pages2 a" "offset a = num_pages2 a * PAGE"
    using tri_invD(1,4) [OF assms] by (simp_all add: inv2_def)
  then show ?thesis
    by (auto simp: tri_inv_def tri_clear_def inv4_def inv2_def live2_def live4_def page_ok_def)
qed

lemma tri_free_in_group:
  "\<not> is_not_in_free_group a \<Longrightarrow>
   tri_free a xs = Inr (if xs = [] then a else a\<lparr>free_group := free_group a @ [xs]\<rparr>)"
  by (simp add: tri_free_def)

lemma tri_free_dims:
  assumes "tri_free a xs = Inr a'"
  shows "tri_dims a' = tri_dims a"
  using assms by (auto simp: tri_free_def tri_dims_def Let_def split: if_splits)

lemma group_end_returns:
  assumes "sys_inv a L" "\<not> is_not_in_free_group a"
  shows "\<exists>a'. tri_free_group_end a = Inr a' \<and> tri_inv a' L \<and> is_not_in_free_group a' \<and> tri_dims a' = tri_dims a"
proof -
  let ?b = "a\<lparr>is_not_in_free_group := True\<rparr>"
  have b: "tri_inv ?b (L \<union> set (pending a))" "is_not_in_free_group ?b" "tri_dims ?b = tri_dims a"
    using assms tri_inv_flags(1) by (auto simp: sys_inv_def tri_dims_def)
  have p: "distinct (pending a)" "set (pending a) \<subseteq> L \<union> set (pending a)"
    "L \<union> set (pending a) - set (pending a) = L"
    using assms(1) by (auto simp: sys_inv_def)
  from tri_free_live [OF b(1,2) p(1,2)] obtain a' where
    a': "tri_free ?b (pending a) = Inr a'" "tri_inv a' L" "is_not_in_free_group a'" using p(3) by auto
  show ?thesis
  proof (cases "free_group a = []")
    case True
    then show ?thesis using b assms(2) by (simp add: tri_free_group_end_def free_group_end_def pending_def)
  next
    case False
    then show ?thesis
      using a' assms(2) tri_free_dims [OF a'(1)] b(3)
      by (simp add: tri_free_group_end_def free_group_end_def pending_def)
  qed
qed

lemma free_returns:
  assumes inv: "sys_inv a L" and xs: "distinct xs" "set xs \<subseteq> L"
  shows "\<exists>a'. tri_free a xs = Inr a' \<and> sys_inv a' (L - set xs)"
proof (cases "is_not_in_free_group a")
  case True
  then have "tri_inv a L" using inv by (simp add: sys_inv_def pending_def)
  from tri_free_live [OF this True xs] show ?thesis by (auto simp: sys_inv_def pending_def)
next
  case False
  let ?b = "if xs = [] then a else a\<lparr>free_group := free_group a @ [xs]\<rparr>"
  have p: "set (pending ?b) = set (pending a) \<union> set xs"
    "distinct (pending ?b) \<longleftrightarrow> distinct (pending a @ xs)" using False by (auto simp: pending_def)
  have "L - set xs \<union> (set (pending a) \<union> set xs) = L \<union> set (pending a)" using xs(2) by auto
  moreover have "tri_inv ?b (L \<union> set (pending a))"
    using inv tri_inv_flags(3) by (auto simp: sys_inv_def)
  ultimately have "sys_inv ?b (L - set xs)" using inv xs by (auto simp: sys_inv_def p)
  then show ?thesis using tri_free_in_group [OF False] by blast
qed

lemma sys_inv_gain:
  assumes inv: "sys_inv a L" and new: "tri_inv a' (L \<union> set (pending a) \<union> X)" "X \<inter> (L \<union> set (pending a)) = {}"
    and frame: "is_not_in_free_group a' = is_not_in_free_group a" "free_group a' = free_group a"
  shows "sys_inv a' (L \<union> X)"
proof -
  have p: "pending a' = pending a" using frame by (simp add: pending_def)
  have "L \<union> X \<union> set (pending a) = L \<union> set (pending a) \<union> X" by auto
  with new inv show ?thesis by (auto simp: sys_inv_def p)
qed

lemma tri_step_inv:
  assumes "tri_step (a, L) (a', L')" and inv: "sys_inv a L"
  shows "sys_inv a' L' \<and> tri_dims a' = tri_dims a"
  using assms(1)
proof (cases rule: tri_step.cases)
  case (alloc n xs)
  have "tri_dims a' = tri_dims a"
    using alloc by (auto simp: tri_alloc_def tri_dims_def Let_def split: if_splits)
  moreover have "tri_inv a (L \<union> set (pending a))" using inv by (simp add: sys_inv_def)
  note tri_alloc_SomeD [OF this alloc(2)]
  ultimately show ?thesis using alloc sys_inv_gain [OF inv] tri_alloc_frame [OF alloc(2)] by auto
next
  case (alloc_fail n)
  then show ?thesis using inv tri_alloc_NoneD by auto
next
  case (mixed u bits lens xs)
  have "tri_inv a (L \<union> set (pending a))" using inv by (simp add: sys_inv_def)
  note alloc_mixed_SomeD [OF this mixed(2)]
  then show ?thesis using mixed sys_inv_gain [OF inv] alloc_mixed_frame [OF mixed(2)] by (auto simp: tri_dims_def)
next
  case (mixed_fail u bits lens)
  then obtain k where "a' = a\<lparr>fallback_int2_to_int4 := k\<rparr>" using alloc_mixed_NoneD by blast
  then show ?thesis
    using mixed_fail inv sys_inv_gain [OF inv, of a' "{}"] tri_inv_fallback by (auto simp: sys_inv_def tri_dims_def)
next
  case (free xs)
  show ?thesis using free_returns [OF inv free(2,3)] tri_free_dims [OF free(4)] free by auto
next
  case group_begin
  then show ?thesis
    using inv tri_inv_flags(2) by (simp add: sys_inv_def pending_def free_group_begin_def tri_dims_def)
next
  case group_end
  then show ?thesis using group_end_returns [OF inv] by (auto simp: sys_inv_def pending_def)
next
  case clear
  then show ?thesis
    using inv tri_inv_clear by (auto simp: sys_inv_def pending_def tri_clear_def tri_dims_def)
qed

lemma tri_steps_inv:
  assumes "tri_step\<^sup>*\<^sup>* (a, L) (a', L')" and "sys_inv a L"
  shows "sys_inv a' L' \<and> tri_dims a' = tri_dims a"
  using assms
proof (induction "(a', L')" arbitrary: a' L' rule: rtranclp_induct)
  case (step y)
  obtain b M where y: "y = (b, M)" by (cases y)
  with step have "sys_inv b M" "tri_dims b = tri_dims a" by auto
  with tri_step_inv [of b M a' L'] step.hyps y show ?case by auto
qed simp

lemma sys_inv_init: "0 < np2 \<Longrightarrow> sys_inv (tri_init sz (np2 * PAGE) np2 s4 srt) {}"
  using tri_inv_init by (simp add: sys_inv_def pending_def tri_init_def tri_clear_def)

lemma tri_reachable:
  assumes "tri_step\<^sup>*\<^sup>* (tri_init sz (np2 * PAGE) np2 s4 srt, {}) (a, L)" "0 < np2"
  shows "sys_inv a L" "offset a = np2 * PAGE" "num_pages2 a = np2" "size4 a = s4"
  using tri_steps_inv [OF assms(1) sys_inv_init [OF assms(2)]]
  by (auto simp: tri_dims_def tri_init_def tri_clear_def)

lemma live_ranges:
  assumes "tri_inv a L"
  shows "L \<subseteq> {PAGE..<offset a} \<union> {offset a + 1..<offset a + size4 a}"
proof
  fix s assume "s \<in> L"
  then have "s \<in> live2 a L \<or> s \<in> live4 a L" by (auto simp: live2_def live4_def)
  moreover have "live2 a L \<subseteq> {PAGE..<offset a}" "live4 a L \<subseteq> {offset a + 1..<offset a + size4 a}"
    using tri_invD(1,3,4) [OF assms] by (auto simp: inv2_def inv4_def)
  ultimately show "s \<in> {PAGE..<offset a} \<union> {offset a + 1..<offset a + size4 a}" by blast
qed

lemma free_page_below:
  assumes inv: "tri_inv a L" and s: "s \<in> set (concat (map page_slots (free_pages2 a)))" (is "s \<in> ?P")
  shows "s < offset a" and "s \<notin> L"
proof -
  note i2 = inv2_take [OF tri_invD(4) [OF inv] order_refl]
  have "live2 a L \<union> ?P \<subseteq> {PAGE..<num_pages2 a * PAGE}"
    using i2(1) unfolding inv2_def take_all [OF order_refl] by (elim conjE)
  from subsetD [OF this UnI2 [OF s]] have "s < num_pages2 a * PAGE" by simp
  moreover have "s \<notin> live2 a L"
    using i2(2) s unfolding take_all [OF order_refl] disjoint_iff by (elim allE impE)
  ultimately show "s < offset a" "s \<notin> L" using tri_invD(1) [OF inv] by (auto simp: live2_def)
qed

lemma sys_inv_finite: "sys_inv a L \<Longrightarrow> finite L"
  using tri_inv_finite by (auto simp: sys_inv_def)

lemma sys_inv_size:
  assumes "sys_inv a L"
  shows "tri_available_size a + int (card L) + int (length (pending a)) = int (usable_slots a)"
proof -
  have ti: "tri_inv a (L \<union> set (pending a))" and disj: "L \<inter> set (pending a) = {}" "distinct (pending a)"
    using assms by (simp_all add: sys_inv_def)
  have "card (L \<union> set (pending a)) = card L + length (pending a)"
    using tri_inv_finite [OF ti] disj by (simp add: card_Un_disjoint distinct_card)
  with tri_inv_exact_size [OF ti] show ?thesis by simp
qed

lemma usable_dims: "tri_dims a' = tri_dims a \<Longrightarrow> usable_slots a' = usable_slots a"
  by (simp add: tri_dims_def usable_slots_def)

text \<open>A run for the examples: two slots of the INT4 region of an allocator with 4 pages and 20 rows.\<close>

lemma sample_run:
  "tri_step\<^sup>*\<^sup>* (tri_init 100 (4 * PAGE) 4 20 False, {})
     (snd (tri_alloc (tri_init 100 (4 * PAGE) 4 20 False) 2), {129, 130})"
proof -
  let ?a = "tri_init 100 (4 * PAGE) 4 20 False"
  have "fst (tri_alloc ?a 2) = Some [129, 130]" by code_simp
  then have "tri_alloc ?a 2 = (Some [129, 130], snd (tri_alloc ?a 2))" by (metis prod.collapse)
  note step = tri_step.alloc [OF this, of "{}", unfolded Un_empty_left list.set]
  then show ?thesis by (rule r_into_rtranclp)
qed

section \<open>Properties\<close>

text \<open>
  C1: \<open>TriaxialAllocator.alloc_mixed\<close> (repeat_interleave, cumsum, bincount, two masked scatters)
  computes exactly the sequential specification: per request the longest prefix of its INT2 tokens
  that fills whole pages is INT2, cut to the free pages; then one left-to-right pass hands out page
  slots and INT4 slots.  It holds for every content of the uninitialised output tensor.
\<close>

theorem alloc_mixed_sequential:
  assumes "bits \<noteq> []" and "sum_list lens = length bits"
  shows "alloc_mixed u a bits lens = Inr (mixed_spec a bits lens)"
  using assms by (rule alloc_mixed_spec)

theorem alloc_mixed_sequential_witness:
  "alloc_mixed (\<lambda>_. 7) (tri_init 100 128 4 20 False) (replicate 33 2 @ [4, 2]) [34, 1]
   = Inr (mixed_spec (tri_init 100 128 4 20 False) (replicate 33 2 @ [4, 2]) [34, 1])
   \<and> fst (mixed_spec (tri_init 100 128 4 20 False) (replicate 33 2 @ [4, 2]) [34, 1])
     = Some ([32..<64] @ [129, 130, 131])"
proof
  show "alloc_mixed (\<lambda>_. 7) (tri_init 100 128 4 20 False) (replicate 33 2 @ [4, 2]) [34, 1]
     = Inr (mixed_spec (tri_init 100 128 4 20 False) (replicate 33 2 @ [4, 2]) [34, 1])"
    by (rule alloc_mixed_sequential) simp_all
  show "fst (mixed_spec (tri_init 100 128 4 20 False) (replicate 33 2 @ [4, 2]) [34, 1])
     = Some ([32..<64] @ [129, 130, 131])"
    by code_simp
qed

text \<open>
  C2: for every sequence of allocations (plain and mixed), frees, free groups and resets on a fresh
  allocator, \<open>available_size()\<close> plus the slots held by clients plus the slots parked in an open free
  group is the number of usable slots; every held slot lies in \<open>[PAGE, offset)\<close> or in
  \<open>(offset, offset + size4)\<close>, so the padding page and the padding row are never handed out; and free
  and held slots do not overlap.
\<close>

theorem tri_accounting:
  assumes "tri_step\<^sup>*\<^sup>* (tri_init sz (np2 * PAGE) np2 s4 srt, {}) (a, L)" and "0 < np2"
  shows "tri_available_size a + int (card L) + int (length (pending a)) = int ((np2 - 1) * PAGE + (s4 - 1))
    \<and> L \<subseteq> {PAGE..<np2 * PAGE} \<union> {np2 * PAGE + 1..<np2 * PAGE + s4}
    \<and> L \<inter> (set (free_slots4 a) \<union> set (concat (map page_slots (free_pages2 a)))) = {}"
proof (intro conjI)
  note inv = tri_reachable [OF assms]
  have ti: "tri_inv a (L \<union> set (pending a))" using inv(1) by (simp add: sys_inv_def)
  from sys_inv_size [OF inv(1)] inv
  show "tri_available_size a + int (card L) + int (length (pending a)) = int ((np2 - 1) * PAGE + (s4 - 1))"
    by (simp add: usable_slots_def)
  show "L \<subseteq> {PAGE..<np2 * PAGE} \<union> {np2 * PAGE + 1..<np2 * PAGE + s4}"
    using live_ranges [OF ti] inv(2-4) by auto
  show "L \<inter> (set (free_slots4 a) \<union> set (concat (map page_slots (free_pages2 a)))) = {}"
    unfolding disjoint_iff using free_slots4_above [OF ti] free_page_below(2) [OF ti] by (meson UnE UnI1)
qed

theorem tri_accounting_witness:
  "tri_step\<^sup>*\<^sup>* (tri_init 100 (4 * PAGE) 4 20 False, {})
     (snd (tri_alloc (tri_init 100 (4 * PAGE) 4 20 False) 2), {129, 130})
   \<and> tri_available_size (snd (tri_alloc (tri_init 100 (4 * PAGE) 4 20 False) 2)) = 113"
proof
  let ?a = "tri_init 100 (4 * PAGE) 4 20 False"
  show run: "tri_step\<^sup>*\<^sup>* (?a, {}) (snd (tri_alloc ?a 2), {129, 130})" by (rule sample_run)
  have "pending (snd (tri_alloc ?a 2)) = []" by code_simp
  with conjunct1 [OF tri_accounting [OF run]] show "tri_available_size (snd (tri_alloc ?a 2)) = 113"
    by (simp add: PAGE_def)
qed

text \<open>
  C3: in every state such a sequence reaches, giving back slots one holds never fails, inside a free
  group as well as outside, and closing a free group never fails and returns every parked slot: the
  reported size grows by exactly the number of returned slots.
\<close>

theorem tri_frees_return:
  assumes run: "tri_step\<^sup>*\<^sup>* (tri_init sz (np2 * PAGE) np2 s4 srt, {}) (a, L)" "0 < np2"
    and xs: "distinct xs" "set xs \<subseteq> L"
  shows "(\<exists>a'. tri_free a xs = Inr a' \<and> tri_available_size a' + int (length (pending a'))
      = tri_available_size a + int (length (pending a)) + int (length xs))
    \<and> (\<not> is_not_in_free_group a \<longrightarrow> (\<exists>a'. tri_free_group_end a = Inr a' \<and> pending a' = []
      \<and> tri_available_size a' = tri_available_size a + int (length (pending a))))"
proof (intro conjI impI)
  note inv = tri_reachable [OF run]
  obtain a' where a': "tri_free a xs = Inr a'" "sys_inv a' (L - set xs)" "tri_dims a' = tri_dims a"
    using free_returns [OF inv(1) xs] tri_free_dims by blast
  have "card L = card (L - set xs) + length xs"
    using xs sys_inv_finite [OF inv(1)]
    by (metis card_Diff_subset card_mono distinct_card finite_set le_add_diff_inverse2)
  with a' sys_inv_size [OF inv(1)] sys_inv_size [OF a'(2)] usable_dims [OF a'(3)]
  show "\<exists>a'. tri_free a xs = Inr a' \<and> tri_available_size a' + int (length (pending a'))
      = tri_available_size a + int (length (pending a)) + int (length xs)"
    by (intro exI [of _ a']) simp
  assume "\<not> is_not_in_free_group a"
  then obtain b where b: "tri_free_group_end a = Inr b" "tri_inv b L" "is_not_in_free_group b"
    "tri_dims b = tri_dims a" using group_end_returns [OF inv(1)] by blast
  then have "sys_inv b L" "pending b = []" by (simp_all add: sys_inv_def pending_def)
  with b sys_inv_size [OF inv(1)] sys_inv_size [of b L] usable_dims [OF b(4)]
  show "\<exists>a'. tri_free_group_end a = Inr a' \<and> pending a' = []
      \<and> tri_available_size a' = tri_available_size a + int (length (pending a))"
    by (intro exI [of _ b]) simp
qed

theorem tri_frees_return_witness:
  "\<exists>a'. tri_free (snd (tri_alloc (tri_init 100 (4 * PAGE) 4 20 False) 2)) [130] = Inr a'
     \<and> tri_available_size a' + int (length (pending a')) = 114"
proof -
  let ?a = "tri_init 100 (4 * PAGE) 4 20 False"
  note run = sample_run
  have "pending (snd (tri_alloc ?a 2)) = []" "tri_available_size (snd (tri_alloc ?a 2)) = 113"
    by code_simp+
  then show ?thesis
    using conjunct1 [OF tri_frees_return [OF run, of "[130]"]] by (simp only: list.size) simp
qed

text \<open>
  C4: a successful \<open>alloc_mixed\<close> hands out one slot per token, all distinct and none of them held;
  a token not tagged INT2 never gets an INT2 slot; and the INT2 slots, read in token order, are the
  slots of whole pages popped from the free-page list, in slot order, which is what \<open>set_kv_buffer\<close>
  relies on when it groups them.
\<close>

theorem alloc_mixed_fresh:
  assumes "tri_inv a L" and "alloc_mixed u a bits lens = Inr (Some xs, a')"
  shows "length xs = length bits \<and> distinct xs \<and> set xs \<inter> L = {} \<and> tri_inv a' (L \<union> set xs)
    \<and> (\<forall>i < length bits. xs ! i < offset a \<longrightarrow> bits ! i = 2)
    \<and> (\<exists>n. filter (\<lambda>s. s < offset a) xs = concat (map page_slots (take n (free_pages2 a))))"
  using assms(2)
proof (cases rule: alloc_mixed_cases)
  case empty
  then show ?thesis using assms(1) by (auto intro: exI [of _ 0])
next
  case spec
  show ?thesis
    using alloc_mixed_SomeD [OF assms] mixed_spec_SomeD(6) [OF assms(1) spec(2,3)] by blast
qed

theorem alloc_mixed_fresh_witness:
  "fst (projr (alloc_mixed (\<lambda>_. 0) (tri_init 100 (4 * PAGE) 4 20 False) (replicate 33 2 @ [4]) [34]))
     = Some ([32..<64] @ [129, 130]) \<and> distinct ([32..<64] @ [129::nat, 130])"
proof
  let ?a = "tri_init 100 (4 * PAGE) 4 20 False"
  let ?r = "alloc_mixed (\<lambda>_. 0) ?a (replicate 33 2 @ [4]) [34]"
  show f: "fst (projr ?r) = Some ([32..<64] @ [129, 130])" by code_simp
  have "isl ?r = False" by code_simp
  then have "?r = Inr (Some ([32..<64] @ [129, 130]), snd (projr ?r))"
    using f by (metis prod.collapse sum.collapse(2))
  from alloc_mixed_fresh [OF tri_inv_init [OF zero_less_numeral] this] show "distinct ([32..<64] @ [129::nat, 130])" by blast
qed

text \<open>
  C5: when the free pages cover what the requests can fill, every request keeps INT2 for exactly
  the first \<open>(c div PAGE) * PAGE\<close> of its \<open>c\<close> INT2-tagged tokens, so fewer than \<open>PAGE\<close> tokens per
  request are demoted.
\<close>

theorem alloc_mixed_demotes_remainder:
  assumes "tri_inv a L" and "alloc_mixed u a bits lens = Inr (Some xs, a')"
    and "full_page_tokens bits lens \<le> available_size_int2 a" and "bits \<noteq> []" and "r < length lens"
  shows "map (\<lambda>s. s < offset a) (split_lens lens xs ! r) = keep_req (split_lens lens bits ! r)
    \<and> count_list (split_lens lens bits ! r) 2 - length (filter (\<lambda>s. s < offset a) (split_lens lens xs ! r)) < PAGE"
  using assms(2)
proof (cases rule: alloc_mixed_cases)
  case spec
  let ?b = "split_lens lens bits ! r" and ?x = "split_lens lens xs ! r"
  have "kept a bits lens = keep_spec bits lens"
    using assms(3) length_keep_spec [OF spec(2)] ntrue_keep_spec [OF spec(2)]
    by (simp add: kept_def keep_first_all available_size_int2_def)
  with mixed_spec_SomeD(5) [OF assms(1) spec(2,3)]
  have "split_lens lens (map (\<lambda>s. s < offset a) xs) = split_lens lens (keep_spec bits lens)" by simp
  also have "\<dots> = map keep_req (split_lens lens bits)"
    unfolding keep_spec_def using map_length_split_lens [OF spec(2)]
    by (intro split_lens_concat) (simp add: comp_def)
  finally have m: "map (\<lambda>s. s < offset a) ?x = keep_req ?b"
    using assms(5) by (metis length_split_lens nth_map split_lens_map)
  have "length (filter (\<lambda>s. s < offset a) ?x) = length (filter id (map (\<lambda>s. s < offset a) ?x))"
    by (simp add: filter_map comp_def)
  also have "\<dots> = count_list ?b 2 div PAGE * PAGE"
    using ntrue_total [of "keep_req ?b"] ntrue_keep_req [of ?b] by (simp add: m)
  finally show ?thesis using m by (simp add: minus_div_mult_eq_mod)
qed (use assms(4) in simp)

theorem alloc_mixed_demotes_remainder_witness:
  "\<exists>xs. fst (projr (alloc_mixed (\<lambda>_. 0) (tri_init 100 (4 * PAGE) 4 20 False) (replicate 33 2 @ [4]) [34])) = Some xs
     \<and> map (\<lambda>s. s < 128) (split_lens [34] xs ! 0) = replicate 32 True @ [False, False]"
proof -
  let ?a = "tri_init 100 (4 * PAGE) 4 20 False"
  let ?r = "alloc_mixed (\<lambda>_. 0) ?a (replicate 33 2 @ [4]) [34]"
  have f: "fst (projr ?r) = Some ([32..<64] @ [129, 130])" by code_simp
  have "isl ?r = False" by code_simp
  then have r: "?r = Inr (Some ([32..<64] @ [129, 130]), snd (projr ?r))"
    using f by (metis prod.collapse sum.collapse(2))
  have "full_page_tokens (replicate 33 2 @ [4]) [34] \<le> available_size_int2 ?a" by code_simp
  from conjunct1 [OF alloc_mixed_demotes_remainder [OF tri_inv_init r this, of 0]]
  have "map (\<lambda>s. s < offset ?a) (split_lens [34] ([32..<64] @ [129, 130]) ! 0)
      = keep_req (split_lens [34] (replicate 33 2 @ [4]) ! 0)" by simp
  moreover have "offset ?a = 128" by code_simp
  moreover have "keep_req (split_lens [34] (replicate 33 2 @ [4]) ! 0) = replicate 32 True @ [False, False]"
    by code_simp
  ultimately show ?thesis using f by (intro exI) auto
qed

text \<open>
  C6: when \<open>alloc_mixed\<close> succeeds.  It fails exactly when the INT4 slots do not cover the tokens left
  over after filling pages (the requests' whole pages, limited by the free pages); a failed call
  leaves the free lists and counters alone, except that the demotion statistic has already been
  increased by the tokens a later retry will count again.
\<close>

theorem alloc_mixed_succeeds_iff:
  assumes "bits \<noteq> []" and "sum_list lens = length bits"
  shows "if length bits \<le> available_size_int4 a + min (available_size_int2 a) (full_page_tokens bits lens)
    then \<exists>xs a'. alloc_mixed u a bits lens = Inr (Some xs, a')
    else alloc_mixed u a bits lens = Inr (None, a\<lparr>fallback_int2_to_int4 :=
        fallback_int2_to_int4 a + (full_page_tokens bits lens - available_size_int2 a)\<rparr>)"
proof -
  let ?n = "min (available_size_int2 a) (full_page_tokens bits lens)"
  have n: "n_kept a bits lens = ?n"
    by (simp add: n_kept_min [OF assms(2)] ntrue_keep_spec [OF assms(2)] available_size_int2_def)
  have d: "full_page_tokens bits lens - ?n = full_page_tokens bits lens - available_size_int2 a" by simp
  show ?thesis
    unfolding alloc_mixed_spec [OF assms] mixed_spec_def Let_def n ntrue_keep_spec [OF assms(2)]
      available_size_int4_def d by auto
qed

theorem alloc_mixed_succeeds_iff_witness:
  "alloc_mixed (\<lambda>_. 0) (tri_init 100 64 2 20 False) (replicate 64 2) [64]
   = Inr (None, (tri_init 100 64 2 20 False)\<lparr>fallback_int2_to_int4 := 32\<rparr>)"
proof -
  let ?a = "tri_init 100 64 2 20 False"
  have full: "full_page_tokens (replicate 64 2) [64] = 64" "available_size_int2 ?a = 32"
    "available_size_int4 ?a = 19" "fallback_int2_to_int4 ?a = 0" by code_simp+
  show ?thesis
    using alloc_mixed_succeeds_iff [of "replicate 64 2" "[64]" ?a "\<lambda>_. 0"] by (simp add: full)
qed



end
