(* ===== verification/Radix_Sys.thy ===== *)
theory Radix_Sys
  imports Radix_Req Radix_Tree Triaxial_Sys
begin

text \<open>
  The prefix cache together with its allocator and the running requests as a transition system: requests
  allocate and give back slots, look up, lock and unlock prefixes and insert their slots into the tree, and
  the cache evicts.  Every slot is owned by exactly one of the free lists, the tree and the requests, so the
  sizes that the scheduler reads always add up to the capacity.
\<close>

section \<open>The fresh cache\<close>

lemma rc_init_inv:
  assumes "0 < psz" "rc_init env dis psz evs eagle dfi policy = ret st"
  shows "radix_inv st {rc_root st} (\<lambda>_. []) (\<lambda>_. []) {#}" and "cache_slots st {rc_root st} = {#}"
    and "rc_disable st = dis" and "rc_page_size st = psz" and "rc_events st = evs"
proof -
  from assms(2) obtain strat where st: "st = rc_reset env
         \<lparr>rc_nodes = [], rc_root = 0, rc_disable = dis, rc_page_size = psz, rc_events = evs,
          rc_is_eagle = eagle, rc_disable_finished_insert = dfi, rc_strategy = strat,
          rc_evictable_leaves = {}, rc_evictable_size = 0, rc_protected_size = 0, rc_event_queue = [],
          rc_ticks = 0\<rparr>"
    by (auto simp: rc_init_def rbind_ret_iff)
  have f: "rc_root st = 0" "rc_disable st = dis" "rc_page_size st = psz" "rc_events st = evs" "rc_evictable_leaves st = {}"
    "rc_evictable_size st = 0" "rc_protected_size st = 0" "length (rc_nodes st) = 1"
    "n_key (node st 0) = RadixKey [] None False" "n_value (node st 0) = Some []" "n_lock_ref (node st 0) = 1"
    "n_hash_value (node st 0) = Some []" "n_children (node st 0) = []"
    unfolding st by (auto simp: rc_reset_def new_node_def read_clock_def record_all_cleared_event_def upd_def node_def
        TreeNode_def Let_def)
  show "rc_disable st = dis" "rc_page_size st = psz" "rc_events st = evs" using f by simp_all
  show "cache_slots st {rc_root st} = {#}" using f by (simp add: cache_slots_def)
  have "tree_inv st {0} (\<lambda>_. []) (\<lambda>_. [])" using f assms(1) by (simp add: tree_inv_def kids_ok_def RadixKey_def)
  moreover have "lock_inv st {0} {#}" using f by (simp add: lock_inv_def)
  moreover have "size_inv st {0}" using f by (simp add: size_inv_def)
  moreover have "leaf_inv st {0}" using f by (auto simp: leaf_inv_def)
  moreover have "hash_inv st {0}" using f by (simp add: hash_inv_def hash_ok_def RadixKey_def)
  ultimately show "radix_inv st {rc_root st} (\<lambda>_. []) (\<lambda>_. []) {#}" using f(1) by (simp add: radix_inv_def)
qed

lemma size_mset_sum: "size (\<Sum>n\<in>A. f n :: 'a multiset) = (\<Sum>n\<in>A. size (f n))"
  by (induction A rule: infinite_finite_induct) auto

lemma radix_inv_sizes:
  assumes "radix_inv st L pk pv H"
  shows "rc_evictable_size st + rc_protected_size st = int (size (cache_slots st L))"
    and "0 \<le> rc_evictable_size st" and "0 \<le> rc_protected_size st"
proof -
  have ti: "tree_inv st L pk pv" and si: "size_inv st L" using assms by (auto simp: radix_inv_def)
  have fin: "finite L" using ti by (rule radix_finite_live)
  let ?f = "\<lambda>n. int (length (toks st n))"
  let ?A = "{n. n \<in> L \<and> n \<noteq> rc_root st \<and> lock st n = 0}" and ?B = "{n. n \<in> L \<and> n \<noteq> rc_root st \<and> lock st n \<noteq> 0}"
  have "int (size (cache_slots st L)) = (\<Sum>n\<in>L. int (length (val st n)))"
    by (simp add: cache_slots_def size_mset_sum)
  also have "\<dots> = (\<Sum>n\<in>L. ?f n)"
  proof (rule sum.cong)
    fix n assume "n \<in> L"
    then show "int (length (val st n)) = ?f n"
      using tree_invD(8) [OF ti, of n] tree_invD(4,5) [OF ti] by (cases "n = rc_root st") (auto simp: node_ok_def)
  qed simp
  also have "\<dots> = (\<Sum>n\<in>L - {rc_root st}. ?f n)"
    using fin tree_invD(2,4) [OF ti] by (simp add: sum.remove [of L "rc_root st"])
  also have "L - {rc_root st} = ?A \<union> ?B" by auto
  also have "(\<Sum>n\<in>?A \<union> ?B. ?f n) = sum ?f ?A + sum ?f ?B"
    by (rule sum.union_disjoint) (use fin in auto)
  finally show "rc_evictable_size st + rc_protected_size st = int (size (cache_slots st L))"
    using si by (simp add: size_inv_def)
  show "0 \<le> rc_evictable_size st" "0 \<le> rc_protected_size st" using si by (auto simp: size_inv_def intro: sum_nonneg)
qed

section \<open>The transition system\<close>

record 'a cache_state =
  cs_tree :: radix
  cs_alloc :: 'a
  cs_locks :: "nat multiset"
  cs_held :: "slot set"

context slot_allocator
begin

text \<open>
  \<open>cs_locks\<close> are the nodes locked by requests, one entry per lock; \<open>cs_held\<close> the slots requests own
  outside the tree.  A request locks only nodes of the tree, unlocks what it has locked, gives back and
  inserts only its own slots.
\<close>

inductive cache_step :: "rt_env \<Rightarrow> 's cache_state \<Rightarrow> 's cache_state \<Rightarrow> bool" for env where
  step_match: "match_prefix env (cs_tree c) key = ret (st', vs, n) \<Longrightarrow> cache_step env c (c\<lparr>cs_tree := st'\<rparr>)"
| step_lock: "tpath (cs_tree c) n k v \<Longrightarrow> inc_lock_ref (cs_tree c) n = ret (st', d) \<Longrightarrow>
    cache_step env c (c\<lparr>cs_tree := st', cs_locks := add_mset n (cs_locks c)\<rparr>)"
| step_unlock: "cs_locks c = add_mset n H \<Longrightarrow> dec_lock_ref (cs_tree c) n = ret (st', d) \<Longrightarrow>
    cache_step env c (c\<lparr>cs_tree := st', cs_locks := H\<rparr>)"
| step_alloc: "alloc (cs_alloc c) n = (Some xs, al') \<Longrightarrow>
    cache_step env c (c\<lparr>cs_alloc := al', cs_held := cs_held c \<union> set xs\<rparr>)"
| step_free: "distinct xs \<Longrightarrow> set xs \<subseteq> cs_held c \<Longrightarrow> free (cs_alloc c) xs = Inr al' \<Longrightarrow>
    cache_step env c (c\<lparr>cs_alloc := al', cs_held := cs_held c - set xs\<rparr>)"
| step_insert: "maybe_bigram_convert (rc_is_eagle (cs_tree c)) key (Some v) = (k, Some w) \<Longrightarrow>
    rc_page_size (cs_tree c) dvd key_len k \<Longrightarrow> length w = key_len k \<Longrightarrow> hashable env (cs_tree c) (token_ids k) \<Longrightarrow>
    rc_insert env (cs_tree c) key (Some v) prio chunked = ret (st', plen) \<Longrightarrow>
    distinct (drop plen w) \<Longrightarrow> set (drop plen w) \<subseteq> cs_held c \<Longrightarrow>
    cache_step env c (c\<lparr>cs_tree := st', cs_held := cs_held c - set (drop plen w)\<rparr>)"
| step_evict: "rc_evict env free (cs_tree c) (cs_alloc c) num = ret (st', al', m) \<Longrightarrow>
    cache_step env c (c\<lparr>cs_tree := st', cs_alloc := al'\<rparr>)"

definition cache_ok :: "'s cache_state \<Rightarrow> bool" where
  "cache_ok c \<longleftrightarrow> \<not> rc_disable (cs_tree c)
     \<and> (\<exists>L pk pv C. radix_inv (cs_tree c) L pk pv (cs_locks c) \<and> holds (cs_alloc c) (cs_tree c) L C (cs_held c))"

definition cache_total :: "'s cache_state \<Rightarrow> int" where
  "cache_total c = avail (cs_alloc c) + rc_evictable_size (cs_tree c) + rc_protected_size (cs_tree c) + int (card (cs_held c))"

lemma holds_move:
  assumes "holds al st L C R" "distinct xs" "set xs \<subseteq> R" "cache_slots st' L' = cache_slots st L + mset xs"
  shows "holds al st' L' (C \<union> set xs) (R - set xs)"
proof -
  have "C \<inter> R = {}" using assms(1) by (simp add: holds_def)
  then have d: "C \<inter> set xs = {}" "C \<union> set xs \<union> (R - set xs) = C \<union> R" using assms(3) by auto
  have "mset_set (C \<union> set xs) = mset_set C + mset_set (set xs)"
    by (rule mset_set_Union) (use holds_finite [OF assms(1)] d in auto)
  then show ?thesis using assms d by (auto simp: holds_def mset_set_set)
qed

lemma cache_total_inv:
  assumes "radix_inv st L pk pv H" "holds al st L C R"
  shows "rc_evictable_size st + rc_protected_size st = int (card C)" "finite R" "inv al (C \<union> R)" "C \<inter> R = {}"
  using radix_inv_sizes(1) [OF assms(1)] assms(2) inv_finite [of al "C \<union> R"] by (auto simp: holds_def)

lemma config_disable: "config st' = config st \<Longrightarrow> rc_disable st' = rc_disable st"
  by (simp add: config_def)

lemma cache_stepI:
  assumes "radix_inv st' L' pk' pv' H'" "holds al' st' L' C' R'" "config st' = config (cs_tree c)" "cache_ok c"
    and "avail al' + int (card C') + int (card R') = cache_total c"
  shows "cache_ok \<lparr>cs_tree = st', cs_alloc = al', cs_locks = H', cs_held = R'\<rparr>
    \<and> cache_total \<lparr>cs_tree = st', cs_alloc = al', cs_locks = H', cs_held = R'\<rparr> = cache_total c"
  using assms cache_total_inv [OF assms(1,2)] config_disable [OF assms(3)] by (auto simp: cache_ok_def cache_total_def)

lemma holds_sub:
  assumes "holds al st L C R" "cache_slots st' L' = cache_slots st L"
  shows "holds al st' L' C R"
  using assms by (simp add: holds_def)

lemma cache_step_inv:
  assumes step: "cache_step env c c'" and ok: "cache_ok c" and od: "order_ok env"
  shows "cache_ok c' \<and> cache_total c' = cache_total c"
proof -
  obtain st al H R where c: "c = \<lparr>cs_tree = st, cs_alloc = al, cs_locks = H, cs_held = R\<rparr>" by (cases c) auto
  from ok obtain L pk pv C where ri: "radix_inv st L pk pv H" and ho: "holds al st L C R" and en: "\<not> rc_disable st"
    by (auto simp: cache_ok_def c)
  note tot = cache_total_inv [OF ri ho]
  have T: "cache_total c = avail al + int (card C) + int (card R)" using tot by (simp add: cache_total_def c)
  from step show ?thesis
  proof cases
    case (step_match key st' vs n)
    from match_prefix_spec [OF ri en, of env key] step_match obtain L' pk' pv' where
      "radix_inv st' L' pk' pv' H" "extends st L pk pv st' L' pk' pv'" by (auto simp: c)
    then show ?thesis using step_match cache_stepI [OF _ holds_sub [OF ho] _ ok] T by (auto simp: c extends_def)
  next
    case (step_lock n k v st' d)
    have "n \<in> L" using step_lock(2) tpath_iff [of st L pk pv] ri by (auto simp: c radix_inv_def)
    from inc_lock_ref_spec [OF ri this en] step_lock have "radix_inv st' L pk pv (add_mset n H)" "same_tree st st'"
      by (auto simp: c)
    then show ?thesis using step_lock cache_stepI [OF _ holds_sub [OF ho] _ ok] T same_tree_slots
      by (auto simp: c same_tree_def)
  next
    case (step_unlock n H' st' d)
    then have "H = add_mset n H'" by (simp add: c)
    from dec_lock_ref_spec [OF ri [unfolded this] en] step_unlock have "radix_inv st' L pk pv H'" "same_tree st st'"
      by (auto simp: c)
    then show ?thesis using step_unlock cache_stepI [OF _ holds_sub [OF ho] _ ok] T same_tree_slots
      by (auto simp: c same_tree_def)
  next
    case (step_alloc n xs al')
    then have "alloc al n = (Some xs, al')" by (simp add: c)
    from alloc_Some [OF tot(3) this] have a: "length xs = n" "distinct xs" "set xs \<inter> (C \<union> R) = {}"
      "inv al' (C \<union> (R \<union> set xs))" "avail al' = avail al - int n" by (auto simp: Un_assoc)
    have "card (R \<union> set xs) = card R + n"
      using a tot(2) by (subst card_Un_disjoint) (auto simp: distinct_card)
    moreover have "holds al' st L C (R \<union> set xs)" using a ho tot(4) by (auto simp: holds_def)
    ultimately show ?thesis using step_alloc cache_stepI [OF ri _ _ ok] T a(5) by (auto simp: c)
  next
    case (step_free xs al')
    then have x: "distinct xs" "set xs \<subseteq> R" "free al xs = Inr al'" by (auto simp: c)
    from free_live [OF tot(3) x(1)] x have a: "inv al' (C \<union> R - set xs)" "avail al' = avail al + int (length xs)" by auto
    have "C \<union> R - set xs = C \<union> (R - set xs)" using x tot(4) by auto
    then have "holds al' st L C (R - set xs)" using a ho tot(4) by (auto simp: holds_def)
    moreover have "card (R - set xs) + length xs = card R"
      using x tot(2) by (metis card_Diff_subset card_mono distinct_card finite_set le_add_diff_inverse2)
    ultimately show ?thesis using step_free cache_stepI [OF ri _ _ ok] T a(2) by (auto simp: c)
  next
    case (step_insert key v k w prio chunked st' plen)
    then have x: "maybe_bigram_convert (rc_is_eagle st) key (Some v) = (k, Some w)" "rc_page_size st dvd key_len k"
      "length w = key_len k" "hashable env st (token_ids k)" "rc_insert env st key (Some v) prio chunked = ret (st', plen)"
      "distinct (drop plen w)" "set (drop plen w) \<subseteq> R" by (auto simp: c)
    from rc_insert_spec [OF ri en x(1-4), of prio chunked] x(5) obtain L' pk' pv' where
      i: "radix_inv st' L' pk' pv' H" "config st' = config st" "cache_slots st' L' = cache_slots st L + mset (drop plen w)"
      by auto
    note h = holds_move [OF ho x(6,7) i(3)]
    have "card (C \<union> set (drop plen w)) = card C + length (drop plen w)"
      using holds_finite [OF ho] tot(4) x(6,7) by (subst card_Un_disjoint) (auto simp: distinct_card)
    moreover have "card (R - set (drop plen w)) + length (drop plen w) = card R"
      using x(6,7) tot(2) by (metis card_Diff_subset card_mono distinct_card finite_set le_add_diff_inverse2)
    ultimately show ?thesis using step_insert cache_stepI [OF i(1) h _ ok] T i(2) by (auto simp: c)
  next
    case (step_evict num st' al' m)
    from rc_evict_spec [OF ri ho en od, of num] step_evict obtain L' C' where
      e: "radix_inv st' L' pk pv H" "pruned st L st' L'" "holds al' st' L' C' R" "m + card C' = card C"
        "avail al' = avail al + int m" by (auto simp: c)
    then show ?thesis using step_evict cache_stepI [OF e(1,3) _ ok] T by (auto simp: c pruned_def)
  qed
qed

lemma cache_steps_inv:
  assumes "(cache_step env)\<^sup>*\<^sup>* c c'" "cache_ok c" "order_ok env"
  shows "cache_ok c' \<and> cache_total c' = cache_total c"
  using assms(1,2) by (induction rule: rtranclp_induct) (use cache_step_inv assms(3) in force)+

lemma cache_start:
  assumes "0 < psz" "rc_init env False psz evs eagle dfi policy = ret st" "inv al {}"
  shows "cache_ok \<lparr>cs_tree = st, cs_alloc = al, cs_locks = {#}, cs_held = {}\<rparr>"
proof -
  have "radix_inv st {rc_root st} (\<lambda>_. []) (\<lambda>_. []) {#}" "holds al st {rc_root st} {} {}" "\<not> rc_disable st"
    using rc_init_inv [OF assms(1,2)] assms(3) by (auto simp: holds_def)
  then show ?thesis unfolding cache_ok_def by auto
qed

end

section \<open>The TriAxialKV system\<close>

text \<open>The steps of the cache over the TriAxialKV allocator, with its mixed allocation for prefill.\<close>

inductive tri_cache_step :: "rt_env \<Rightarrow> tri_state cache_state \<Rightarrow> tri_state cache_state \<Rightarrow> bool" for env where
  tri_plain: "tri.cache_step env c c' \<Longrightarrow> tri_cache_step env c c'"
| tri_mixed: "alloc_mixed uninit (cs_alloc c) bits lens = Inr (Some xs, al') \<Longrightarrow>
    tri_cache_step env c (c\<lparr>cs_alloc := al', cs_held := cs_held c \<union> set xs\<rparr>)"

lemma tri_open_size: "tri_open a L \<Longrightarrow> tri_available_size a + int (card L) = int (usable_slots a)"
  using tri_inv_exact_size by (auto simp: tri_open_def)

lemma tri_cache_step_inv:
  assumes "tri_cache_step env c c'" and ok: "tri.cache_ok c" and "order_ok env"
  shows "tri.cache_ok c' \<and> tri.cache_total c' = tri.cache_total c"
  using assms(1)
proof cases
  case tri_plain
  then show ?thesis using tri.cache_step_inv ok assms(3) by blast
next
  case (tri_mixed uninit bits lens xs al')
  obtain st al H R where c: "c = \<lparr>cs_tree = st, cs_alloc = al, cs_locks = H, cs_held = R\<rparr>" by (cases c) auto
  from ok obtain L pk pv C where ri: "radix_inv st L pk pv H" and ho: "tri.holds al st L C R"
    by (auto simp: tri.cache_ok_def c)
  note tot = tri.cache_total_inv [OF ri ho]
  from alloc_mixed_SomeD [of al "C \<union> R" uninit bits lens xs al'] alloc_mixed_frame [of uninit al bits lens] tri_mixed tot(3)
  have a: "distinct xs" "set xs \<inter> (C \<union> R) = {}" "tri_open al' (C \<union> R \<union> set xs)" "usable_slots al' = usable_slots al"
    by (auto simp: c tri_open_def usable_slots_def)
  have "card (R \<union> set xs) = card R + card (set xs)" using a tot(2) by (intro card_Un_disjoint) auto
  moreover have "card (C \<union> R \<union> set xs) = card (C \<union> R) + card (set xs)"
    using a tot(2) tri.holds_finite [OF ho] by (intro card_Un_disjoint) auto
  ultimately have "tri_available_size al' + int (card (R \<union> set xs)) = tri_available_size al + int (card R)"
    using tri_open_size [OF a(3)] tri_open_size [OF tot(3)] a(4) by linarith
  moreover have "tri.holds al' st L C (R \<union> set xs)" using a ho tot(4) by (auto simp: tri.holds_def Un_assoc)
  ultimately show ?thesis using tri_mixed tri.cache_stepI [OF ri _ _ ok] tot by (auto simp: c tri.cache_total_def)
qed

lemma tri_cache_steps_inv:
  assumes "(tri_cache_step env)\<^sup>*\<^sup>* c c'" "tri.cache_ok c" "order_ok env"
  shows "tri.cache_ok c' \<and> tri.cache_total c' = tri.cache_total c"
  using assms(1,2) by (induction rule: rtranclp_induct) (use tri_cache_step_inv assms(3) in force)+

end
