(* ===== verification/Radix_Props.thy ===== *)
theory Radix_Props
  imports Radix_Sys
begin

text \<open>The properties of the radix cache, with concrete instances.\<close>

section \<open>Evaluation and samples\<close>

declare match_pages.simps [code] match_loop.simps [code] insert_loop.simps [code] evict_loop.simps [code]
  inc_lock_loop.simps [code] dec_lock_loop.simps [code] dfs_values.simps [code] total_size_loop.simps [code]

definition sample_env :: rt_env where
  "sample_env = \<lparr>monotonic = int, sha256_hex = (\<lambda>_. replicate 64 (CHR ''0'')), set_order = sorted_list_of_set\<rparr>"

definition sample_tree :: radix where
  "sample_tree = rc_reset sample_env
     \<lparr>rc_nodes = [], rc_root = 0, rc_disable = False, rc_page_size = 1, rc_events = False,
      rc_is_eagle = False, rc_disable_finished_insert = False, rc_strategy = LRUStrategy,
      rc_evictable_leaves = {}, rc_evictable_size = 0, rc_protected_size = 0, rc_event_queue = [], rc_ticks = 0\<rparr>"

definition sample_key :: radix_key where
  "sample_key = RadixKey [Tok 7, Tok 8] None False"

definition sample_full :: radix where
  "sample_full = (case rc_insert sample_env sample_tree sample_key (Some [129, 130]) None False of
     Some (Inr (st, n)) \<Rightarrow> st | _ \<Rightarrow> sample_tree)"

lemma sample_order_ok: "order_ok sample_env"
  by (simp add: order_ok_def sample_env_def)

lemma sample_init: "rc_init sample_env False 1 False False False ''lru'' = ret sample_tree"
  by (simp add: rc_init_def sample_tree_def eviction_strategy_def char_lower_def)

lemma sample_insert: "rc_insert sample_env sample_tree sample_key (Some [129, 130]) None False = ret (sample_full, 0)"
  by code_simp

lemma sample_match: "\<exists>st. match_prefix sample_env sample_full sample_key = ret (st, [129, 130], 1)"
proof -
  have "map_option (map_sum id snd) (match_prefix sample_env sample_full sample_key) = Some (Inr ([129, 130], 1))" by code_simp
  then show ?thesis by (cases "match_prefix sample_env sample_full sample_key"; cases "the (match_prefix sample_env sample_full sample_key)")
      (auto simp: ret_def)
qed

lemma sample_ok: "radix_ok sample_tree {#}" "radix_ok sample_full {#}"
proof -
  note i = rc_init_inv [OF _ sample_init]
  have ri: "radix_inv sample_tree {rc_root sample_tree} (\<lambda>_. []) (\<lambda>_. []) {#}" "\<not> rc_disable sample_tree"
    "rc_page_size sample_tree = 1" "\<not> rc_events sample_tree" using i by auto
  then show "radix_ok sample_tree {#}" by (auto simp: radix_ok_def)
  have kv: "maybe_bigram_convert (rc_is_eagle sample_tree) sample_key (Some [129, 130]) = (sample_key, Some [129, 130])"
    by (simp add: maybe_bigram_convert_def sample_key_def RadixKey_def sample_tree_def rc_reset_def new_node_def read_clock_def
        record_all_cleared_event_def upd_def)
  from rc_insert_spec [OF ri(1,2) kv, of sample_env None False] ri(3,4) sample_insert
  show "radix_ok sample_full {#}" by (auto simp: radix_ok_def sample_key_def RadixKey_def key_len_def hashable_def)
qed

definition sample_state :: "tri_state cache_state" where
  "sample_state = \<lparr>cs_tree = sample_full, cs_alloc = snd (tri_alloc (tri_init 100 (4 * PAGE) 4 20 False) 2),
     cs_locks = {#}, cs_held = {}\<rparr>"

lemma sample_cache_run:
  "(tri_cache_step sample_env)\<^sup>*\<^sup>* \<lparr>cs_tree = sample_tree, cs_alloc = tri_init 100 (4 * PAGE) 4 20 False, cs_locks = {#},
     cs_held = {}\<rparr> sample_state"
proof -
  let ?a = "tri_init 100 (4 * PAGE) 4 20 False"
  let ?c0 = "\<lparr>cs_tree = sample_tree, cs_alloc = ?a, cs_locks = {#}, cs_held = {}\<rparr>"
  let ?c1 = "\<lparr>cs_tree = sample_tree, cs_alloc = snd (tri_alloc ?a 2), cs_locks = {#}, cs_held = {129, 130}\<rparr>"
  have al: "fst (tri_alloc ?a 2) = Some [129, 130]" by code_simp
  then have "tri_alloc ?a 2 = (Some [129, 130], snd (tri_alloc ?a 2))" by (metis prod.collapse)
  from tri.step_alloc [of ?c0 2 "[129, 130]" "snd (tri_alloc ?a 2)" sample_env] this
  have s1: "tri_cache_step sample_env ?c0 ?c1" by (auto intro!: tri_plain)
  have "rc_page_size sample_tree = 1" "\<not> rc_events sample_tree" "rc_is_eagle sample_tree = False" by code_simp+
  then have "tri.cache_step sample_env ?c1 (?c1\<lparr>cs_tree := sample_full, cs_held := cs_held ?c1 - set (drop 0 [129, 130])\<rparr>)"
    using tri.step_insert [of ?c1 sample_key "[129, 130]" sample_key "[129, 130]" sample_env None False sample_full 0] sample_insert
    by (auto simp: maybe_bigram_convert_def sample_key_def RadixKey_def key_len_def hashable_def)
  then have s2: "tri_cache_step sample_env ?c1 sample_state" by (auto simp: sample_state_def intro!: tri_plain)
  from s1 s2 show ?thesis by (meson r_into_rtranclp rtranclp.rtrancl_into_rtrancl)
qed

lemma sample_state_ok: "tri.cache_ok sample_state"
proof -
  have "tri.cache_ok \<lparr>cs_tree = sample_tree, cs_alloc = tri_init 100 (4 * PAGE) 4 20 False, cs_locks = {#}, cs_held = {}\<rparr>"
    by (rule tri.cache_start [OF _ sample_init])
      (use tri_inv_init [of 4 100 20 False] in \<open>simp_all add: tri_open_def tri_init_def tri_clear_def\<close>)
  then show ?thesis using tri_cache_steps_inv [OF sample_cache_run _ sample_order_ok] by blast
qed

section \<open>Accounting\<close>

text \<open>
  C21: the size equation behind the idle-time leak check of the scheduler.  Start from a fresh TriAxialKV
  allocator and an empty radix cache with any page size and eviction policy; let requests allocate (plain or
  mixed) and give back slots, match, lock, unlock and insert prefixes, and let the cache evict, in any order.
  Then available plus evictable plus protected tokens plus the slots held by requests is the number of usable
  slots, the two cache sizes are not negative, and without locks nothing is protected.
\<close>

theorem cache_accounting:
  assumes init: "rc_init env False psz evs eagle dfi policy = ret st0" "0 < psz" and od: "order_ok env" and np2: "0 < np2"
    and run: "(tri_cache_step env)\<^sup>*\<^sup>*
      \<lparr>cs_tree = st0, cs_alloc = tri_init sz (np2 * PAGE) np2 s4 srt, cs_locks = {#}, cs_held = {}\<rparr> c"
  shows "tri_available_size (cs_alloc c) + rc_evictable_size (cs_tree c) + rc_protected_size (cs_tree c)
      + int (card (cs_held c)) = int ((np2 - 1) * PAGE + (s4 - 1))
    \<and> 0 \<le> rc_evictable_size (cs_tree c) \<and> 0 \<le> rc_protected_size (cs_tree c)
    \<and> (cs_locks c = {#} \<longrightarrow> rc_protected_size (cs_tree c) = 0)"
proof -
  let ?a = "tri_init sz (np2 * PAGE) np2 s4 srt"
  have a: "tri_open ?a {}" using tri_inv_init [OF np2, of sz s4 srt]
    by (simp add: tri_open_def tri_init_def tri_clear_def)
  note start = tri.cache_start [OF init(2,1) a]
  note fin = tri_cache_steps_inv [OF run start od]
  have "tri_available_size ?a = int ((np2 - 1) * PAGE + (s4 - 1))"
    using tri_open_size [OF a] by (simp add: usable_slots_def tri_init_def tri_clear_def)
  moreover have "rc_evictable_size st0 + rc_protected_size st0 = 0"
    using radix_inv_sizes(1) [OF rc_init_inv(1) [OF init(2,1)]] rc_init_inv(2) [OF init(2,1)] by simp
  ultimately have "tri.cache_total c = int ((np2 - 1) * PAGE + (s4 - 1))"
    using fin by (simp add: tri.cache_total_def)
  moreover obtain L pk pv where ri: "radix_inv (cs_tree c) L pk pv (cs_locks c)"
    using fin by (auto simp: tri.cache_ok_def)
  ultimately show ?thesis using radix_inv_sizes(2,3) [OF ri] unlocked_tree [of "cs_tree c" L pk pv] ri
    by (auto simp: tri.cache_total_def)
qed

theorem cache_accounting_witness:
  "tri_available_size (cs_alloc sample_state) + rc_evictable_size sample_full + rc_protected_size sample_full = 115"
  using cache_accounting [OF sample_init _ sample_order_ok _ sample_cache_run] by (simp add: PAGE_def sample_state_def)

section \<open>Lookup and insertion\<close>

text \<open>
  C22: \<open>match_prefix\<close> always returns and finds the longest cached prefix.  \<open>lookup_key\<close> is the page-aligned
  (and, for EAGLE, bigram) form of the key; \<open>cached st e ts vs\<close> says that the tree stores the slots \<open>vs\<close> for
  the token sequence \<open>ts\<close> in the name space \<open>e\<close>.  The returned slots are those of a page-aligned prefix of
  the key, every cached page-aligned prefix of the key is a prefix of it with the same slots, the returned node
  ends exactly there (the tree is split if necessary), and the content of the cache does not change.
\<close>

theorem match_prefix_longest:
  assumes "radix_ok st H" "\<not> rc_disable st"
  shows "\<exists>st' vs n. match_prefix env st key = ret (st', vs, n) \<and> radix_ok st' H
    \<and> length vs \<le> length (lookup_key st key)
    \<and> cached st (extra_key key) (take (length vs) (lookup_key st key)) vs
    \<and> tpath st' n (take (length vs) (lookup_key st key)) vs
    \<and> (\<forall>l ws. rc_page_size st dvd l \<and> l \<le> length (lookup_key st key)
          \<and> cached st (extra_key key) (take l (lookup_key st key)) ws \<longrightarrow> l \<le> length vs \<and> ws = take l vs)
    \<and> (\<forall>e ts ws. cached st' e ts ws \<longleftrightarrow> cached st e ts ws)"
  using match_prefix_longest_cached [OF assms, of env key] by (elim exE conjE) (intro exI conjI, assumption+)

theorem match_prefix_longest_witness:
  "\<not> rc_disable sample_full \<and> (\<exists>st'. match_prefix sample_env sample_full sample_key = ret (st', [129, 130], 1)
     \<and> cached sample_full None (take 2 (lookup_key sample_full sample_key)) [129, 130] \<and> radix_ok st' {#})"
proof -
  have en: "\<not> rc_disable sample_full" by code_simp
  from match_prefix_longest [OF sample_ok(2) en, of sample_env sample_key] sample_match en
  show ?thesis by (auto simp: sample_key_def RadixKey_def numeral_2_eq_2)
qed

lemma rc_insert_ok:
  assumes "radix_ok st H" "\<not> rc_disable st"
    and "maybe_bigram_convert (rc_is_eagle st) key (Some v) = (k, Some w)"
    and "rc_page_size st dvd key_len k" "length w = key_len k" "hashable env st (token_ids k)"
  obtains st' plen old where "rc_insert env st key (Some v) prio chunked = ret (st', plen)" "radix_ok st' H"
    "config st' = config st" "plen \<le> key_len k" "length old = plen" "cached st (extra_key k) (take plen (token_ids k)) old"
    "\<forall>l ws. rc_page_size st dvd l \<and> l \<le> key_len k \<and> cached st (extra_key k) (take l (token_ids k)) ws \<longrightarrow> l \<le> plen"
    "\<forall>e ts ws. cached st' e ts ws \<longleftrightarrow> cached st e ts ws
          \<or> e = extra_key k \<and> prefix ts (token_ids k) \<and> ws = take (length ts) (old @ drop plen w)"
proof -
  from assms(1) obtain L pk pv where ri: "radix_inv st L pk pv H" by (auto simp: radix_ok_def)
  from rc_insert_spec [OF ri assms(2-6), of prio chunked] show thesis
  proof (elim exE conjE)
    fix st' plen old L' pk' pv'
    assume r: "rc_insert env st key (Some v) prio chunked = ret (st', plen)" and i: "radix_inv st' L' pk' pv' H"
      and f: "config st' = config st" "plen \<le> key_len k" "length old = plen" "cached st (extra_key k) (take plen (token_ids k)) old"
      and m: "\<forall>l ws. rc_page_size st dvd l \<and> l \<le> key_len k \<and> cached st (extra_key k) (take l (token_ids k)) ws
          \<longrightarrow> l \<le> plen \<and> ws = take l old"
      and c: "\<forall>e ts ws. cached st' e ts ws \<longleftrightarrow> cached st e ts ws
          \<or> e = extra_key k \<and> prefix ts (token_ids k) \<and> ws = take (length ts) (old @ drop plen w)"
    show thesis
    proof (rule that [OF r _ f _ c])
      show "radix_ok st' H" using i by (auto simp: radix_ok_def)
      show "\<forall>l ws. rc_page_size st dvd l \<and> l \<le> key_len k \<and> cached st (extra_key k) (take l (token_ids k)) ws \<longrightarrow> l \<le> plen"
        using m by blast
    qed
  qed
qed

text \<open>
  C23: what \<open>insert\<close> does to the content of the cache.  For a page-aligned key with as many slots, the call
  returns the length \<open>plen\<close> of the longest prefix that was cached before; the cache then stores, besides what
  it stored before, exactly the prefixes of the new key, with the old slots up to \<open>plen\<close> and the new ones behind.
\<close>

theorem insert_content:
  assumes "radix_ok st H" "\<not> rc_disable st"
    and "maybe_bigram_convert (rc_is_eagle st) key (Some v) = (k, Some w)"
    and "rc_page_size st dvd key_len k" "length w = key_len k" "hashable env st (token_ids k)"
  shows "\<exists>st' plen old. rc_insert env st key (Some v) prio chunked = ret (st', plen) \<and> radix_ok st' H
    \<and> plen \<le> key_len k \<and> length old = plen \<and> cached st (extra_key k) (take plen (token_ids k)) old
    \<and> (\<forall>l ws. rc_page_size st dvd l \<and> l \<le> key_len k \<and> cached st (extra_key k) (take l (token_ids k)) ws \<longrightarrow> l \<le> plen)
    \<and> (\<forall>e ts ws. cached st' e ts ws \<longleftrightarrow> cached st e ts ws
          \<or> e = extra_key k \<and> prefix ts (token_ids k) \<and> ws = take (length ts) (old @ drop plen w))"
  by (rule rc_insert_ok [OF assms, of prio chunked]) (intro exI conjI, assumption+)

lemma sample_convert:
  "maybe_bigram_convert (rc_is_eagle sample_tree) sample_key (Some [129, 130]) = (sample_key, Some [129, 130])"
  "rc_page_size sample_tree dvd key_len sample_key" "length [129, 130 :: nat] = key_len sample_key"
  "hashable sample_env sample_tree (token_ids sample_key)" "\<not> rc_disable sample_tree"
proof -
  have "rc_page_size sample_tree = 1" "\<not> rc_events sample_tree" "rc_is_eagle sample_tree = False" "\<not> rc_disable sample_tree"
    by code_simp+
  then show "maybe_bigram_convert (rc_is_eagle sample_tree) sample_key (Some [129, 130]) = (sample_key, Some [129, 130])"
    "rc_page_size sample_tree dvd key_len sample_key" "length [129, 130 :: nat] = key_len sample_key"
    "hashable sample_env sample_tree (token_ids sample_key)" "\<not> rc_disable sample_tree"
    by (simp_all add: maybe_bigram_convert_def sample_key_def RadixKey_def key_len_def hashable_def)
qed

theorem insert_content_witness:
  "cached sample_full None [Tok 7] [129] \<and> rc_insert sample_env sample_tree sample_key (Some [129, 130]) None False = ret (sample_full, 0)"
proof -
  from insert_content [OF sample_ok(1) sample_convert(5,1-4), of None False] sample_insert
  have "cached sample_full None [Tok 7] (take (length [Tok 7]) [129, 130])"
    by (auto simp: sample_key_def RadixKey_def)
  then show ?thesis using sample_insert by simp
qed

text \<open>
  C24: a lookup right after an insertion of the same page-aligned key returns the whole key: all its slots, the
  newly inserted ones behind the previously cached prefix.
\<close>

theorem insert_then_match:
  assumes "radix_ok st H" "\<not> rc_disable st"
    and "maybe_bigram_convert (rc_is_eagle st) key (Some v) = (k, Some w)"
    and "rc_page_size st dvd key_len k" "length w = key_len k" "hashable env st (token_ids k)"
  shows "\<exists>st' plen st'' vs n. rc_insert env st key (Some v) prio chunked = ret (st', plen)
    \<and> match_prefix env' st' key = ret (st'', vs, n) \<and> length vs = key_len k \<and> drop plen vs = drop plen w"
proof -
  obtain st' plen old where
    i: "rc_insert env st key (Some v) prio chunked = ret (st', plen)" "radix_ok st' H" "config st' = config st"
      "plen \<le> key_len k" "length old = plen"
      "\<forall>e ts ws. cached st' e ts ws \<longleftrightarrow> cached st e ts ws
          \<or> e = extra_key k \<and> prefix ts (token_ids k) \<and> ws = take (length ts) (old @ drop plen w)"
    by (rule rc_insert_ok [OF assms, of prio chunked])
  have c: "rc_disable st' = rc_disable st" "rc_is_eagle st' = rc_is_eagle st" "rc_page_size st' = rc_page_size st"
    using i(3) by (simp_all add: config_def)
  have k: "extra_key key = extra_key k" "token_ids (fst (maybe_bigram_convert (rc_is_eagle st) key None)) = token_ids k"
    using assms(3) by (auto simp: maybe_bigram_convert_def Let_def split: if_splits)
  have lk: "lookup_key st' key = token_ids k"
    using assms(4) by (auto simp: lookup_key_def c k page_align_keys_def key_len_def)
  have "cached st' (extra_key k) (token_ids k) (take (length (token_ids k)) (old @ drop plen w))" using i(6) by blast
  then have ca: "cached st' (extra_key key) (take (key_len k) (lookup_key st' key)) (old @ drop plen w)"
    using i(4,5) assms(5) by (simp add: lk k key_len_def)
  have "\<not> rc_disable st'" using assms(2) c(1) by simp
  from match_prefix_longest_cached [OF i(2) this, of env' key, unfolded lk] obtain st'' vs n where
    m: "match_prefix env' st' key = ret (st'', vs, n)" "length vs \<le> length (token_ids k)"
      "\<forall>l ws. rc_page_size st' dvd l \<and> l \<le> length (token_ids k) \<and> cached st' (extra_key key) (take l (token_ids k)) ws
        \<longrightarrow> l \<le> length vs \<and> ws = take l vs" by (elim exE conjE) (rule that)
  from m(3) ca assms(4) c have "key_len k \<le> length vs" "old @ drop plen w = take (key_len k) vs"
    by (auto simp: lk key_len_def)
  then have "length vs = key_len k" "vs = old @ drop plen w" using m(2) by (simp_all add: key_len_def)
  then show ?thesis using i(1,5) m(1) by auto
qed

theorem insert_then_match_witness:
  "\<exists>st'' vs n. match_prefix sample_env sample_full sample_key = ret (st'', vs, n) \<and> length vs = 2 \<and> drop 0 vs = [129, 130]"
  using insert_then_match [OF sample_ok(1) sample_convert(5,1-4), of None False sample_env] sample_insert
  by (auto simp: sample_key_def RadixKey_def key_len_def)

section \<open>Eviction and locks\<close>

lemma locked_node:
  assumes "radix_inv st L pk pv H" "n \<in># H" "n \<noteq> rc_root st"
  shows "n \<in> L" "lock st n \<noteq> 0"
proof -
  have ti: "tree_inv st L pk pv" and li: "lock_inv st L H" using assms(1) by (auto simp: radix_inv_def)
  show nL: "n \<in> L" using li assms(2) by (auto simp: lock_inv_def)
  have "0 \<le> lock st c" if "c \<in> set (kid_set st n)" for c
  proof -
    have "lock_ok st H c" using kid_facts(1,2) [OF ti nL that] li by (simp add: lock_inv_def)
    then show ?thesis unfolding lock_ok_def by (rule conjunct1)
  qed
  then have "0 \<le> (\<Sum>c\<leftarrow>kid_set st n. lock st c)" by (rule sum_list_nonneg_int)
  moreover have "lock st n = int (count H n) + (\<Sum>c\<leftarrow>kid_set st n. lock st c)"
    using li nL assms(3) by (simp add: lock_inv_def lock_ok_def)
  ultimately show "lock st n \<noteq> 0" using assms(2) by (simp add: count_greater_zero_iff [symmetric] del: count_greater_zero_iff)
qed

lemma pruned_cached:
  assumes ti: "tree_inv st L pk pv" and ti': "tree_inv st' L' pk pv" and p: "pruned st L st' L'" and c: "cached st' e ts vs"
  shows "cached st e ts vs"
proof -
  from c obtain n where n: "n \<in> L'" "n = rc_root st' \<or> ext st' n = e" "prefix ts (pk n)" "vs = take (length ts) (pv n)"
    unfolding cached_iff [OF ti'] by blast
  have "n \<in> L" "ext st' n = ext st n" "rc_root st' = rc_root st" using p n(1) by (auto simp: pruned_def config_def)
  then show ?thesis unfolding cached_iff [OF ti] using n by auto
qed

lemma pruned_locked:
  assumes ri: "radix_inv st L pk pv H" and ti': "tree_inv st' L' pk pv" and p: "pruned st L st' L'"
    and x: "x \<in># H" "tpath st x k v"
  shows "tpath st' x k v"
proof -
  have ti: "tree_inv st L pk pv" using ri by (simp add: radix_inv_def)
  have k: "x \<in> L" "k = pk x" "v = pv x" using x(2) tpath_iff [OF ti] by auto
  have "x \<in> L'"
  proof (cases "x = rc_root st")
    case True
    then show ?thesis using tree_invD(2) [OF ti'] p by (simp add: pruned_def config_def)
  next
    case False
    then show ?thesis using locked_node [OF ri x(1)] p by (simp add: pruned_def)
  qed
  then show ?thesis using tpath_iff [OF ti'] k by simp
qed

text \<open>
  C25: \<open>evict\<close> over the TriAxialKV allocator always returns; it frees the requested number of tokens or everything
  that is not locked; each evicted token becomes available, so the system stays consistent; a path that a request
  has locked keeps all its tokens and slots; and nothing is added to the content.
\<close>

theorem evict_frees_unlocked:
  assumes ok: "tri.cache_ok c" and od: "order_ok env"
  shows "\<exists>st' al' m. rc_evict env tri_free (cs_tree c) (cs_alloc c) num = ret (st', al', m)
    \<and> tri.cache_ok (c\<lparr>cs_tree := st', cs_alloc := al'\<rparr>)
    \<and> (num \<le> int m \<or> rc_evictable_size st' = 0)
    \<and> rc_evictable_size st' = rc_evictable_size (cs_tree c) - int m
    \<and> tri_available_size al' = tri_available_size (cs_alloc c) + int m
    \<and> (\<forall>x k v. x \<in># cs_locks c \<and> tpath (cs_tree c) x k v \<longrightarrow> tpath st' x k v)
    \<and> (\<forall>e ts vs. cached st' e ts vs \<longrightarrow> cached (cs_tree c) e ts vs)"
proof -
  from ok obtain L pk pv C where en: "\<not> rc_disable (cs_tree c)" and ri: "radix_inv (cs_tree c) L pk pv (cs_locks c)"
    and ho: "tri.holds (cs_alloc c) (cs_tree c) L C (cs_held c)" by (auto simp: tri.cache_ok_def)
  from tri.rc_evict_spec [OF ri ho en od, of num] obtain st' al' m L' C' where
    e: "rc_evict env tri_free (cs_tree c) (cs_alloc c) num = ret (st', al', m)" "radix_inv st' L' pk pv (cs_locks c)"
      "pruned (cs_tree c) L st' L'" "tri_available_size al' = tri_available_size (cs_alloc c) + int m"
      "rc_evictable_size st' + int m = rc_evictable_size (cs_tree c)" "num \<le> int m \<or> rc_evictable_size st' = 0"
    by (elim exE conjE) (rule that)
  have "tri.cache_ok (c\<lparr>cs_tree := st', cs_alloc := al'\<rparr>)"
    using tri.cache_step_inv [OF tri.step_evict [OF e(1)] ok od] by simp
  moreover have ti: "tree_inv (cs_tree c) L pk pv" "tree_inv st' L' pk pv" using ri e(2) by (auto simp: radix_inv_def)
  ultimately show ?thesis using e(1,4,5,6) pruned_locked [OF ri ti(2) e(3)] pruned_cached [OF ti e(3)]
    by (intro exI [of _ st'] exI [of _ al'] exI [of _ m]) auto
qed

theorem evict_frees_unlocked_witness:
  "\<exists>st' al' m. rc_evict sample_env tri_free sample_full (cs_alloc sample_state) 2 = ret (st', al', m)
    \<and> (2 \<le> m \<or> rc_evictable_size st' = 0) \<and> rc_evictable_size st' = 2 - int m"
proof -
  have "rc_evictable_size sample_full = 2" by code_simp
  with evict_frees_unlocked [OF sample_state_ok sample_order_ok, of 2] show ?thesis by (auto simp: sample_state_def)
qed

text \<open>
  C27: locking a node of the tree moves exactly the tokens on its path that were not locked before from evictable to
  protected, and the reported difference is the change of the evictable size; unlocking it again restores both
  sizes and reports the opposite difference; neither changes the content.
\<close>

theorem lock_unlock_roundtrip:
  assumes ok: "radix_ok st H" and en: "\<not> rc_disable st" and n: "tpath st n k v"
  shows "\<exists>st' d st''. inc_lock_ref st n = ret (st', d) \<and> dec_lock_ref st' n = ret (st'', - d)
    \<and> radix_ok st' (add_mset n H) \<and> radix_ok st'' H
    \<and> rc_evictable_size st' = rc_evictable_size st + d \<and> rc_protected_size st' = rc_protected_size st - d
    \<and> rc_evictable_size st'' = rc_evictable_size st \<and> rc_protected_size st'' = rc_protected_size st
    \<and> (\<forall>e ts ws. (cached st' e ts ws \<longleftrightarrow> cached st e ts ws) \<and> (cached st'' e ts ws \<longleftrightarrow> cached st e ts ws))"
proof -
  from ok obtain L pk pv where ri: "radix_inv st L pk pv H" by (auto simp: radix_ok_def)
  have ti: "tree_inv st L pk pv" using ri by (simp add: radix_inv_def)
  have "n \<in> L" using n tpath_iff [OF ti] by simp
  from inc_lock_ref_spec [OF ri this en] obtain st' where
    a: "inc_lock_ref st n = ret (st', rc_evictable_size st' - rc_evictable_size st)" "radix_inv st' L pk pv (add_mset n H)"
      "same_tree st st'" by blast
  have "\<not> rc_disable st'" using en a(3) by (simp add: same_tree_def config_def)
  from dec_lock_ref_spec [OF a(2) this] obtain st'' where
    b: "dec_lock_ref st' n = ret (st'', rc_evictable_size st'' - rc_evictable_size st')" "radix_inv st'' L pk pv H"
      "same_tree st' st''" by blast
  note s = same_tree_trans [OF a(3) b(3)]
  note sz = radix_inv_sizes(1) [OF ri] radix_inv_sizes(1) [OF a(2)] radix_inv_sizes(1) [OF b(2)]
    same_tree_slots [OF a(3), of L] same_tree_slots [OF s, of L]
  have "rc_evictable_size st'' = rc_evictable_size st"
  proof -
    have si: "size_inv st L" "size_inv st'' L" using ri b(2) by (simp_all add: radix_inv_def)
    have "rc_root st'' = rc_root st" "\<And>m. toks st'' m = toks st m" using s by (auto simp: same_tree_def config_def)
    then show ?thesis using si lock_unique [OF ri b(2) s] unfolding size_inv_def
      by (simp cong: conj_cong)
  qed
  then show ?thesis using a b sz same_tree_cached [OF a(3)] same_tree_cached [OF s]
    by (intro exI [of _ st'] exI [of _ "rc_evictable_size st' - rc_evictable_size st"] exI [of _ st'']) (auto simp: radix_ok_def)
qed

theorem lock_unlock_roundtrip_witness:
  "\<exists>st' d st''. inc_lock_ref sample_full 1 = ret (st', d) \<and> dec_lock_ref st' 1 = ret (st'', - d)
    \<and> rc_protected_size st' = rc_protected_size sample_full - d \<and> rc_evictable_size st'' = rc_evictable_size sample_full"
proof -
  have en: "\<not> rc_disable sample_full" by code_simp
  have "((None, One (Tok 7)), 1) \<in> set (kids sample_full (rc_root sample_full))" by code_simp
  from tpath_child [OF tpath_root this] obtain k v where "tpath sample_full 1 k v" by blast
  from lock_unlock_roundtrip [OF sample_ok(2) en this] show ?thesis by blast
qed



text \<open>
  C29: \<open>all_values_flatten\<close> returns the slots of every node, each occurrence once: as a multiset they are what the
  tree holds, so their number is the size of the tree.  On the empty tree \<open>torch.cat\<close> has nothing to join and raises.
\<close>

theorem all_values_complete:
  assumes "radix_inv st L pk pv H"
  shows "if L = {rc_root st} then all_values_flatten st = raise RuntimeError
    else \<exists>vs. all_values_flatten st = ret vs \<and> mset vs = cache_slots st L
      \<and> int (length vs) = rc_evictable_size st + rc_protected_size st"
proof -
  have ti: "tree_inv st L pk pv" using assms by (simp add: radix_inv_def)
  have "int (length vs) = rc_evictable_size st + rc_protected_size st" if "mset vs = cache_slots st L" for vs
    using radix_inv_sizes(1) [OF assms] arg_cong [OF that, of size] by simp
  then show ?thesis using all_values_spec [OF ti] by (cases "L = {rc_root st}") auto
qed

theorem all_values_complete_witness: "all_values_flatten sample_tree = raise RuntimeError"
  using all_values_complete [OF rc_init_inv(1) [OF _ sample_init]] by simp



text \<open>
  C30: the block hashes of the KV events are signed 64-bit numbers: for every SHA-256 digest \<open>hash_str_to_int64\<close>
  returns, within the range of int64.
\<close>

theorem block_hash_int64:
  assumes "digest h"
  shows "\<exists>i. hash_str_to_int64 h = ret i \<and> - (2 ^ 63) \<le> i \<and> i < 2 ^ 63"
  by (rule hash_str_to_int64_ok [OF assms])

theorem block_hash_int64_witness:
  "\<exists>i. hash_str_to_int64 (replicate 64 (CHR ''f'')) = ret i \<and> - (2 ^ 63) \<le> i \<and> i < 2 ^ 63"
proof (rule block_hash_int64)
  have "hex_val (CHR ''f'') \<noteq> None" by code_simp
  then show "digest (replicate 64 (CHR ''f''))" by (simp add: digest_def)
qed

end
