(* ===== verification/Kv_Alloc.thy ===== *)
theory Kv_Alloc
  imports Radix_Req Token_Alloc Triaxial_Sys Paged_Alloc
begin

text \<open>
  \<open>srt/mem_cache/common.py\<close>: allocation of KV slots for the extend and decode batches of the scheduler,
  eviction on demand, the write of the slots into the request table, and the release of a finished request.

  A prefix cache is a chunk cache or a radix cache, an allocator one of the three modelled classes;
  \<open>hasattr(allocator, "alloc_mixed")\<close> is the test for the TriAxialKV allocator.  The sliding-window and
  Mamba variants (\<open>SWATokenToKVPoolAllocator\<close>, \<open>HybridReqToTokenPool\<close>, \<open>maybe_evict_swa\<close>) are other
  subclasses and do not occur here.  Device memory that the code leaves uninitialised, or that lies behind
  a tensor, is the parameter \<open>gpu\<close>.  Logging is left out.
\<close>

section \<open>The objects\<close>

datatype kv_allocator = TokAl base_alloc | TriAl tri_state | PagedAl paged_state

datatype tree_cache = ChunkCache | RadixCache radix

record gpu =
  g_useq :: "nat \<Rightarrow> int"
  g_upre :: "nat \<Rightarrow> int"
  g_oob :: "nat \<Rightarrow> nat"
  g_uninit :: "nat \<Rightarrow> slot"

fun al_available_size :: "kv_allocator \<Rightarrow> int" where
  "al_available_size (TokAl a) = tok_available_size a"
| "al_available_size (TriAl a) = tri_available_size a"
| "al_available_size (PagedAl a) = int (base_available_size a)"

fun al_alloc :: "kv_allocator \<Rightarrow> nat \<Rightarrow> (slot list option \<times> kv_allocator) res" where
  "al_alloc (TokAl a) n = (let (xs, a) = tok_alloc a n in ret (xs, TokAl a))"
| "al_alloc (TriAl a) n = (let (xs, a) = tri_alloc a n in ret (xs, TriAl a))"
| "al_alloc (PagedAl a) n = rbind (lift_err (pg_alloc a n)) (\<lambda>(xs, a). ret (xs, PagedAl a))"

fun al_free :: "kv_allocator \<Rightarrow> slot list \<Rightarrow> err + kv_allocator" where
  "al_free (TokAl a) xs = map_sum id TokAl (tok_free a xs)"
| "al_free (TriAl a) xs = map_sum id TriAl (tri_free a xs)"
| "al_free (PagedAl a) xs = map_sum id PagedAl (pg_free a xs)"

fun al_page_size :: "kv_allocator \<Rightarrow> nat" where
  "al_page_size (TokAl a) = page_size a"
| "al_page_size (TriAl a) = page_size a"
| "al_page_size (PagedAl a) = page_size a"

datatype kv_backup = BaseBackup "nat list \<times> nat list" | TriBackup tri_backup

fun al_backup_state :: "kv_allocator \<Rightarrow> kv_backup" where
  "al_backup_state (TokAl a) = BaseBackup (base_backup_state a)"
| "al_backup_state (TriAl a) = TriBackup (tri_backup_state a)"
| "al_backup_state (PagedAl a) = BaseBackup (base_backup_state a)"

text \<open>\<open>alloc_extend\<close> and \<open>alloc_decode\<close> of the base class raise; those of the paged allocator work.\<close>

fun al_alloc_extend ::
  "gpu \<Rightarrow> kv_allocator \<Rightarrow> nat list \<Rightarrow> nat list \<Rightarrow> int list \<Rightarrow> nat \<Rightarrow> (slot list option \<times> kv_allocator) res" where
  "al_alloc_extend g (PagedAl a) prefix_lens seq_lens last_loc n =
     rbind (lift_err (pg_alloc_extend (g_useq g) (g_upre g) (g_oob g) (g_uninit g) a prefix_lens seq_lens last_loc n))
       (\<lambda>(xs, a). ret (xs, PagedAl a))"
| "al_alloc_extend g _ prefix_lens seq_lens last_loc n = raise NotImplementedError"

text \<open>The TriAxialKV allocator overrides \<open>alloc_decode\<close> with a method of one argument.\<close>

fun al_alloc_decode ::
  "gpu \<Rightarrow> kv_allocator \<Rightarrow> nat list \<Rightarrow> int list \<Rightarrow> (slot list option \<times> kv_allocator) res" where
  "al_alloc_decode g (PagedAl a) seq_lens last_loc =
     rbind (lift_err (pg_alloc_decode (g_useq g) (g_oob g) (g_uninit g) a seq_lens last_loc))
       (\<lambda>(xs, a). ret (xs, PagedAl a))"
| "al_alloc_decode g (TriAl a) seq_lens last_loc = raise TypeError"
| "al_alloc_decode g (TokAl a) seq_lens last_loc = raise NotImplementedError"

text \<open>\<open>tree_cache.page_size\<close> and \<open>tree_cache.evict\<close>; the chunk cache evicts nothing\<close>

fun tc_page_size :: "nat \<Rightarrow> tree_cache \<Rightarrow> nat" where
  "tc_page_size psz ChunkCache = psz"
| "tc_page_size psz (RadixCache st) = rc_page_size st"

fun tc_evict :: "rt_env \<Rightarrow> tree_cache \<Rightarrow> kv_allocator \<Rightarrow> int \<Rightarrow> (tree_cache \<times> kv_allocator) res" where
  "tc_evict env ChunkCache al n = ret (ChunkCache, al)"
| "tc_evict env (RadixCache st) al n =
     rbind (rc_evict env al_free st al n) (\<lambda>(st, al, _). ret (RadixCache st, al))"

section \<open>The request table\<close>

text \<open>
  \<open>write_req_to_token_pool_triton\<close>: the table is flat memory with rows of \<open>stride\<close> cells; the prefix
  tensors are reached through their data pointers.
\<close>

definition write_req_to_token_pool_triton ::
  "(nat \<Rightarrow> nat) \<Rightarrow> nat list \<Rightarrow> slot list list \<Rightarrow> nat list \<Rightarrow> nat list \<Rightarrow> nat list \<Rightarrow> slot list \<Rightarrow> nat
   \<Rightarrow> nat \<Rightarrow> slot list \<Rightarrow> slot list" where
  "write_req_to_token_pool_triton oob req_pool_indices prefix_tensors pre_lens seq_lens extend_lens out_cache_loc
     stride pid req_to_token_ptr =
     (let req_pool_index = req_pool_indices ! pid;
          pre_len = pre_lens ! pid;
          seq_len = seq_lens ! pid;
          prefix_tensor = prefix_tensors ! pid;
          mem = blocked_store 512 pre_len (req_pool_index * stride) (page_mem oob prefix_tensor) req_to_token_ptr;
          cumsum_start = sum_list (map (\<lambda>i. extend_lens ! i) [0..<pid])
      in blocked_store 512 (seq_len - pre_len) (req_pool_index * stride + pre_len)
           (\<lambda>o1. page_mem oob out_cache_loc (cumsum_start + o1)) mem)"

text \<open>The two views of the table: a tensor of rows, and its memory.\<close>

definition table_rows :: "nat \<Rightarrow> nat \<Rightarrow> slot list \<Rightarrow> slot list list" where
  "table_rows stride n mem = map (\<lambda>i. slice mem (i * stride) (i * stride + stride)) [0..<n]"

fun write_rows ::
  "req_pool \<Rightarrow> nat list \<Rightarrow> slot list list \<Rightarrow> nat list \<Rightarrow> nat list \<Rightarrow> nat list \<Rightarrow> slot list \<Rightarrow> nat \<Rightarrow> nat list
   \<Rightarrow> req_pool res" where
  "write_rows pool rows prefix_tensors pre_lens seq_lens extend_lens out_cache_loc pt [] = ret pool"
| "write_rows pool rows prefix_tensors pre_lens seq_lens extend_lens out_cache_loc pt (i # is) =
     rbind (rp_write_slice pool (rows ! i) 0 (pre_lens ! i) (prefix_tensors ! i)) (\<lambda>pool.
     rbind (rp_write_slice pool (rows ! i) (pre_lens ! i) (seq_lens ! i)
              (slice out_cache_loc pt (pt + extend_lens ! i))) (\<lambda>pool.
     write_rows pool rows prefix_tensors pre_lens seq_lens extend_lens out_cache_loc (pt + extend_lens ! i) is))"

definition write_cache_indices ::
  "gpu \<Rightarrow> bool \<Rightarrow> slot list \<Rightarrow> nat list \<Rightarrow> nat list \<Rightarrow> nat list \<Rightarrow> nat list \<Rightarrow> slot list list \<Rightarrow> req_pool \<Rightarrow> req_pool res" where
  "write_cache_indices g use_triton out_cache_loc rows prefix_lens seq_lens extend_lens prefix_tensors pool =
     (if use_triton
      then let stride = max_context_len pool;
               mem = launch (length rows)
                 (write_req_to_token_pool_triton (g_oob g) rows prefix_tensors prefix_lens seq_lens extend_lens
                    out_cache_loc stride) (concat (req_to_token pool))
           in ret (pool\<lparr>req_to_token := table_rows stride (length (req_to_token pool)) mem\<rparr>)
      else write_rows pool rows prefix_tensors prefix_lens seq_lens extend_lens out_cache_loc 0 [0..<length rows])"

text \<open>\<open>req_to_token[i, j]\<close>; a negative column counts from the end\<close>

definition read_cell :: "req_pool \<Rightarrow> nat \<Rightarrow> int \<Rightarrow> slot res" where
  "read_cell pool i j =
     (if i \<ge> length (req_to_token pool) then raise IndexError
      else let row = req_to_token pool ! i; k = (if j < 0 then j + int (length row) else j) in
        if 0 \<le> k \<and> k < int (length row) then ret (row ! nat k) else raise IndexError)"

fun read_cells :: "req_pool \<Rightarrow> nat list \<Rightarrow> int list \<Rightarrow> slot list res" where
  "read_cells pool (i # is) (j # js) =
     rbind (read_cell pool i j) (\<lambda>v. rbind (read_cells pool is js) (\<lambda>vs. ret (v # vs)))"
| "read_cells pool [] [] = ret []"
| "read_cells pool _ _ = raise IndexError"

definition get_last_loc_torch :: "req_pool \<Rightarrow> nat list \<Rightarrow> nat list \<Rightarrow> int list res" where
  "get_last_loc_torch pool rows prefix_lens =
     rbind (read_cells pool rows (map (\<lambda>p. int p - 1) prefix_lens)) (\<lambda>vs.
     ret (map2 (\<lambda>p v. if p > 0 then int v else -1) prefix_lens vs))"

definition get_last_loc_kernel ::
  "(nat \<Rightarrow> nat) \<Rightarrow> slot list \<Rightarrow> nat list \<Rightarrow> nat list \<Rightarrow> nat \<Rightarrow> nat \<Rightarrow> nat \<Rightarrow> nat \<Rightarrow> int list \<Rightarrow> int list" where
  "get_last_loc_kernel oob mem rows prefix_lens num_tokens stride BLOCK_SIZE pid result =
     (let offset = (\<lambda>o1. o1 + pid * BLOCK_SIZE);
          msk = (\<lambda>o1. offset o1 < num_tokens);
          prefix_len = (\<lambda>o1. if msk o1 then prefix_lens ! offset o1 else 0);
          req_pool_index = (\<lambda>o1. if msk o1 then rows ! offset o1 else 0);
          tokens = (\<lambda>o1. if prefix_len o1 > 0
                          then int (page_mem oob mem (req_pool_index o1 * stride + (prefix_len o1 - 1))) else -1)
      in tl_store (pid * BLOCK_SIZE) BLOCK_SIZE msk tokens result)"

definition get_last_loc_triton :: "gpu \<Rightarrow> req_pool \<Rightarrow> nat list \<Rightarrow> nat list \<Rightarrow> int list" where
  "get_last_loc_triton g pool rows prefix_lens =
     (let BLOCK_SIZE = 256; num_tokens = length prefix_lens in
      launch (cdiv num_tokens BLOCK_SIZE)
        (get_last_loc_kernel (g_oob g) (concat (req_to_token pool)) rows prefix_lens num_tokens
           (max_context_len pool) BLOCK_SIZE)
        (map (\<lambda>i. int (g_uninit g i)) [0..<num_tokens]))"

definition get_last_loc :: "gpu \<Rightarrow> string \<Rightarrow> req_pool \<Rightarrow> nat list \<Rightarrow> nat list \<Rightarrow> int list res" where
  "get_last_loc g attention_backend pool rows prefix_lens =
     (if attention_backend \<noteq> ''ascend'' \<and> attention_backend \<noteq> ''torch_native''
      then ret (get_last_loc_triton g pool rows prefix_lens)
      else get_last_loc_torch pool rows prefix_lens)"

section \<open>Allocation with eviction\<close>

definition evict_from_tree_cache ::
  "rt_env \<Rightarrow> tree_cache option \<Rightarrow> kv_allocator \<Rightarrow> nat \<Rightarrow> (tree_cache option \<times> kv_allocator) res" where
  "evict_from_tree_cache env tree al num_tokens =
     (case tree of None \<Rightarrow> ret (tree, al)
      | Some ChunkCache \<Rightarrow> ret (tree, al)
      | Some (RadixCache st) \<Rightarrow>
          let short = (case al of
                TriAl a \<Rightarrow> tri_available_size a < int num_tokens \<or> available_size_int4 a < num_tokens
              | _ \<Rightarrow> al_available_size al < int num_tokens)
          in if short then rbind (tc_evict env (RadixCache st) al (int num_tokens)) (\<lambda>(tc, al). ret (Some tc, al))
             else ret (tree, al))"

text \<open>\<open>evict_from_tree_cache\<close> on a cache object\<close>

definition evict_for :: "rt_env \<Rightarrow> tree_cache \<Rightarrow> kv_allocator \<Rightarrow> nat \<Rightarrow> (tree_cache \<times> kv_allocator) res" where
  "evict_for env tc al n = rbind (evict_from_tree_cache env (Some tc) al n) (\<lambda>(t, al). ret (the t, al))"

definition alloc_token_slots ::
  "rt_env \<Rightarrow> tree_cache \<Rightarrow> kv_allocator \<Rightarrow> nat \<Rightarrow> bool
   \<Rightarrow> (tree_cache \<times> kv_allocator \<times> slot list \<times> kv_backup option) res" where
  "alloc_token_slots env tc al num_tokens backup_state =
     rbind (evict_for env tc al num_tokens) (\<lambda>(tc, al).
     let state = (if backup_state then Some (al_backup_state al) else None) in
     rbind (al_alloc al num_tokens) (\<lambda>(out_cache_loc, al).
     case out_cache_loc of None \<Rightarrow> raise RuntimeError
     | Some xs \<Rightarrow> ret (tc, al, xs, state)))"

text \<open>The widths of the new tokens of one request; positions past the tagged prompt are INT4.\<close>

definition triaxial_chunk :: "nat list option \<Rightarrow> nat \<Rightarrow> nat \<Rightarrow> nat list" where
  "triaxial_chunk bits p e =
     (case bits of None \<Rightarrow> replicate e 4
      | Some bs \<Rightarrow>
          let seg = slice bs p (p + e) in
          if length seg < e then seg @ replicate (e - length seg) 4 else seg)"

record 'r batch =
  b_reqs :: "'r list"
  b_prefix_lens :: "nat list"
  b_extend_lens :: "nat list"
  b_seq_lens :: "nat list"
  b_extend_num_tokens :: nat

definition batch_bits :: "'z req_scheme batch \<Rightarrow> nat list" where
  "batch_bits b = concat (map (\<lambda>(r, p, e). triaxial_chunk (triaxial_bits r) p e)
     (zip (b_reqs b) (zip (b_prefix_lens b) (b_extend_lens b))))"

definition alloc_token_slots_triaxial ::
  "gpu \<Rightarrow> rt_env \<Rightarrow> tree_cache \<Rightarrow> tri_state \<Rightarrow> 'z req_scheme batch \<Rightarrow> (tree_cache \<times> kv_allocator \<times> slot list) res" where
  "alloc_token_slots_triaxial g env tc a b =
     (let num_tokens = b_extend_num_tokens b in
      rbind (evict_for env tc (TriAl a) num_tokens) (\<lambda>(tc, al).
      let bits_flat = batch_bits b;
          mixed = (\<lambda>al. case al of
              TriAl a \<Rightarrow> rbind (lift_err (alloc_mixed (g_uninit g) a bits_flat (b_extend_lens b)))
                           (\<lambda>(xs, a). ret (xs, TriAl a))
            | _ \<Rightarrow> raise AttributeError)
      in rbind (mixed al) (\<lambda>(out_cache_loc, al).
         rbind (case out_cache_loc of Some xs \<Rightarrow> ret (tc, al, Some xs)
                | None \<Rightarrow>
                    rbind (tc_evict env tc al (int num_tokens)) (\<lambda>(tc, al).
                    rbind (mixed al) (\<lambda>(xs, al). ret (tc, al, xs)))) (\<lambda>(tc, al, out_cache_loc).
         case out_cache_loc of None \<Rightarrow> raise RuntimeError
         | Some xs \<Rightarrow> ret (tc, al, xs)))))"

definition alloc_paged_token_slots_extend ::
  "gpu \<Rightarrow> rt_env \<Rightarrow> tree_cache \<Rightarrow> kv_allocator \<Rightarrow> nat list \<Rightarrow> nat list \<Rightarrow> int list \<Rightarrow> nat \<Rightarrow> bool
   \<Rightarrow> (tree_cache \<times> kv_allocator \<times> slot list \<times> kv_backup option) res" where
  "alloc_paged_token_slots_extend g env tc al prefix_lens seq_lens last_loc extend_num_tokens backup_state =
     (let num_tokens = extend_num_tokens + length seq_lens * al_page_size al in
      rbind (evict_for env tc al num_tokens) (\<lambda>(tc, al).
      let state = (if backup_state then Some (al_backup_state al) else None) in
      rbind (al_alloc_extend g al prefix_lens seq_lens last_loc extend_num_tokens) (\<lambda>(out_cache_loc, al).
      case out_cache_loc of None \<Rightarrow> raise RuntimeError
      | Some xs \<Rightarrow> ret (tc, al, xs, state))))"

definition alloc_paged_token_slots_decode ::
  "gpu \<Rightarrow> rt_env \<Rightarrow> tree_cache \<Rightarrow> kv_allocator \<Rightarrow> nat list \<Rightarrow> int list \<Rightarrow> (tree_cache \<times> kv_allocator \<times> slot list) res" where
  "alloc_paged_token_slots_decode g env tc al seq_lens last_loc =
     (let num_tokens = length seq_lens * al_page_size al in
      rbind (evict_for env tc al num_tokens) (\<lambda>(tc, al).
      rbind (al_alloc_decode g al seq_lens last_loc) (\<lambda>(out_cache_loc, al).
      case out_cache_loc of None \<Rightarrow> raise RuntimeError
      | Some xs \<Rightarrow> ret (tc, al, xs))))"

definition alloc_req_slots :: "req_pool \<Rightarrow> 'z req_scheme list \<Rightarrow> (req_pool \<times> 'z req_scheme list \<times> nat list) res" where
  "alloc_req_slots pool reqs =
     rbind (rp_alloc pool reqs) (\<lambda>(idx, pool, reqs).
     case idx of None \<Rightarrow> raise RuntimeError | Some rows \<Rightarrow> ret (pool, reqs, rows))"

section \<open>The batches\<close>

definition last_loc_of :: "slot list \<Rightarrow> int" where
  "last_loc_of t = (if length t > 0 then int (last t) else -1)"

definition alloc_for_extend ::
  "gpu \<Rightarrow> rt_env \<Rightarrow> bool \<Rightarrow> nat \<Rightarrow> tree_cache \<Rightarrow> kv_allocator \<Rightarrow> req_pool \<Rightarrow> 'z req_scheme batch
   \<Rightarrow> (tree_cache \<times> kv_allocator \<times> req_pool \<times> 'z req_scheme batch \<times> slot list \<times> nat list) res" where
  "alloc_for_extend g env use_triton psz tc al pool b =
     (let prefix_tensors = map prefix_indices (b_reqs b) in
      rbind (alloc_req_slots pool (b_reqs b)) (\<lambda>(pool, reqs, rows).
      let b = b\<lparr>b_reqs := reqs\<rparr> in
      rbind (if tc_page_size psz tc = 1
             then case al of TriAl a \<Rightarrow> alloc_token_slots_triaxial g env tc a b
                  | _ \<Rightarrow> rbind (alloc_token_slots env tc al (b_extend_num_tokens b) False)
                           (\<lambda>(tc, al, xs, _). ret (tc, al, xs))
             else rbind (alloc_paged_token_slots_extend g env tc al (b_prefix_lens b) (b_seq_lens b)
                           (map last_loc_of prefix_tensors) (b_extend_num_tokens b) False)
                    (\<lambda>(tc, al, xs, _). ret (tc, al, xs))) (\<lambda>(tc, al, out_cache_loc).
      rbind (write_cache_indices g use_triton out_cache_loc rows (b_prefix_lens b) (b_seq_lens b)
               (b_extend_lens b) prefix_tensors pool) (\<lambda>pool.
      ret (tc, al, pool, b, out_cache_loc, rows)))))"

definition alloc_for_decode ::
  "gpu \<Rightarrow> rt_env \<Rightarrow> nat \<Rightarrow> nat list option \<Rightarrow> tree_cache \<Rightarrow> kv_allocator \<Rightarrow> req_pool \<Rightarrow> nat list \<Rightarrow> nat list \<Rightarrow> nat
   \<Rightarrow> (tree_cache \<times> kv_allocator \<times> req_pool \<times> slot list) res" where
  "alloc_for_decode g env psz encoder_lens tc al pool rows seq_lens token_per_req =
     (let bs = length seq_lens in
      rbind (if tc_page_size psz tc = 1
             then rbind (alloc_token_slots env tc al (bs * token_per_req) False) (\<lambda>(tc, al, xs, _). ret (tc, al, xs))
             else rbind (read_cells pool rows (map (\<lambda>s. int s - 1) seq_lens)) (\<lambda>last_loc.
                  alloc_paged_token_slots_decode g env tc al (map (\<lambda>s. s + token_per_req) seq_lens)
                    (map int last_loc))) (\<lambda>(tc, al, out_cache_loc).
      let locs = (case encoder_lens of Some e \<Rightarrow> map2 (+) e seq_lens | None \<Rightarrow> seq_lens) in
      rbind (rp_write_cells pool rows locs out_cache_loc) (\<lambda>pool.
      ret (tc, al, pool, out_cache_loc))))"

definition ceil_align :: "nat \<Rightarrow> nat \<Rightarrow> nat" where
  "ceil_align x y = cdiv x y * y"

text \<open>\<open>tree_cache.cache_finished_req\<close>\<close>

fun tc_cache_finished_req ::
  "rt_env \<Rightarrow> tree_cache \<Rightarrow> kv_allocator \<Rightarrow> req_pool \<Rightarrow> 'z req_scheme \<Rightarrow> bool \<Rightarrow> (tree_cache \<times> kv_allocator \<times> 'z req_scheme) res" where
  "tc_cache_finished_req env ChunkCache al pool r is_insert =
     rbind (chunk_cache_finished_req al_free al pool r) (\<lambda>(al, r). ret (ChunkCache, al, r))"
| "tc_cache_finished_req env (RadixCache st) al pool r is_insert =
     rbind (cache_finished_req env al_free st al pool r is_insert) (\<lambda>(st, al, r). ret (RadixCache st, al, r))"

text \<open>Neither cache supports Mamba states, so a request without a row is refused.\<close>

definition release_kv_cache ::
  "rt_env \<Rightarrow> nat \<Rightarrow> string option \<Rightarrow> tree_cache \<Rightarrow> kv_allocator \<Rightarrow> req_pool \<Rightarrow> 'z req_scheme \<Rightarrow> bool
   \<Rightarrow> (tree_cache \<times> kv_allocator \<times> req_pool \<times> 'z req_scheme) res" where
  "release_kv_cache env psz spec_algo tc al pool r is_insert =
     (if req_pool_idx r = None then raise AssertionError
      else rbind (tc_cache_finished_req env tc al pool r is_insert) (\<lambda>(tc, al, r).
        case req_pool_idx r of None \<Rightarrow> ret (tc, al, pool, r)
        | Some i \<Rightarrow>
            rbind (pop_overallocated_kv_cache r) (\<lambda>(start_p, end_p, r).
            if spec_algo = None \<and> start_p \<noteq> end_p then raise AssertionError
            else let start_p = (if psz > 1 then ceil_align start_p psz else start_p) in
              rbind (if start_p < end_p
                     then rbind (rp_read pool (Some i) (length (req_to_token pool ! i))) (\<lambda>row.
                          lift_err (al_free al (slice row start_p end_p)))
                     else ret al) (\<lambda>al.
              rbind (rp_free pool r) (\<lambda>(pool, r). ret (tc, al, pool, r))))))"

end
