(* ===== verification/Sched_Req.thy ===== *)
theory Sched_Req
  imports Kv_Alloc
begin

text \<open>
  The scheduler's view of a request, \<open>Req\<close> of \<open>srt/managers/schedule_batch.py\<close>: the input of its next
  round, its stop conditions, incremental detokenisation and the reset on retraction.  The record extends the
  part that the KV cache uses.  The tokenizer and \<open>re.search\<close> are parameters.  Diffusion models and the
  positions of multimodal inputs are not part of the record.
\<close>

section \<open>State\<close>

datatype finish_reason =
    FINISH_MATCHED_TOKEN int
  | FINISH_MATCHED_STR string
  | FINISHED_MATCHED_REGEX string
  | FINISH_LENGTH int
  | FINISH_ABORT

record sreq = req +
  rid :: string
  max_new_tokens :: int
  ignore_eos :: bool
  stop_token_ids :: "int list"
  eos_token_ids :: "int list"
  stop_strs :: "string list"
  stop_regex_strs :: "string list"
  stop_str_max_len :: nat
  stop_regex_max_len :: nat
  vocab_size :: int
  decoded_text :: string
  grammar_terminated :: "bool option"
  routing_key :: "string option"
  wait_queue_entry_time :: int
  extend_input_len :: int
  host_hit_length :: int
  streaming_session :: bool
  return_logprob :: bool
  logprob_start_len :: int
  extend_logprob_start_len :: int
  finished_reason :: "finish_reason option"
  to_finish :: "finish_reason option"
  finished_len :: "int option"
  is_retracted :: bool
  retracted_stain :: bool
  retraction_count :: nat
  has_input_embeds :: bool
  already_computed :: int
  cached_tokens :: int
  extend_batch_idx :: nat
  decode_batch_idx :: nat
  origin_input_ids_unpadded :: "int list"
  surr_offset :: "nat option"
  read_offset :: "nat option"
  surr_and_decode_ids :: "int list"
  cur_decode_ids_len :: nat
  spec_acceptance_histogram :: "nat list"

record tokenizer =
  tk_eos_token_id :: int
  tk_additional_stop_token_ids :: "int list"
  tk_decode :: "int list \<Rightarrow> string"

section \<open>Python sequences\<close>

text \<open>\<open>xs[-n:]\<close>: all of \<open>xs\<close> when \<open>n\<close> is 0\<close>

definition py_tail :: "nat \<Rightarrow> 'a list \<Rightarrow> 'a list" where
  "py_tail n xs = (if n = 0 then xs else drop (length xs - n) xs)"

text \<open>\<open>xs[:n]\<close> for an integer: a negative bound counts from the end\<close>

definition py_take :: "int \<Rightarrow> 'a list \<Rightarrow> 'a list" where
  "py_take n xs = (if n < 0 then take (nat (int (length xs) + n)) xs else take (nat n) xs)"

text \<open>\<open>p in s\<close> for strings\<close>

fun substr :: "'a list \<Rightarrow> 'a list \<Rightarrow> bool" where
  "substr p [] \<longleftrightarrow> p = []"
| "substr p (c # s) \<longleftrightarrow> take (length p) (c # s) = p \<or> substr p s"

section \<open>Lengths and the next round\<close>

definition seqlen :: "'z req_scheme \<Rightarrow> nat" where
  "seqlen r = length (origin_input_ids r) + length (output_ids r)"

definition is_prefill_only :: "string option \<Rightarrow> sreq \<Rightarrow> bool" where
  "is_prefill_only spec_alg r \<longleftrightarrow> max_new_tokens r = 0 \<and> spec_alg = None"

definition output_ids_through_stop :: "sreq \<Rightarrow> int list" where
  "output_ids_through_stop r =
     (case finished_len r of Some n \<Rightarrow> py_take n (output_ids r) | None \<Rightarrow> output_ids r)"

definition update_spec_acceptance_histogram :: "sreq \<Rightarrow> nat \<Rightarrow> sreq" where
  "update_spec_acceptance_histogram r accepted =
     (let h = spec_acceptance_histogram r;
          h = (if length h \<le> accepted then h @ replicate (accepted - length h + 1) 0 else h)
      in r\<lparr>spec_acceptance_histogram := h[accepted := h ! accepted + 1]\<rparr>)"

definition finished :: "sreq \<Rightarrow> bool" where
  "finished r \<longleftrightarrow> finished_reason r \<noteq> None"

definition set_extend_input_len :: "sreq \<Rightarrow> int \<Rightarrow> sreq" where
  "set_extend_input_len r n =
     (let start = (if logprob_start_len r = -1 then int (length (fill_ids r))
                   else max (logprob_start_len r) (int (length (prefix_indices r))))
      in r\<lparr>extend_input_len := n,
           extend_logprob_start_len := min (start - int (length (prefix_indices r))) n\<rparr>)"

text \<open>\<open>tree_cache.match_prefix\<close>; the chunk cache matches nothing\<close>

fun tc_match_prefix :: "rt_env \<Rightarrow> tree_cache \<Rightarrow> radix_key \<Rightarrow> (tree_cache \<times> slot list \<times> nat option) res" where
  "tc_match_prefix env ChunkCache key = ret (ChunkCache, [], None)"
| "tc_match_prefix env (RadixCache st) key =
     rbind (match_prefix env st key) (\<lambda>(st, idx, n). ret (RadixCache st, idx, Some n))"

definition max_prefix_len :: "sreq \<Rightarrow> nat" where
  "max_prefix_len r =
     (let n = int (length (fill_ids r)) - 1;
          n = (if return_logprob r \<and> logprob_start_len r \<ge> 0 then min n (logprob_start_len r) else n)
      in nat (max n 0))"

definition init_next_round_input :: "rt_env \<Rightarrow> tree_cache option \<Rightarrow> sreq \<Rightarrow> (tree_cache option \<times> sreq) res" where
  "init_next_round_input env tree r =
     (let r = r\<lparr>fill_ids := origin_input_ids r @ output_ids r\<rparr>;
          r = (if streaming_session r \<and> return_logprob r \<and> logprob_start_len r \<ge> 0
               then r\<lparr>logprob_start_len := -1\<rparr> else r);
          ids = take (max_prefix_len r) (fill_ids r)
      in rbind (case tree of None \<Rightarrow> ret (None, r)
                | Some tc \<Rightarrow>
                    rbind (tc_match_prefix env tc (RadixKey (map Tok ids) (r_extra_key r) False)) (\<lambda>(tc, idx, n).
                    ret (Some tc, r\<lparr>prefix_indices := idx, last_node := n, host_hit_length := 0,
                                    cache_protected_len := length idx\<rparr>))) (\<lambda>(tree, r).
         ret (tree, set_extend_input_len r (int (length (fill_ids r)) - int (length (prefix_indices r))))))"

definition reset_for_retract :: "sreq \<Rightarrow> sreq" where
  "reset_for_retract r =
     (let r = r\<lparr>retraction_count := retraction_count r + 1, prefix_indices := [], last_node := None,
                extend_input_len := 0, is_retracted := True, retracted_stain := True,
                extend_logprob_start_len := 0, is_chunked := 0, already_computed := 0,
                kv_allocated_len := 0, kv_committed_len := 0, kv_committed_freed := False,
                kv_overallocated_freed := False, extend_batch_idx := 0, decode_batch_idx := 0\<rparr>
      in if has_input_embeds r then r\<lparr>output_ids := []\<rparr> else r)"

section \<open>Incremental detokenisation\<close>

definition INIT_INCREMENTAL_DETOKENIZATION_OFFSET :: nat where
  "INIT_INCREMENTAL_DETOKENIZATION_OFFSET = 5"

definition init_incremental_detokenize :: "sreq \<Rightarrow> sreq \<times> int list \<times> nat" where
  "init_incremental_detokenize r =
     (let output_ids = output_ids_through_stop r;
          first_iter = (surr_offset r = None \<or> read_offset r = None);
          r = (if first_iter then
                 let ro = length (origin_input_ids_unpadded r);
                     so = ro - INIT_INCREMENTAL_DETOKENIZATION_OFFSET
                 in r\<lparr>read_offset := Some ro, surr_offset := Some so,
                      surr_and_decode_ids := drop so (origin_input_ids_unpadded r) @ output_ids,
                      cur_decode_ids_len := length output_ids\<rparr>
               else r\<lparr>surr_and_decode_ids := surr_and_decode_ids r @ drop (cur_decode_ids_len r) output_ids,
                      cur_decode_ids_len := length output_ids\<rparr>)
      in (r, surr_and_decode_ids r, the (read_offset r) - the (surr_offset r)))"

section \<open>Stop conditions\<close>

definition tail_str :: "tokenizer option \<Rightarrow> sreq \<Rightarrow> string res" where
  "tail_str tk r =
     (if length (stop_strs r) = 0 \<and> length (stop_regex_strs r) = 0 then ret ''''
      else let max_len_tail_str = max (stop_str_max_len r + 1) (stop_regex_max_len r + 1);
               tail_len = min max_len_tail_str (length (output_ids r))
           in case tk of None \<Rightarrow> raise AttributeError
              | Some t \<Rightarrow> ret (tk_decode t (py_tail tail_len (output_ids r))))"

definition stop_str_overlaps :: "string \<Rightarrow> string \<Rightarrow> bool" where
  "stop_str_overlaps tail stop_str \<longleftrightarrow>
     stop_str \<noteq> '''' \<and>
     (substr stop_str tail \<or>
      list_ex (\<lambda>i. py_tail i tail = take i stop_str) [1..<min (length tail) (length stop_str) + 1])"

definition check_match_stop_str_prefix :: "tokenizer option \<Rightarrow> sreq \<Rightarrow> bool res" where
  "check_match_stop_str_prefix tk r =
     (if stop_strs r = [] then ret False
      else rbind (tail_str tk r) (\<lambda>tail.
        if tail = '''' then ret False else ret (list_ex (stop_str_overlaps tail) (stop_strs r))))"

definition matches_eos :: "tokenizer option \<Rightarrow> sreq \<Rightarrow> int \<Rightarrow> bool" where
  "matches_eos tk r t \<longleftrightarrow>
     t \<in> set (stop_token_ids r) \<or> t \<in> set (eos_token_ids r) \<or>
     (case tk of None \<Rightarrow> False
      | Some k \<Rightarrow> t = tk_eos_token_id k \<or> t \<in> set (tk_additional_stop_token_ids k))"

text \<open>The loop over the new tokens; \<open>i\<close> is the position of the next one.\<close>

fun token_finish_loop :: "tokenizer option \<Rightarrow> nat \<Rightarrow> nat \<Rightarrow> sreq \<Rightarrow> int list \<Rightarrow> bool \<times> sreq" where
  "token_finish_loop tk n i r [] = (False, r)"
| "token_finish_loop tk n i r (t # ts) =
     (if matches_eos tk r t
      then (True, r\<lparr>finished_reason := Some (FINISH_MATCHED_TOKEN t),
                    finished_len := Some (int (length (output_ids r)) - int n + int i + 1)\<rparr>)
      else token_finish_loop tk n (Suc i) r ts)"

definition check_token_based_finish :: "tokenizer option \<Rightarrow> sreq \<Rightarrow> int list \<Rightarrow> bool \<times> sreq" where
  "check_token_based_finish tk r new_accepted_tokens =
     (if ignore_eos r then (False, r)
      else token_finish_loop tk (length new_accepted_tokens) 0 r new_accepted_tokens)"

definition check_str_based_finish ::
  "(string \<Rightarrow> string \<Rightarrow> bool) \<Rightarrow> tokenizer option \<Rightarrow> sreq \<Rightarrow> (bool \<times> sreq) res" where
  "check_str_based_finish re_search tk r =
     (if length (stop_strs r) > 0 \<or> length (stop_regex_strs r) > 0
      then rbind (tail_str tk r) (\<lambda>tail.
        case find (\<lambda>s. substr s tail \<or> substr s (decoded_text r)) (stop_strs r) of
          Some s \<Rightarrow> ret (True, r\<lparr>finished_reason := Some (FINISH_MATCHED_STR s)\<rparr>)
        | None \<Rightarrow>
            (case find (\<lambda>p. re_search p tail) (stop_regex_strs r) of
               Some p \<Rightarrow> ret (True, r\<lparr>finished_reason := Some (FINISHED_MATCHED_REGEX p)\<rparr>)
             | None \<Rightarrow> ret (False, r)))
      else ret (False, r))"

fun vocab_boundary_loop :: "nat \<Rightarrow> nat \<Rightarrow> sreq \<Rightarrow> int list \<Rightarrow> bool \<times> sreq" where
  "vocab_boundary_loop n i r [] = (False, r)"
| "vocab_boundary_loop n i r (t # ts) =
     (if t > vocab_size r \<or> t < 0
      then let offset = length (output_ids r) - n + i;
               r = (if stop_token_ids r \<noteq> []
                    then r\<lparr>output_ids := (output_ids r)[offset := hd (stop_token_ids r)]\<rparr> else r);
               r = (if eos_token_ids r \<noteq> []
                    then r\<lparr>output_ids := (output_ids r)[offset := hd (eos_token_ids r)]\<rparr> else r)
           in (True, r\<lparr>finished_reason := Some (FINISH_MATCHED_STR ''NaN happened''),
                       finished_len := Some (int offset + 1)\<rparr>)
      else vocab_boundary_loop n (Suc i) r ts)"

definition check_vocab_boundary_finish :: "sreq \<Rightarrow> int list \<Rightarrow> bool \<times> sreq" where
  "check_vocab_boundary_finish r new_accepted_tokens =
     vocab_boundary_loop (length new_accepted_tokens) 0 r new_accepted_tokens"

definition check_finished ::
  "(string \<Rightarrow> string \<Rightarrow> bool) \<Rightarrow> tokenizer option \<Rightarrow> sreq \<Rightarrow> nat \<Rightarrow> sreq res" where
  "check_finished re_search tk r new_accepted_len =
     (if finished r then ret r
      else if to_finish r \<noteq> None then ret (r\<lparr>finished_reason := to_finish r, to_finish := None\<rparr>)
      else if int (length (output_ids r)) \<ge> max_new_tokens r
      then ret (r\<lparr>finished_reason := Some (FINISH_LENGTH (max_new_tokens r)), finished_len := Some (max_new_tokens r)\<rparr>)
      else if grammar_terminated r = Some True
      then (if output_ids r = [] then raise IndexError
            else ret (r\<lparr>finished_reason := Some (FINISH_MATCHED_TOKEN (last (output_ids r)))\<rparr>))
      else let new = py_tail new_accepted_len (output_ids r);
               (hit, r) = check_token_based_finish tk r new
           in if hit then ret r
              else let (hit, r) = check_vocab_boundary_finish r new in
                if hit then ret r
                else rbind (check_str_based_finish re_search tk r) (\<lambda>(hit, r). ret r))"

end
