(* ===== verification/Sched_Batch.thy ===== *)
theory Sched_Batch
  imports Complex_Main Sched_Req "HOL-Library.Product_Lexorder"
begin

text \<open>
  The memory side of \<open>ScheduleBatch\<close> (\<open>srt/managers/schedule_batch.py\<close>): preparation of extend and decode
  batches, the check that the next decode step fits, retraction of requests when it does not, and filtering
  and merging of batches.

  The state is the batch and the triple of prefix cache, allocator and request table that it points to.
  Requests are values: an operation returns the list with the updated request.  The sampling, log-probability,
  multimodal, encoder, Mamba and speculative side tables are left out, as is the offload of the decode
  disaggregation mode.  Ratios are exact rationals.
\<close>

section \<open>State\<close>

record kv_sys =
  s_tree :: tree_cache
  s_alloc :: kv_allocator
  s_pool :: req_pool

record sargs =
  sa_page_size :: nat
  sa_spec_algorithm :: "string option"
  sa_spec_num_steps :: "nat option"
  sa_spec_eagle_topk :: "nat option"
  sa_spec_num_draft_tokens :: "nat option"
  sa_retract_decode_steps :: nat
  sa_enable_overlap :: bool
  sa_use_triton :: bool

record sbatch =
  sb_reqs :: "sreq list"
  sb_rows :: "nat list"
  sb_seq_lens :: "nat list"
  sb_orig_seq_lens :: "nat list"
  sb_seq_lens_sum :: nat
  sb_out_cache_loc :: "slot list option"
  sb_output_ids :: "int list option"
  sb_input_ids :: "int list option"
  sb_prefix_lens :: "int list"
  sb_extend_lens :: "int list"
  sb_extend_num_tokens :: nat

section \<open>Does the next decode step fit?\<close>

definition or_one :: "nat option \<Rightarrow> nat" where
  "or_one x = (case x of None \<Rightarrow> 1 | Some n \<Rightarrow> if n = 0 then 1 else n)"

definition is_spec_v2 :: "sargs \<Rightarrow> bool" where
  "is_spec_v2 sa \<longleftrightarrow> sa_enable_overlap sa \<and> sa_spec_algorithm sa \<noteq> None"

definition new_tokens_required_next_decode :: "sargs \<Rightarrow> nat \<Rightarrow> sreq list \<Rightarrow> nat res" where
  "new_tokens_required_next_decode sa psz requests =
     (if sa_spec_algorithm sa = None
      then if psz = 0 \<and> requests \<noteq> [] then raise ZeroDivisionError
           else ret (length (filter (\<lambda>r. kv_committed_len r mod psz = 0) requests) * psz)
      else case sa_spec_num_draft_tokens sa of None \<Rightarrow> raise TypeError
      | Some spec_tokens \<Rightarrow>
          let len_per_topk = or_one (sa_spec_num_steps sa);
              spec_topk = or_one (sa_spec_eagle_topk sa);
              (len_per_topk, spec_tokens) =
                (if psz > 1 \<and> spec_topk > 1 then (ceil_align (len_per_topk + psz) psz, ceil_align spec_tokens psz)
                 else if psz > 1 then (ceil_align len_per_topk psz, ceil_align spec_tokens psz)
                 else (len_per_topk, spec_tokens));
              num_tokens = max (len_per_topk * spec_topk) spec_tokens * length requests
          in ret (num_tokens * (if is_spec_v2 sa then 2 else 1)))"

definition decode_fits :: "kv_allocator \<Rightarrow> nat \<Rightarrow> bool" where
  "decode_fits al n =
     (case al of TriAl a \<Rightarrow> available_size_int4 a \<ge> n | _ \<Rightarrow> al_available_size al \<ge> int n)"

definition sys_evict :: "rt_env \<Rightarrow> kv_sys \<Rightarrow> nat \<Rightarrow> kv_sys res" where
  "sys_evict env s n =
     rbind (evict_for env (s_tree s) (s_alloc s) n) (\<lambda>(tc, al). ret (s\<lparr>s_tree := tc, s_alloc := al\<rparr>))"

definition check_decode_mem :: "rt_env \<Rightarrow> sargs \<Rightarrow> kv_sys \<Rightarrow> sreq list \<Rightarrow> (kv_sys \<times> bool) res" where
  "check_decode_mem env sa s requests =
     rbind (new_tokens_required_next_decode sa (al_page_size (s_alloc s)) requests) (\<lambda>n.
     rbind (sys_evict env s n) (\<lambda>s. ret (s, decode_fits (s_alloc s) n)))"

section \<open>Retraction\<close>

definition release_req :: "rt_env \<Rightarrow> sargs \<Rightarrow> kv_sys \<Rightarrow> sreq \<Rightarrow> nat \<Rightarrow> (kv_sys \<times> sreq) res" where
  "release_req env sa s r remaining =
     rbind (release_kv_cache env (sa_page_size sa) (sa_spec_algorithm sa) (s_tree s) (s_alloc s) (s_pool s) r False)
       (\<lambda>(tc, al, pool, r).
     rbind (sys_evict env \<lparr>s_tree = tc, s_alloc = al, s_pool = pool\<rparr> (remaining * sa_retract_decode_steps sa)) (\<lambda>s.
     ret (s, reset_for_retract r)))"

text \<open>The requests are sorted so that the last ones have the shortest output and the longest input.\<close>

definition retract_order :: "sargs \<Rightarrow> sreq list \<Rightarrow> nat list" where
  "retract_order sa reqs =
     (if sa_spec_algorithm sa = None \<or> sa_spec_algorithm sa = Some ''''
      then sort_key (\<lambda>i. (- int (length (output_ids (reqs ! i))), int (length (origin_input_ids (reqs ! i)))))
             [0..<length reqs]
      else [0..<length reqs])"

text \<open>The loop, over the indices in reverse: \<open>pop()\<close> takes the head.  It collects the retracted indices.\<close>

fun retract_loop ::
  "rt_env \<Rightarrow> sargs \<Rightarrow> bool \<Rightarrow> kv_sys \<Rightarrow> sreq list \<Rightarrow> nat list \<Rightarrow> nat list
   \<Rightarrow> (kv_sys \<times> sreq list \<times> nat list \<times> nat list) res" where
  "retract_loop env sa first_iter s reqs retracted [] =
     rbind (if first_iter then ret (s, False) else check_decode_mem env sa s []) (\<lambda>(s, fits).
     if fits then ret (s, reqs, retracted, []) else raise IndexError)"
| "retract_loop env sa first_iter s reqs retracted (i # stack) =
     rbind (if first_iter then ret (s, False)
            else check_decode_mem env sa s (map (\<lambda>j. reqs ! j) (rev (i # stack)))) (\<lambda>(s, fits).
     if fits \<or> stack = [] then ret (s, reqs, retracted, i # stack)
     else rbind (release_req env sa s (reqs ! i) (length stack)) (\<lambda>(s, r).
          retract_loop env sa False s (reqs[i := r]) (retracted @ [i]) stack))"

definition filter_batch :: "string list \<Rightarrow> nat list option \<Rightarrow> sbatch \<Rightarrow> sbatch" where
  "filter_batch chunked_req_to_exclude keep_indices b =
     (let keep = (case keep_indices of Some k \<Rightarrow> k
                  | None \<Rightarrow> filter (\<lambda>i. \<not> finished (sb_reqs b ! i) \<and> rid (sb_reqs b ! i) \<notin> set chunked_req_to_exclude)
                              [0..<length (sb_reqs b)])
      in if keep = [] then b\<lparr>sb_reqs := []\<rparr>
         else if length keep = length (sb_reqs b) then b
         else let seq_lens = gather (sb_seq_lens b) keep in
           b\<lparr>sb_reqs := gather (sb_reqs b) keep, sb_rows := gather (sb_rows b) keep, sb_seq_lens := seq_lens,
             sb_orig_seq_lens := gather (sb_orig_seq_lens b) keep, sb_out_cache_loc := None,
             sb_seq_lens_sum := sum_list seq_lens,
             sb_output_ids := map_option (\<lambda>ids. gather ids keep) (sb_output_ids b)\<rparr>)"

definition new_estimate_ratio :: "nat \<Rightarrow> sreq list \<Rightarrow> rat" where
  "new_estimate_ratio steps reqs =
     min 1 ((of_nat (sum_list (map (\<lambda>r. length (output_ids r)) reqs)) + of_nat (steps * length reqs))
            / (of_int (sum_list (map max_new_tokens reqs)) + 1))"

definition retract_decode ::
  "rt_env \<Rightarrow> sargs \<Rightarrow> kv_sys \<Rightarrow> sbatch \<Rightarrow> (kv_sys \<times> sbatch \<times> sreq list \<times> rat \<times> sreq list) res" where
  "retract_decode env sa s b =
     rbind (retract_loop env sa True s (sb_reqs b) [] (rev (retract_order sa (sb_reqs b))))
       (\<lambda>(s, reqs, retracted, stack).
     rbind (if length stack \<le> 1
            then rbind (check_decode_mem env sa s (map (\<lambda>j. reqs ! j) (rev stack))) (\<lambda>(s, fits).
              if fits then ret (s, reqs, stack, [])
              else case stack of [] \<Rightarrow> raise IndexError
                | i # stack \<Rightarrow>
                    rbind (release_req env sa s ((reqs ! i)\<lparr>to_finish := Some FINISH_ABORT\<rparr>) 0) (\<lambda>(s, r).
                    ret (s, reqs[i := r], stack, [i])))
            else ret (s, reqs, stack, [])) (\<lambda>(s, reqs, stack, aborted).
     let b = filter_batch [] (Some (rev stack)) (b\<lparr>sb_reqs := reqs\<rparr>)
     in ret (s, b, gather reqs retracted, new_estimate_ratio (sa_retract_decode_steps sa) (sb_reqs b),
             gather reqs aborted)))"

fun retract_all_loop ::
  "rt_env \<Rightarrow> sargs \<Rightarrow> kv_sys \<Rightarrow> nat \<Rightarrow> sreq list \<Rightarrow> nat list \<Rightarrow> (kv_sys \<times> sreq list) res" where
  "retract_all_loop env sa s n reqs [] = ret (s, reqs)"
| "retract_all_loop env sa s n reqs (i # is) =
     rbind (release_req env sa s (reqs ! i) (n - i)) (\<lambda>(s, r). retract_all_loop env sa s n (reqs[i := r]) is)"

definition retract_all :: "rt_env \<Rightarrow> sargs \<Rightarrow> kv_sys \<Rightarrow> sbatch \<Rightarrow> (kv_sys \<times> sbatch \<times> sreq list) res" where
  "retract_all env sa s b =
     rbind (retract_all_loop env sa s (length (sb_reqs b)) (sb_reqs b) [0..<length (sb_reqs b)]) (\<lambda>(s, reqs).
     ret (s, filter_batch (map rid reqs) None (b\<lparr>sb_reqs := reqs\<rparr>), reqs))"

section \<open>Batches\<close>

definition extend_req :: "nat \<Rightarrow> nat \<Rightarrow> nat \<Rightarrow> sreq \<Rightarrow> sreq res" where
  "extend_req row seq_len pre_len r =
     (if int seq_len - int pre_len \<noteq> extend_input_len r then raise AssertionError
      else let r = r\<lparr>req_pool_idx := Some row, extend_batch_idx := extend_batch_idx r + 1,
                     kv_committed_len := seq_len, kv_allocated_len := seq_len\<rparr>;
               r = (if \<not> retracted_stain r
                    then r\<lparr>cached_tokens := cached_tokens r + (int pre_len - already_computed r),
                           already_computed := int seq_len\<rparr>
                    else r)
           in ret (r\<lparr>is_retracted := False\<rparr>))"

fun extend_reqs :: "nat list \<Rightarrow> nat list \<Rightarrow> nat list \<Rightarrow> sreq list \<Rightarrow> sreq list res" where
  "extend_reqs (row # rows) (s # ss) (p # pl) (r # rs) =
     rbind (extend_req row s p r) (\<lambda>r. rbind (extend_reqs rows ss pl rs) (\<lambda>rs. ret (r # rs)))"
| "extend_reqs _ _ _ _ = ret []"

definition prepare_for_extend :: "gpu \<Rightarrow> rt_env \<Rightarrow> sargs \<Rightarrow> kv_sys \<Rightarrow> sbatch \<Rightarrow> (kv_sys \<times> sbatch) res" where
  "prepare_for_extend g env sa s b =
     (let reqs = sb_reqs b;
          input_ids = map (\<lambda>r. drop (length (prefix_indices r)) (fill_ids r)) reqs;
          extend_num_tokens = sum_list (map length input_ids);
          seq_lens = map (\<lambda>r. length (fill_ids r)) reqs;
          orig_seq_lens = map (\<lambda>r. max (length (fill_ids r)) (length (origin_input_ids r))) reqs;
          prefix_lens = map (\<lambda>r. length (prefix_indices r)) reqs;
          extend_lens = map extend_input_len reqs
      in rbind (alloc_for_extend g env (sa_use_triton sa) (sa_page_size sa) (s_tree s) (s_alloc s) (s_pool s)
                  \<lparr>b_reqs = reqs, b_prefix_lens = prefix_lens, b_extend_lens = map nat extend_lens,
                   b_seq_lens = seq_lens, b_extend_num_tokens = extend_num_tokens\<rparr>)
           (\<lambda>(tc, al, pool, ab, out_cache_loc, rows).
         rbind (extend_reqs rows seq_lens prefix_lens (b_reqs ab)) (\<lambda>reqs.
         ret (\<lparr>s_tree = tc, s_alloc = al, s_pool = pool\<rparr>,
              b\<lparr>sb_reqs := reqs, sb_input_ids := Some (concat input_ids), sb_rows := rows, sb_seq_lens := seq_lens,
                sb_orig_seq_lens := orig_seq_lens, sb_seq_lens_sum := sum_list seq_lens,
                sb_out_cache_loc := Some out_cache_loc, sb_prefix_lens := map int prefix_lens,
                sb_extend_lens := extend_lens, sb_extend_num_tokens := extend_num_tokens\<rparr>))))"

definition prepare_for_decode :: "gpu \<Rightarrow> rt_env \<Rightarrow> sargs \<Rightarrow> kv_sys \<Rightarrow> sbatch \<Rightarrow> (kv_sys \<times> sbatch) res" where
  "prepare_for_decode g env sa s b =
     (if sa_spec_algorithm sa \<noteq> None then ret (s, b)
      else let bs = length (sb_reqs b); b = b\<lparr>sb_input_ids := sb_output_ids b, sb_output_ids := None\<rparr> in
        rbind (alloc_for_decode g env (sa_page_size sa) None (s_tree s) (s_alloc s) (s_pool s) (sb_rows b)
                 (sb_seq_lens b) 1) (\<lambda>(tc, al, pool, out_cache_loc).
        ret (\<lparr>s_tree = tc, s_alloc = al, s_pool = pool\<rparr>,
             b\<lparr>sb_out_cache_loc := Some out_cache_loc,
               sb_reqs := map (\<lambda>r. r\<lparr>decode_batch_idx := decode_batch_idx r + 1,
                                      kv_committed_len := kv_committed_len r + 1,
                                      kv_allocated_len := kv_allocated_len r + 1\<rparr>) (sb_reqs b),
               sb_seq_lens := map Suc (sb_seq_lens b), sb_orig_seq_lens := map Suc (sb_orig_seq_lens b),
               sb_seq_lens_sum := sb_seq_lens_sum b + bs\<rparr>)))"

text \<open>\<open>output_ids\<close> of the argument may not be \<open>None\<close> when those of the batch are set.\<close>

definition merge_batch :: "sbatch \<Rightarrow> sbatch \<Rightarrow> sbatch res" where
  "merge_batch b other =
     rbind (case sb_output_ids b of None \<Rightarrow> ret None
            | Some ids \<Rightarrow> (case sb_output_ids other of None \<Rightarrow> raise TypeError | Some ids' \<Rightarrow> ret (Some (ids @ ids'))))
       (\<lambda>output_ids.
     ret (b\<lparr>sb_rows := sb_rows b @ sb_rows other, sb_seq_lens := sb_seq_lens b @ sb_seq_lens other,
            sb_orig_seq_lens := sb_orig_seq_lens b @ sb_orig_seq_lens other, sb_out_cache_loc := None,
            sb_seq_lens_sum := sb_seq_lens_sum b + sb_seq_lens_sum other, sb_output_ids := output_ids,
            sb_reqs := sb_reqs b @ sb_reqs other\<rparr>))"

text \<open>\<open>torch.cat\<close> of a tensor that is not there raises\<close>

definition cat_opt :: "'a list option \<Rightarrow> 'a list option \<Rightarrow> 'a list res" where
  "cat_opt x y = (case (x, y) of (Some a, Some b) \<Rightarrow> ret (a @ b) | _ \<Rightarrow> raise TypeError)"

definition mix_with_running :: "bool \<Rightarrow> sbatch \<Rightarrow> sbatch \<Rightarrow> sbatch res" where
  "mix_with_running enable_overlap b running =
     (let running_bs = length (sb_reqs running);
          running = running\<lparr>sb_reqs := map (\<lambda>r. set_extend_input_len
                       (r\<lparr>fill_ids := origin_input_ids r @ output_ids r\<rparr>) 1) (sb_reqs running)\<rparr>
      in rbind (cat_opt (sb_input_ids b) (sb_input_ids running)) (\<lambda>input_ids.
         rbind (cat_opt (sb_out_cache_loc b) (sb_out_cache_loc running)) (\<lambda>out_cache_loc.
         rbind (merge_batch b running) (\<lambda>b.
         let delta = (if enable_overlap then 0 else -1 :: int) in
         ret (b\<lparr>sb_input_ids := Some input_ids, sb_out_cache_loc := Some out_cache_loc,
                sb_prefix_lens := sb_prefix_lens b @ map (\<lambda>r. int (seqlen r) + delta) (sb_reqs running),
                sb_extend_lens := sb_extend_lens b @ replicate running_bs 1,
                sb_extend_num_tokens := sb_extend_num_tokens b + running_bs\<rparr>)))))"

end
