(* ===== verification/Sched_Policy.thy ===== *)
theory Sched_Policy
  imports Sched_Batch "HOL-Library.List_Lexorder" "HOL-Library.Char_ord"
begin

text \<open>
  \<open>SchedulePolicy\<close> of \<open>srt/managers/schedule_policy.py\<close>: the order in which waiting requests are considered.

  The policy object holds a second, simulated radix cache over the waiting queue.  Its values are
  uninitialised tensors, the parameter \<open>uninit\<close>; its clock readings are those of \<open>wenv\<close>.  \<open>shuffle\<close> is
  \<open>random.shuffle\<close>.  Python's \<open>list.sort\<close> is stable, as \<open>sort_key\<close> is.  A dictionary from nodes to requests or
  weights that defaults to an empty list or 0 is a function.  Logging is left out.
\<close>

section \<open>Policies\<close>

datatype policy = LPM | DFS_WEIGHT | FCFS | LOF | RANDOM | ROUTING_KEY

definition cache_aware :: "policy \<Rightarrow> bool" where
  "cache_aware p \<longleftrightarrow> p = LPM \<or> p = DFS_WEIGHT"

definition IN_BATCH_PREFIX_CACHING_CHECK_THRESHOLD :: int where
  "IN_BATCH_PREFIX_CACHING_CHECK_THRESHOLD = 32"

definition IN_BATCH_PREFIX_CACHING_DEPRIORITIZE_THRESHOLD :: int where
  "IN_BATCH_PREFIX_CACHING_DEPRIORITIZE_THRESHOLD = 32"

fun tc_disable :: "tree_cache \<Rightarrow> bool" where
  "tc_disable ChunkCache = True"
| "tc_disable (RadixCache st) = rc_disable st"

definition validate_and_adjust_policy :: "string \<Rightarrow> tree_cache \<Rightarrow> policy res" where
  "validate_and_adjust_policy name tree =
     (if name = ''lpm'' then ret (if tc_disable tree then FCFS else LPM)
      else if name = ''dfs-weight'' then ret (if tc_disable tree then FCFS else DFS_WEIGHT)
      else if name = ''fcfs'' then ret FCFS
      else if name = ''lof'' then ret LOF
      else if name = ''random'' then ret RANDOM
      else if name = ''routing-key'' then ret ROUTING_KEY
      else raise ValueError)"

record sched_policy =
  sp_policy :: policy
  sp_enable_priority :: bool
  sp_priority_sign :: int
  sp_waiting_tree :: radix

definition sp_init :: "rt_env \<Rightarrow> string \<Rightarrow> tree_cache \<Rightarrow> bool \<Rightarrow> bool \<Rightarrow> sched_policy res" where
  "sp_init wenv name tree enable_priority low_first =
     rbind (validate_and_adjust_policy name tree) (\<lambda>p.
     rbind (rc_init wenv False 1 False False False ''lru'') (\<lambda>w.
     ret \<lparr>sp_policy = p, sp_enable_priority = enable_priority,
          sp_priority_sign = (if low_first then 1 else -1), sp_waiting_tree = w\<rparr>))"

definition determine_active_policy :: "sched_policy \<Rightarrow> sreq list \<Rightarrow> policy" where
  "determine_active_policy sp q = (if sp_policy sp = LPM \<and> length q > 128 then FCFS else sp_policy sp)"

section \<open>Sorting\<close>

text \<open>\<open>x.priority * sign\<close> of a request without a priority raises before anything is moved.\<close>

definition priority_key :: "int \<Rightarrow> sreq \<Rightarrow> int" where
  "priority_key sign r = the (r_priority r) * sign"

definition has_priorities :: "sreq list \<Rightarrow> bool" where
  "has_priorities q \<longleftrightarrow> list_all (\<lambda>r. r_priority r \<noteq> None) q"

text \<open>\<open>float("inf")\<close> sorts after every length.\<close>

definition sort_by_longest_prefix :: "string set \<Rightarrow> sreq list \<Rightarrow> sreq list" where
  "sort_by_longest_prefix depri q =
     sort_key (\<lambda>r. if rid r \<notin> depri then (0 :: nat, - int (length (prefix_indices r))) else (1, 0)) q"

definition sort_by_longest_output :: "bool \<Rightarrow> int \<Rightarrow> sreq list \<Rightarrow> sreq list res" where
  "sort_by_longest_output enable_priority sign q =
     (if enable_priority
      then if has_priorities q then ret (sort_key (\<lambda>r. (priority_key sign r, - max_new_tokens r)) q) else raise TypeError
      else ret (sort_key (\<lambda>r. - max_new_tokens r) q))"

definition sort_by_priority_and_fcfs :: "int \<Rightarrow> sreq list \<Rightarrow> sreq list res" where
  "sort_by_priority_and_fcfs sign q =
     (if has_priorities q then ret (sort_key (\<lambda>r. (priority_key sign r, wait_queue_entry_time r)) q) else raise TypeError)"

text \<open>A routing key counts when it is a non-empty string.\<close>

definition truthy :: "string option \<Rightarrow> bool" where
  "truthy k \<longleftrightarrow> k \<noteq> None \<and> k \<noteq> Some ''''"

definition routing_keys :: "sreq list \<Rightarrow> string option list" where
  "routing_keys running = filter truthy (map routing_key running)"

definition routing_sort_key :: "sreq list \<Rightarrow> sreq \<Rightarrow> nat \<times> int \<times> string" where
  "routing_sort_key running r =
     (let k = routing_key r in
      if truthy k \<and> k \<in> set (routing_keys running)
      then (0, - int (count_list (routing_keys running) k), the k)
      else (1, 0, case k of None \<Rightarrow> '''' | Some s \<Rightarrow> s))"

definition sort_by_routing_key :: "sreq list \<Rightarrow> sreq list \<Rightarrow> sreq list" where
  "sort_by_routing_key running q =
     (if routing_keys running = [] then q else sort_key (routing_sort_key running) q)"

section \<open>Depth-first weighting\<close>

definition last_node_to_reqs :: "sreq list \<Rightarrow> nat \<Rightarrow> sreq list" where
  "last_node_to_reqs q n = filter (\<lambda>r. last_node r = Some n) q"

text \<open>\<open>_calc_weight\<close>, over the children of \<open>cur\<close> still to visit\<close>

partial_function (option) calc_weight :: "radix \<Rightarrow> nat \<Rightarrow> nat list \<Rightarrow> (nat \<Rightarrow> nat) \<Rightarrow> (nat \<Rightarrow> nat) option" where
  "calc_weight st cur cs w =
     (case cs of [] \<Rightarrow> Some w
      | c # cs \<Rightarrow>
          Option.bind (calc_weight st c (map snd (n_children (node st c))) w) (\<lambda>w.
          calc_weight st cur cs (w(cur := w cur + w c))))"

definition sorted_children :: "radix \<Rightarrow> (nat \<Rightarrow> nat) \<Rightarrow> nat \<Rightarrow> nat list" where
  "sorted_children st w n = sort_key (\<lambda>c. - int (w c)) (map snd (n_children (node st n)))"

text \<open>\<open>_get_dfs_priority\<close> on each of the children \<open>cs\<close> in turn\<close>

partial_function (option) dfs_priority ::
  "radix \<Rightarrow> (nat \<Rightarrow> nat) \<Rightarrow> (nat \<Rightarrow> sreq list) \<Rightarrow> nat list \<Rightarrow> sreq list \<Rightarrow> sreq list option" where
  "dfs_priority st w m cs q =
     (case cs of [] \<Rightarrow> Some q
      | c # cs \<Rightarrow>
          Option.bind (dfs_priority st w m (sorted_children st w c) q) (\<lambda>q.
          dfs_priority st w m cs (q @ m c)))"

definition get_dfs_priority ::
  "radix \<Rightarrow> (nat \<Rightarrow> nat) \<Rightarrow> (nat \<Rightarrow> sreq list) \<Rightarrow> nat \<Rightarrow> sreq list \<Rightarrow> sreq list option" where
  "get_dfs_priority st w m cur q =
     Option.bind (dfs_priority st w m (sorted_children st w cur) q) (\<lambda>q. Some (q @ m cur))"

definition sort_by_dfs_weight :: "radix \<Rightarrow> sreq list \<Rightarrow> sreq list option" where
  "sort_by_dfs_weight st q =
     (let m = last_node_to_reqs q; w0 = (\<lambda>n. length (m n)) in
      Option.bind (calc_weight st (rc_root st) (map snd (n_children (node st (rc_root st)))) w0) (\<lambda>w.
      get_dfs_priority st w m (rc_root st) []))"

section \<open>The queue\<close>

definition in_batch_check ::
  "(nat \<Rightarrow> slot) \<Rightarrow> rt_env \<Rightarrow> radix \<Rightarrow> radix_key \<Rightarrow> (radix \<times> bool) res" where
  "in_batch_check uninit wenv w key =
     rbind (match_prefix wenv w key) (\<lambda>(w, idx, _).
     if int (length idx) \<ge> IN_BATCH_PREFIX_CACHING_DEPRIORITIZE_THRESHOLD then ret (w, True)
     else rbind (rc_insert wenv w key (Some (map uninit [0..<key_len key])) (Some 0) False) (\<lambda>(w, _). ret (w, False)))"

fun prefix_match_loop ::
  "(nat \<Rightarrow> slot) \<Rightarrow> rt_env \<Rightarrow> rt_env \<Rightarrow> tree_cache \<Rightarrow> radix \<Rightarrow> string set \<Rightarrow> sreq list
   \<Rightarrow> (tree_cache \<times> radix \<times> string set \<times> sreq list) res" where
  "prefix_match_loop uninit env wenv tc w depri [] = ret (tc, w, depri, [])"
| "prefix_match_loop uninit env wenv tc w depri (r # q) =
     (let key = RadixKey (map Tok (origin_input_ids r @ output_ids r)) (r_extra_key r) False in
      rbind (tc_match_prefix env tc key) (\<lambda>(tc, idx, n).
      let r = r\<lparr>prefix_indices := idx, last_node := n, host_hit_length := 0\<rparr> in
      rbind (if int (length idx) \<le> IN_BATCH_PREFIX_CACHING_CHECK_THRESHOLD then in_batch_check uninit wenv w key
             else ret (w, False)) (\<lambda>(w, hit).
      rbind (prefix_match_loop uninit env wenv tc w (if hit then insert (rid r) depri else depri) q)
        (\<lambda>(tc, w, depri, q). ret (tc, w, depri, r # q)))))"

definition compute_prefix_matches ::
  "(nat \<Rightarrow> slot) \<Rightarrow> rt_env \<Rightarrow> rt_env \<Rightarrow> sched_policy \<Rightarrow> tree_cache \<Rightarrow> sreq list
   \<Rightarrow> (sched_policy \<times> tree_cache \<times> string set \<times> sreq list) res" where
  "compute_prefix_matches uninit env wenv sp tc q =
     rbind (prefix_match_loop uninit env wenv tc (rc_reset wenv (sp_waiting_tree sp)) {} q) (\<lambda>(tc, w, depri, q).
     ret (sp\<lparr>sp_waiting_tree := w\<rparr>, tc, depri, q))"

definition calc_priority ::
  "(nat \<Rightarrow> slot) \<Rightarrow> (sreq list \<Rightarrow> sreq list) \<Rightarrow> rt_env \<Rightarrow> rt_env \<Rightarrow> sched_policy \<Rightarrow> tree_cache \<Rightarrow> sreq list
   \<Rightarrow> sreq list option \<Rightarrow> (sched_policy \<times> tree_cache \<times> sreq list \<times> bool) res" where
  "calc_priority uninit shuffle env wenv sp tc q running =
     (if sp_policy sp = FCFS
      then if sp_enable_priority sp
           then rbind (sort_by_priority_and_fcfs (sp_priority_sign sp) q) (\<lambda>q. ret (sp, tc, q, False))
           else ret (sp, tc, q, False)
      else case determine_active_policy sp q of
        LPM \<Rightarrow>
          rbind (compute_prefix_matches uninit env wenv sp tc q) (\<lambda>(sp, tc, depri, q).
          ret (sp, tc, sort_by_longest_prefix depri q, True))
      | DFS_WEIGHT \<Rightarrow>
          rbind (compute_prefix_matches uninit env wenv sp tc q) (\<lambda>(sp, tc, depri, q).
          case tc of ChunkCache \<Rightarrow> raise AttributeError
          | RadixCache st \<Rightarrow> Option.bind (sort_by_dfs_weight st q) (\<lambda>q. ret (sp, tc, q, True)))
      | FCFS \<Rightarrow> ret (sp, tc, q, False)
      | LOF \<Rightarrow>
          rbind (sort_by_longest_output (sp_enable_priority sp) (sp_priority_sign sp) q) (\<lambda>q. ret (sp, tc, q, False))
      | RANDOM \<Rightarrow> ret (sp, tc, shuffle q, False)
      | ROUTING_KEY \<Rightarrow>
          ret (sp, tc, case running of None \<Rightarrow> q | Some b \<Rightarrow> sort_by_routing_key b q, False))"

end
