(* ===== verification/Prefill_Adder.thy ===== *)
theory Prefill_Adder
  imports Sched_Policy
begin

text \<open>
  \<open>PrefillAdder\<close> of \<open>srt/managers/schedule_policy.py\<close>: the token budgets under which waiting requests are
  added to the next prefill batch, and preemption of running requests.

  Token counts are integers; where the code mixes in a ratio they are exact rationals, and \<open>int(...)\<close>
  truncates towards zero.  The sliding-window and Mamba branches do not occur for the modelled caches.
  \<open>init_load_back\<close> raises in every cache without a host tier.  The answer of the prefill delayer is a field.
\<close>

section \<open>State\<close>

definition CLIP_MAX_NEW_TOKENS :: int where
  "CLIP_MAX_NEW_TOKENS = 4096"

definition IGNORE_EOS_RESERVE_TOKENS :: int where
  "IGNORE_EOS_RESERVE_TOKENS = 1"

datatype add_req_result = CONTINUE | NO_TOKEN | OTHER

record adder =
  pa_page_size :: int
  pa_new_token_ratio :: rat
  pa_int2_fraction :: rat
  pa_rem_input :: int
  pa_rem_chunk :: "int option"
  pa_dllm :: "(int \<times> int) option"
  pa_rem_total_offset :: rat
  pa_cur_rem_offset :: int
  pa_req_states :: "(rat \<times> int) list option"
  pa_can_run :: "sreq list"
  pa_preempt :: "sreq list"
  pa_new_chunked :: "sreq option"
  pa_log_hit :: int
  pa_log_input :: int
  pa_running :: "sbatch option"
  pa_preemption_threshold :: int
  pa_prefill_max_requests :: "nat option"
  pa_context_parallel :: bool
  pa_allow_prefill :: "bool option"

definition running_token_offset :: "rat \<Rightarrow> sreq \<Rightarrow> rat" where
  "running_token_offset ratio r =
     of_int (min (max_new_tokens r - int (length (output_ids r))) CLIP_MAX_NEW_TOKENS) * ratio"

text \<open>\<open>__init__\<close>; the diffusion configuration is the block size and the number of running requests\<close>

definition pa_init ::
  "int \<Rightarrow> rat \<Rightarrow> rat \<Rightarrow> sbatch option \<Rightarrow> int \<Rightarrow> int option \<Rightarrow> int \<Rightarrow> int \<Rightarrow> nat option \<Rightarrow> bool \<Rightarrow> bool option
   \<Rightarrow> (int \<times> int) option \<Rightarrow> adder" where
  "pa_init psz f ratio running rem_input rem_chunk mixed threshold max_reqs cp allow dllm =
     \<lparr>pa_page_size = psz, pa_new_token_ratio = ratio, pa_int2_fraction = f, pa_rem_input = rem_input - mixed,
      pa_rem_chunk = map_option (\<lambda>c. c - mixed) rem_chunk,
      pa_dllm = map_option (\<lambda>(block, reqs). (block, reqs * block)) dllm,
      pa_rem_total_offset = of_int mixed
        + (case running of None \<Rightarrow> 0 | Some b \<Rightarrow> sum_list (map (running_token_offset ratio) (sb_reqs b))),
      pa_cur_rem_offset = mixed, pa_req_states = None, pa_can_run = [], pa_preempt = [], pa_new_chunked = None,
      pa_log_hit = 0, pa_log_input = 0, pa_running = running, pa_preemption_threshold = threshold,
      pa_prefill_max_requests = max_reqs, pa_context_parallel = cp, pa_allow_prefill = allow\<rparr>"

section \<open>Budgets\<close>

definition admission_size :: "rat \<Rightarrow> tri_state \<Rightarrow> int" where
  "admission_size int2_fraction a =
     (let int4_share = max (1 - int2_fraction) (1 / 20)
      in min (tri_available_size a) \<lfloor>of_nat (length (free_slots4 a)) / int4_share\<rfloor>)"

fun tc_evictable_size :: "tree_cache \<Rightarrow> int" where
  "tc_evictable_size ChunkCache = 0"
| "tc_evictable_size (RadixCache st) = rc_evictable_size st"

definition available_and_evictable :: "rat \<Rightarrow> kv_sys \<Rightarrow> int" where
  "available_and_evictable f s =
     (case s_alloc s of TriAl a \<Rightarrow> admission_size f a | al \<Rightarrow> al_available_size al) + tc_evictable_size (s_tree s)"

definition rem_total_tokens :: "kv_sys \<Rightarrow> adder \<Rightarrow> rat" where
  "rem_total_tokens s pa = of_int (available_and_evictable (pa_int2_fraction pa) s) - pa_rem_total_offset pa"

definition cur_rem_tokens :: "kv_sys \<Rightarrow> adder \<Rightarrow> int" where
  "cur_rem_tokens s pa = available_and_evictable (pa_int2_fraction pa) s - pa_cur_rem_offset pa"

definition ceil_paged_tokens :: "int \<Rightarrow> int \<Rightarrow> int" where
  "ceil_paged_tokens psz tokens = - (- tokens div psz) * psz"

definition budget_state :: "kv_sys \<Rightarrow> adder \<Rightarrow> add_req_result" where
  "budget_state s pa =
     (if rem_total_tokens s pa \<le> 0 \<or> cur_rem_tokens s pa \<le> 0 then NO_TOKEN
      else if pa_rem_input pa \<le> 0 then OTHER
      else case pa_dllm pa of
        Some (block, rem) \<Rightarrow> if rem \<le> 0 then OTHER else CONTINUE
      | None \<Rightarrow> (case pa_rem_chunk pa of Some c \<Rightarrow> if c \<le> 0 then OTHER else CONTINUE | None \<Rightarrow> CONTINUE))"

definition update_prefill_budget :: "adder \<Rightarrow> int \<Rightarrow> int \<Rightarrow> int \<Rightarrow> adder" where
  "update_prefill_budget pa prefix_len extend_len new_tokens =
     (let n = ceil_paged_tokens (pa_page_size pa) extend_len; page_overhead = pa_page_size pa in
      pa\<lparr>pa_rem_total_offset := pa_rem_total_offset pa + of_int (n + new_tokens + page_overhead),
         pa_cur_rem_offset := pa_cur_rem_offset pa + n + page_overhead,
         pa_rem_input := pa_rem_input pa - n,
         pa_dllm := map_option (\<lambda>(block, rem). (block, rem - n)) (pa_dllm pa),
         pa_rem_chunk := (if pa_dllm pa \<noteq> None then pa_rem_chunk pa else map_option (\<lambda>c. c - n) (pa_rem_chunk pa)),
         pa_log_hit := pa_log_hit pa + prefix_len, pa_log_input := pa_log_input pa + n\<rparr>)"

text \<open>\<open>int(x)\<close>\<close>

definition trunc_rat :: "rat \<Rightarrow> int" where
  "trunc_rat x = (if x < 0 then \<lceil>x\<rceil> else \<lfloor>x\<rfloor>)"

definition dllm_remain_tokens :: "kv_sys \<Rightarrow> adder \<Rightarrow> int \<times> int \<Rightarrow> int" where
  "dllm_remain_tokens s pa d =
     (let m = min (snd d) (min (fst d) (trunc_rat (rem_total_tokens s pa))) in if m \<le> 0 then snd d else m)"

definition append_run :: "adder \<Rightarrow> sreq \<Rightarrow> adder" where
  "append_run pa r = pa\<lparr>pa_can_run := pa_can_run pa @ [r]\<rparr>"

definition add_dllm_req :: "adder \<Rightarrow> int \<times> int \<Rightarrow> sreq \<Rightarrow> int \<Rightarrow> adder \<times> sreq" where
  "add_dllm_req pa d r prefix_len =
     (let trunc_len = min (snd d) (fst d) div pa_page_size pa * pa_page_size pa;
          r = r\<lparr>extend_input_len := trunc_len, fill_ids := py_take (prefix_len + trunc_len) (fill_ids r)\<rparr>
      in (update_prefill_budget (append_run pa r) prefix_len trunc_len 0, r))"

definition clipped_new_tokens :: "sreq \<Rightarrow> int" where
  "clipped_new_tokens r = min (max_new_tokens r) CLIP_MAX_NEW_TOKENS"

definition add_dllm_staging_req :: "kv_sys \<Rightarrow> adder \<Rightarrow> sreq \<Rightarrow> (adder \<times> sreq \<times> add_req_result) res" where
  "add_dllm_staging_req s pa r =
     (case pa_dllm pa of None \<Rightarrow> raise AssertionError
      | Some d \<Rightarrow>
          let rem_tokens = dllm_remain_tokens s pa d in
          if rem_tokens \<le> 0 then ret (pa, r, NO_TOKEN)
          else let truncated = (extend_input_len r > rem_tokens);
                   r = r\<lparr>extend_input_len := min (extend_input_len r) rem_tokens\<rparr>;
                   r = r\<lparr>fill_ids := py_take (int (length (prefix_indices r)) + extend_input_len r) (fill_ids r)\<rparr>;
                   pa = update_prefill_budget (append_run pa r) 0 (extend_input_len r)
                          (if truncated then 0 else clipped_new_tokens r)
               in ret (pa, r, if dllm_remain_tokens s pa (the (pa_dllm pa)) \<le> 0 then NO_TOKEN else CONTINUE))"

text \<open>A chunked request is always added, even when the budget is exhausted.\<close>

definition add_chunked_req :: "kv_sys \<Rightarrow> adder \<Rightarrow> sreq \<Rightarrow> (adder \<times> sreq \<times> bool) res" where
  "add_chunked_req s pa r =
     rbind (case pa_dllm pa of Some d \<Rightarrow> ret (dllm_remain_tokens s pa d)
            | None \<Rightarrow>
                (case pa_rem_chunk pa of None \<Rightarrow> raise TypeError
                 | Some c \<Rightarrow> let m = min c (trunc_rat (rem_total_tokens s pa)) in ret (if m \<le> 0 then c else m)))
       (\<lambda>rem_tokens.
     let truncated = (extend_input_len r > rem_tokens);
         r = set_extend_input_len r (min (extend_input_len r) rem_tokens);
         r = r\<lparr>fill_ids := py_take (int (length (prefix_indices r)) + extend_input_len r) (fill_ids r)\<rparr>;
         pa = update_prefill_budget (append_run pa r) 0 (extend_input_len r)
                (if truncated then 0 else clipped_new_tokens r)
     in ret (pa, r, truncated))"

section \<open>Requests that ignore the end-of-sequence token\<close>

definition req_state :: "rat \<Rightarrow> sreq \<Rightarrow> rat \<times> int" where
  "req_state ratio r =
     (of_int (max_new_tokens r) * (if ignore_eos r then 1 else ratio) - of_nat (length (output_ids r)),
      int (length (origin_input_ids r) + length (output_ids r)))"

definition append_state :: "rat \<Rightarrow> sreq \<Rightarrow> (rat \<times> int) list \<Rightarrow> (rat \<times> int) list" where
  "append_state ratio r sts = (if fst (req_state ratio r) \<le> 0 then sts else sts @ [req_state ratio r])"

text \<open>
  The position that the loop \<open>for i in range(len(states)): if x <= states[i][0]: break\<close> leaves in \<open>i\<close>:
  the first entry that is not smaller, and the last index when there is none.
\<close>

fun insert_pos :: "rat \<Rightarrow> (rat \<times> int) list \<Rightarrow> nat" where
  "insert_pos x [] = 0"
| "insert_pos x [e] = 0"
| "insert_pos x (e # sts) = (if x \<le> fst e then 0 else Suc (insert_pos x sts))"

definition insert_state :: "rat \<Rightarrow> sreq \<Rightarrow> (rat \<times> int) list \<Rightarrow> (rat \<times> int) list" where
  "insert_state ratio r sts =
     (let e = req_state ratio r; i = insert_pos (fst e) sts in
      if fst e \<le> 0 then sts else take i sts @ e # drop i sts)"

definition next_req_states :: "adder \<Rightarrow> sreq \<Rightarrow> (rat \<times> int) list" where
  "next_req_states pa r =
     (case pa_req_states pa of
        None \<Rightarrow>
          let sts = append_state (pa_new_token_ratio pa) r [];
              sts = fold (append_state (pa_new_token_ratio pa))
                      (case pa_running pa of None \<Rightarrow> [] | Some b \<Rightarrow> sb_reqs b) sts;
              sts = fold (append_state (pa_new_token_ratio pa)) (pa_can_run pa) sts
          in sort_key fst sts
      | Some sts \<Rightarrow> insert_state (pa_new_token_ratio pa) r sts)"

text \<open>The simulated completion of all requests; \<open>False\<close> when some step would run out of tokens.\<close>

fun enough_tokens :: "int \<Rightarrow> int \<Rightarrow> (rat \<times> int) list \<Rightarrow> bool" where
  "enough_tokens cur freed [] = True"
| "enough_tokens cur freed ((left, occupied) # sts) =
     (let bs = length sts + 1 in
      of_int cur + of_int freed - left * of_nat bs > of_int (IGNORE_EOS_RESERVE_TOKENS * int bs)
      \<and> enough_tokens cur (freed + occupied) sts)"

definition add_one_req_ignore_eos :: "kv_sys \<Rightarrow> adder \<Rightarrow> sreq \<Rightarrow> adder \<times> sreq \<times> add_req_result" where
  "add_one_req_ignore_eos s pa r =
     (let need = ceil_paged_tokens (pa_page_size pa) (extend_input_len r) in
      if of_int need > min (of_int (cur_rem_tokens s pa)) (rem_total_tokens s pa) then (pa, r, NO_TOKEN)
      else let sts = next_req_states pa r; pa = pa\<lparr>pa_req_states := Some sts\<rparr> in
        if \<not> enough_tokens (cur_rem_tokens s pa - need) 0 sts then (pa, r, NO_TOKEN)
        else case pa_dllm pa of
          Some d \<Rightarrow>
            if snd d \<le> 0 then (pa, r, OTHER)
            else let (pa, r) = add_dllm_req pa d r 0 in (pa, r, budget_state s pa)
        | None \<Rightarrow>
            (case pa_rem_chunk pa of
               Some c \<Rightarrow>
                 if extend_input_len r \<le> c
                 then let pa = update_prefill_budget (append_run pa r) 0 (extend_input_len r) (clipped_new_tokens r)
                      in (pa, r, budget_state s pa)
                 else if c \<le> 0 then (pa, r, OTHER)
                 else let r = set_extend_input_len r c;
                          r = r\<lparr>fill_ids := py_take c (fill_ids r)\<rparr>;
                          pa = (append_run pa r)\<lparr>pa_new_chunked := Some r\<rparr>;
                          pa = update_prefill_budget pa 0 c 0
                      in (pa, r, budget_state s pa)
             | None \<Rightarrow>
                 let pa = update_prefill_budget (append_run pa r) 0 (extend_input_len r) (clipped_new_tokens r)
                 in (pa, r, budget_state s pa)))"

section \<open>Adding one request\<close>

definition sys_inc_lock :: "kv_sys \<Rightarrow> nat option \<Rightarrow> kv_sys res" where
  "sys_inc_lock s n =
     (case s_tree s of ChunkCache \<Rightarrow> ret s
      | RadixCache st \<Rightarrow>
          (case n of None \<Rightarrow> if rc_disable st then ret s else raise AttributeError
           | Some i \<Rightarrow> rbind (inc_lock_ref st i) (\<lambda>(st, _). ret (s\<lparr>s_tree := RadixCache st\<rparr>))))"

definition sys_dec_lock :: "kv_sys \<Rightarrow> nat option \<Rightarrow> kv_sys res" where
  "sys_dec_lock s n =
     (case s_tree s of ChunkCache \<Rightarrow> ret s
      | RadixCache st \<Rightarrow> rbind (dec_lock_opt st n) (\<lambda>st. ret (s\<lparr>s_tree := RadixCache st\<rparr>)))"

text \<open>The body of \<open>with self._lock_node(req.last_node)\<close>; \<open>None\<close> stands for falling off its end.\<close>

definition add_locked ::
  "kv_sys \<Rightarrow> adder \<Rightarrow> sreq \<Rightarrow> int \<Rightarrow> nat option \<Rightarrow> (kv_sys \<times> adder \<times> sreq \<times> add_req_result option) res" where
  "add_locked s pa r total_tokens align =
     (let prefix_len = int (length (prefix_indices r));
          input_tokens = ceil_paged_tokens (pa_page_size pa) (extend_input_len r)
      in if of_int total_tokens \<ge> rem_total_tokens s pa then ret (s, pa, r, Some NO_TOKEN)
         else if host_hit_length r > 0 then raise NotImplementedError
         else if input_tokens \<ge> pa_rem_input pa \<and> length (pa_can_run pa) \<noteq> 0 then ret (s, pa, r, Some OTHER)
         else case pa_dllm pa of
           Some d \<Rightarrow>
             if snd d \<le> 0 then ret (s, pa, r, Some OTHER)
             else if align \<noteq> None then raise AssertionError
             else let (pa, r) = add_dllm_req pa d r prefix_len in
               rbind (sys_inc_lock s (last_node r)) (\<lambda>s. ret (s, pa, r, None))
         | None \<Rightarrow>
             if pa_rem_chunk pa = None \<or> input_tokens \<le> the (pa_rem_chunk pa)
             then rbind (sys_inc_lock s (last_node r)) (\<lambda>s.
                  ret (s, update_prefill_budget (append_run pa r) prefix_len input_tokens (clipped_new_tokens r), r, None))
             else let trunc_len = the (pa_rem_chunk pa) div pa_page_size pa * pa_page_size pa in
               if trunc_len \<le> 0 then ret (s, pa, r, Some OTHER)
               else if (case align of Some a \<Rightarrow> trunc_len < int a | None \<Rightarrow> False) then ret (s, pa, r, Some OTHER)
               else let trunc_len = (case align of Some a \<Rightarrow> int a * (trunc_len div int a) | None \<Rightarrow> trunc_len);
                        r = set_extend_input_len r trunc_len;
                        r = r\<lparr>fill_ids := py_take (int (length (prefix_indices r)) + trunc_len) (fill_ids r)\<rparr>;
                        pa = (append_run pa r)\<lparr>pa_new_chunked := Some r\<rparr>
                    in rbind (sys_inc_lock s (last_node r)) (\<lambda>s.
                       ret (s, update_prefill_budget pa prefix_len trunc_len 0, r, None)))"

definition add_one_req ::
  "kv_sys \<Rightarrow> adder \<Rightarrow> sreq \<Rightarrow> nat option \<Rightarrow> (kv_sys \<times> adder \<times> sreq \<times> add_req_result) res" where
  "add_one_req s pa r align =
     (if pa_allow_prefill pa = Some False then ret (s, pa, r, OTHER)
      else if pa_context_parallel pa \<and> length (pa_can_run pa) \<ge> 1 then ret (s, pa, r, OTHER)
      else if (case pa_prefill_max_requests pa of Some x \<Rightarrow> length (pa_can_run pa) \<ge> x | None \<Rightarrow> False)
      then ret (s, pa, r, OTHER)
      else if ignore_eos r \<and> tc_disable (s_tree s)
      then let (pa, r, res) = add_one_req_ignore_eos s pa r in ret (s, pa, r, res)
      else let total_tokens = extend_input_len r
                 + min (max (max_new_tokens r - int (length (output_ids r))) 0) CLIP_MAX_NEW_TOKENS;
               real_input_tokens = ceil_paged_tokens (pa_page_size pa) (extend_input_len r - host_hit_length r)
           in if of_int total_tokens \<ge> rem_total_tokens s pa then ret (s, pa, r, NO_TOKEN)
              else if real_input_tokens \<ge> pa_rem_input pa \<and> length (pa_can_run pa) \<noteq> 0 then ret (s, pa, r, OTHER)
              else rbind (sys_inc_lock s (last_node r)) (\<lambda>s.
                   rbind (add_locked s pa r total_tokens align) (\<lambda>(s, pa, r', res).
                   rbind (sys_dec_lock s (last_node r)) (\<lambda>s.
                   ret (s, pa, r', case res of Some x \<Rightarrow> x | None \<Rightarrow> budget_state s pa)))))"

section \<open>Preemption\<close>

text \<open>The running requests in the order in which they may be preempted, as positions in the batch.\<close>

definition preempt_order :: "int \<Rightarrow> adder \<Rightarrow> sreq list \<Rightarrow> nat list" where
  "preempt_order sign pa reqs =
     sort_key (\<lambda>i. (the (r_priority (reqs ! i)) * (- sign), - wait_queue_entry_time (reqs ! i)))
       (filter (\<lambda>i. rid (reqs ! i) \<notin> set (map rid (pa_preempt pa)) \<and> \<not> finished (reqs ! i)) [0..<length reqs])"

fun pick_preempt :: "int \<Rightarrow> int \<Rightarrow> int \<Rightarrow> rat \<Rightarrow> sreq list \<Rightarrow> nat list \<Rightarrow> rat \<Rightarrow> nat list \<times> rat" where
  "pick_preempt sign threshold prio ratio reqs [] need = ([], need)"
| "pick_preempt sign threshold prio ratio reqs (i # is) need =
     (if (prio - the (r_priority (reqs ! i))) * (- sign) > threshold
      then let need = need - running_token_offset ratio (reqs ! i) in
        if need \<le> 0 then ([i], need)
        else let (js, need) = pick_preempt sign threshold prio ratio reqs is need in (i # js, need)
      else ([], need))"

fun preempt_loop ::
  "rt_env \<Rightarrow> sargs \<Rightarrow> rat \<Rightarrow> nat set \<Rightarrow> kv_sys \<Rightarrow> rat \<Rightarrow> sreq list \<Rightarrow> nat \<Rightarrow> nat list
   \<Rightarrow> (kv_sys \<times> rat \<times> sreq list) res" where
  "preempt_loop env sa ratio chosen s off reqs released [] = ret (s, off, reqs)"
| "preempt_loop env sa ratio chosen s off reqs released (i # is) =
     (if i \<in> chosen
      then rbind (release_req env sa s (reqs ! i) (length reqs - (released + 1))) (\<lambda>(s, r).
           preempt_loop env sa ratio chosen s (off - running_token_offset ratio (reqs ! i)) (reqs[i := r])
             (released + 1) is)
      else preempt_loop env sa ratio chosen s off reqs released is)"

definition preempt_to_schedule ::
  "rt_env \<Rightarrow> sargs \<Rightarrow> bool \<Rightarrow> kv_sys \<Rightarrow> adder \<Rightarrow> sreq \<Rightarrow> (kv_sys \<times> adder \<times> bool) res" where
  "preempt_to_schedule env sa low_first s pa r =
     (case pa_running pa of None \<Rightarrow> raise AttributeError
      | Some b \<Rightarrow>
          let sign = (if low_first then 1 else -1 :: int);
              reqs = sb_reqs b;
              order = preempt_order sign pa reqs;
              need = of_int (extend_input_len r + clipped_new_tokens r) - rem_total_tokens s pa
          in if \<not> list_all (\<lambda>i. r_priority (reqs ! i) \<noteq> None) order \<or> order \<noteq> [] \<and> r_priority r = None
             then raise TypeError
             else let (chosen, need) = pick_preempt sign (pa_preemption_threshold pa) (the (r_priority r))
                                         (pa_new_token_ratio pa) reqs order need
                  in if chosen = [] \<or> need > 0 then ret (s, pa, False)
                     else rbind (preempt_loop env sa (pa_new_token_ratio pa) (set chosen) s (pa_rem_total_offset pa)
                                   reqs 0 [0..<length reqs]) (\<lambda>(s, off, reqs).
                          let keep = filter (\<lambda>i. i \<notin> set chosen) [0..<length reqs] in
                          ret (s, pa\<lparr>pa_rem_total_offset := off,
                                     pa_running := Some (filter_batch [] (Some keep) (b\<lparr>sb_reqs := reqs\<rparr>)),
                                     pa_preempt := pa_preempt pa @ gather reqs chosen\<rparr>, True)))"

end
