(* ===== verification/Spec2Isabelle.thy ===== *)
theory Spec2Isabelle
  imports Tagger_Props Paged_Props Radix_Props Prefill_Adder
begin

text \<open>
  This library verifies the KV-cache memory management of the SGLang server under \<open>src/python/sglang/srt\<close>, as
  extended by the TriAxialKV cache, which stores some tokens of a prompt with INT2 and the others with INT4
  precision.  All paths below are relative to that directory.

  \<^bold>\<open>The program.\<close>  A request is tagged token by token (\<open>managers/triaxial_tagger.py\<close>); a policy table turns a tag
  into a bit width.  The scheduler orders the waiting requests and admits some of them under token budgets
  (\<open>managers/schedule_policy.py\<close>).  Preparing a batch (\<open>managers/schedule_batch.py\<close>, \<open>mem_cache/common.py\<close>) matches each
  prompt against the radix tree of cached prefixes (\<open>mem_cache/radix_cache.py\<close>), evicts unlocked leaves if memory is
  short, takes slots from an allocator (\<open>mem_cache/allocator.py\<close>, \<open>mem_cache/triaxial_pool.py\<close>) and writes them into the
  table from requests to slots (\<open>ReqToTokenPool\<close> in \<open>mem_cache/memory_pool.py\<close>).  A finished or retracted request
  gives its slots to the tree or back to the allocator.

  \<^bold>\<open>Theories.\<close>
  \<^item> \<open>Prelude\<close>: exceptions, results of code that may raise or not return (\<open>res\<close>, \<open>rbind\<close>), tensors as lists.
    \<open>Kernels\<close>: masked block stores and kernel launches of Triton.
  \<^item> \<open>Base_Alloc\<close>: \<open>BaseTokenToKVPoolAllocator\<close> and the locale \<open>slot_allocator\<close>, the contract of an allocator.
    \<open>Token_Alloc\<close>: \<open>TokenToKVPoolAllocator\<close>, with the interpretation \<open>tok\<close>.
    \<open>Triaxial_Alloc\<close>, \<open>Triaxial_Mixed\<close>, \<open>Triaxial_Inv\<close>, \<open>Triaxial_Sys\<close>: \<open>TriaxialAllocator\<close>; the vectorised
    \<open>alloc_mixed\<close> refines a sequential specification, the ownership invariant is kept (interpretation \<open>tri\<close>), and the
    sizes are exact over every sequence of calls.
    \<open>Paged_Alloc\<close>, \<open>Paged_Layout\<close>, \<open>Paged_Props\<close>: the paged allocator; its two kernels, its reference loop and the
    layout of tokens over pages agree.
  \<^item> \<open>Tagger\<close>, \<open>Tagger_Props\<close>: tagging, policies and bit widths.
  \<^item> \<open>Radix_Node\<close>, \<open>Heapq\<close>, \<open>Evict_Policy\<close>, \<open>Radix_Cache\<close>: keys, nodes, block hashes, eviction strategies, the binary
    heap of CPython (with the locale \<open>weak_order\<close>, interpreted on the order of heap entries) and the class
    \<open>RadixCache\<close>.  The nodes are a list, a reference is an index.
    \<open>Radix_Inv\<close>, \<open>Radix_Split\<close>, \<open>Radix_Paths\<close>, \<open>Radix_Walk\<close>, \<open>Radix_Match\<close>, \<open>Radix_Hash\<close>, \<open>Radix_Insert\<close>, \<open>Radix_Lock\<close>,
    \<open>Radix_Evict\<close>, \<open>Radix_Tree\<close>: the representation invariant \<open>radix_inv\<close> and its preservation by every operation;
    \<open>cached\<close> is the abstract content, a map from token sequences to slots.
    \<open>Radix_Sys\<close>: the cache, its allocator and the running requests as a transition system.
    \<open>Radix_Props\<close>: the properties of the cache.
  \<^item> \<open>Req_Pool\<close>, \<open>Radix_Req\<close>: requests, \<open>ReqToTokenPool\<close>, and the request-level methods of the radix cache and of
    \<open>ChunkCache\<close>.  \<open>Kv_Alloc\<close>: \<open>mem_cache/common.py\<close>.
  \<^item> \<open>Sched_Req\<close>, \<open>Sched_Batch\<close>: the memory side of \<open>Req\<close> and \<open>ScheduleBatch\<close>.  \<open>Sched_Policy\<close>, \<open>Prefill_Adder\<close>: the two
    classes of \<open>managers/schedule_policy.py\<close>.

  \<^bold>\<open>Conventions.\<close>  A one-dimensional tensor is a list, a slot a natural number; wrap-around of device integers does not
  occur below the capacities in use.  A method becomes a function from the state to the new state and the result;
  errors are values of \<open>err\<close>.  Loops whose end depends on the data (walks in the tree, eviction) are
  \<open>partial_function (option)\<close>, and the properties state that they return; no fuel is used.  Times are only compared,
  so a clock reading is an integer; ratios of the scheduler are exact rationals instead of floats.  Parameters of
  the model: the monotonic clock, SHA-256 and the iteration order of a set (\<open>rt_env\<close>), the contents of uninitialised
  device memory and of memory behind a tensor (\<open>gpu\<close>), the tokenizer, \<open>re.search\<close> and \<open>random.shuffle\<close>.  Hypotheses on
  them are named: \<open>sha_ok\<close> (a digest has 64 hexadecimal digits) and \<open>order_ok\<close> (the order lists every element once).

  \<^bold>\<open>Not modelled.\<close>  The numerical side of TriAxialKV: the quantisation and attention kernels
  (\<open>layers/attention/triton_ops/triaxial_kv.py\<close>), the attention backend and the buffers of the pool, which are
  floating-point code on the device.  The other caches (host tier, sliding window, Mamba, sessions), the other memory
  pools, speculative decoding, disaggregation, the model code, the HTTP and gRPC front ends, the router and the
  benchmarks, which do not take part in the memory management described above.  Metrics, logging and printing only
  observe.
\<close>

end
